(* ===== verification/Go_Prelude.thy ===== *)
theory Go_Prelude
  imports Main "HOL-Library.Word" "HOL-Library.AList" "HOL-Library.Option_ord"
    "HOL-Library.Multiset"
begin

text \<open>
  The Go language level shared by the components of Suffren: machine integers, strings, maps and
  panics. A Go \<open>map[K]V\<close> is an association list with distinct keys (\<open>gm_ok\<close>). The list
  order stands for the order in which a \<open>range\<close> loop visits the entries, which Go leaves
  unspecified: every lemma quantifies over the list, so it covers every order, and the component
  lemmas state results through lookups, which do not depend on it.
  The lemmas here carry the component proofs: lookups after stores, deletes and folds
  (\<open>gm_simps\<close>), well-formedness (\<open>gm_ok_intros\<close>), and unsigned word comparisons on
  \<open>unat\<close>.
\<close>

section \<open>Types\<close>

type_synonym uint64 = "64 word"
type_synonym byte = "8 word"
type_synonym ('k, 'v) gomap = "('k \<times> 'v) list"

text \<open>
  Calling a method on a nil interface or type-asserting it makes a goroutine panic, and so do
  closing a channel that is closed, an index out of range and an argument the library rejects.
\<close>

datatype go_panic = NilDereference | CloseOfClosedChannel | IndexOutOfRange | InvalidArgument

section \<open>Maps\<close>

definition gm_ok :: "('k, 'v) gomap \<Rightarrow> bool" where
  "gm_ok m = distinct (map fst m)"

definition gm_dom :: "('k, 'v) gomap \<Rightarrow> 'k set" where
  "gm_dom m = fst ` set m"

definition gm_get :: "('k, 'v::zero) gomap \<Rightarrow> 'k \<Rightarrow> 'v" where
  "gm_get m k = (case map_of m k of Some v \<Rightarrow> v | None \<Rightarrow> 0)"

definition gm_set :: "'k \<Rightarrow> 'v \<Rightarrow> ('k, 'v) gomap \<Rightarrow> ('k, 'v) gomap" where
  "gm_set k v m = AList.update k v m"

definition gm_delete :: "'k \<Rightarrow> ('k, 'v) gomap \<Rightarrow> ('k, 'v) gomap" where
  "gm_delete k m = filter (\<lambda>p. fst p \<noteq> k) m"

named_theorems gm_simps \<open>lookups after map operations\<close>
named_theorems gm_ok_intros \<open>map operations keep keys distinct\<close>

lemma gm_ok_Nil [simp]: "gm_ok []"
  by (simp add: gm_ok_def)

lemma gm_ok_Cons [simp]: "gm_ok ((k, v) # m) \<longleftrightarrow> k \<notin> gm_dom m \<and> gm_ok m"
  by (auto simp: gm_ok_def gm_dom_def)

lemma gm_dom_Nil [simp]: "gm_dom [] = {}"
  by (simp add: gm_dom_def)

lemma gm_dom_Cons [simp]: "gm_dom ((k, v) # m) = insert k (gm_dom m)"
  by (simp add: gm_dom_def)

lemma finite_gm_dom [simp]: "finite (gm_dom m)"
  by (simp add: gm_dom_def)

lemma gm_dom_map_of: "gm_dom m = dom (map_of m)"
  by (simp add: gm_dom_def dom_map_of_conv_image_fst)

lemma map_of_None_iff: "map_of m k = None \<longleftrightarrow> k \<notin> gm_dom m"
  by (auto simp: gm_dom_map_of)

lemma gm_dom_SomeD: "map_of m k = Some v \<Longrightarrow> k \<in> gm_dom m"
  by (auto simp: gm_dom_map_of)

lemma gm_mem_iff: "gm_ok m \<Longrightarrow> (k, v) \<in> set m \<longleftrightarrow> map_of m k = Some v"
  by (auto simp: gm_ok_def map_of_is_SomeI dest: map_of_SomeD)

lemma gm_all_values_iff:
  "gm_ok m \<Longrightarrow> (\<forall>v \<in> set (map snd m). P v) \<longleftrightarrow> (\<forall>k v. map_of m k = Some v \<longrightarrow> P v)"
  by (auto simp flip: gm_mem_iff)

lemma gm_length: "gm_ok m \<Longrightarrow> length m = card (gm_dom m)"
  by (metis distinct_card gm_dom_def gm_ok_def length_map set_map)

lemma map_of_gm_set [gm_simps]: "map_of (gm_set k v m) = (map_of m)(k \<mapsto> v)"
  by (simp add: gm_set_def update_conv')

lemma gm_dom_set [gm_simps]: "gm_dom (gm_set k v m) = insert k (gm_dom m)"
  by (simp add: gm_set_def gm_dom_def dom_update)

lemma gm_ok_set [gm_ok_intros]: "gm_ok m \<Longrightarrow> gm_ok (gm_set k v m)"
  by (simp add: gm_set_def gm_ok_def distinct_update)

lemma gm_set_fresh: "k \<notin> gm_dom m \<Longrightarrow> gm_set k v m = m @ [(k, v)]"
  by (induction m) (auto simp: gm_set_def gm_dom_def)

lemma gm_get_set [gm_simps]: "gm_get (gm_set k v m) k' = (if k' = k then v else gm_get m k')"
  by (simp add: gm_get_def map_of_gm_set)

lemma gm_get_Nil [simp]: "gm_get [] k = 0"
  by (simp add: gm_get_def)

lemma gm_get_notin: "k \<notin> gm_dom m \<Longrightarrow> gm_get m k = 0"
  by (simp add: gm_get_def flip: map_of_None_iff)

lemma gm_get_Cons: "gm_get ((k, v) # m) k' = (if k' = k then v else gm_get m k')"
  by (simp add: gm_get_def)

lemma gm_get_Some: "map_of m k = Some v \<Longrightarrow> gm_get m k = v"
  by (simp add: gm_get_def)

lemma map_of_filter_fst: "map_of (filter (\<lambda>p. P (fst p)) m) k = (if P k then map_of m k else None)"
  by (induction m) auto

lemma map_of_gm_delete [gm_simps]: "map_of (gm_delete k m) = (map_of m)(k := None)"
  by (rule ext) (simp add: gm_delete_def map_of_filter_fst [where P = "\<lambda>x. x \<noteq> k"])

lemma gm_dom_delete [gm_simps]: "gm_dom (gm_delete k m) = gm_dom m - {k}"
  by (auto simp: gm_dom_map_of map_of_gm_delete)

lemma gm_ok_delete [gm_ok_intros]: "gm_ok m \<Longrightarrow> gm_ok (gm_delete k m)"
  by (simp add: gm_ok_def gm_delete_def distinct_map_filter)

text \<open>Two maps with the same lookups have the same entries, in some order.\<close>

lemma gm_same_mset:
  assumes "gm_ok m" "gm_ok m'" "map_of m = map_of m'"
  shows "mset m = mset m'"
proof -
  have "set m = set m'"
    using assms by (auto simp: gm_mem_iff)
  moreover have "distinct m" "distinct m'"
    using assms by (auto simp: gm_ok_def distinct_map)
  ultimately show ?thesis
    by (simp add: set_eq_iff_mset_eq_distinct)
qed

section \<open>Unsigned words\<close>

lemma unat_max_if: "unat (if a < b then b else a) = max (unat a) (unat b)"
  for a b :: "'a::len word"
  by (auto simp: max_def word_less_nat_alt)

lemma unat_add_no_overflow:
  "unat a + unat b < 2 ^ LENGTH('a) \<Longrightarrow> unat (a + b) = unat a + unat b"
  for a b :: "'a::len word"
  by (simp add: unat_word_ariths)

section \<open>Results that may panic\<close>

definition no_panic :: "go_panic + 'a \<Rightarrow> bool" where
  "no_panic r = (case r of Inl _ \<Rightarrow> False | Inr _ \<Rightarrow> True)"

lemma no_panic_simps [simp]: "no_panic (Inr x)" "\<not> no_panic (Inl e)"
  by (simp_all add: no_panic_def)

lemma sum_list_gm_set:
  "gm_ok m \<Longrightarrow> sum_list (map snd (gm_set n (gm_get m n + v) m)) = sum_list (map snd m) + v"
  for m :: "('k, 'v::comm_monoid_add) gomap"
proof (induction m)
  case (Cons p m)
  obtain k c where p: "p = (k, c)" by force
  then show ?case
    using Cons by (auto simp: gm_set_def gm_get_Cons ac_simps)
qed (simp add: gm_set_def)

end
