(* ===== verification/Lattice.thy ===== *)
theory Lattice
  imports Go_Prelude
begin

text \<open>
  The \<open>Lattice\<close> interface of \<open>internal/crdt/lattice.go\<close>. A Go interface value is a
  record of its methods; \<open>MergeInPlace\<close>, which mutates its receiver, returns the updated
  receiver. The protocol roles take such a record as their first argument, as the Go code takes
  an interface value. A type assertion \<open>other.(*T)\<close> in the methods is the type of the record:
  both arguments have the type the record is for.

  The contract comes in two locales. \<open>join_order\<close> says what \<open>Join\<close>, \<open>IsIn\<close>,
  \<open>Bottom\<close> and \<open>MergeInPlace\<close> promise through an abstraction \<open>rep\<close> into a join
  semilattice with bottom; \<open>exact_lattice\<close> adds that \<open>Equals\<close> and
  \<open>StrictlyIsIn\<close> decide equality and strict order of the abstractions. The components that
  implement the interface interpret them; the protocol's safety is proved once inside them.
\<close>

record 'v Lattice =
  Join :: "'v \<Rightarrow> 'v \<Rightarrow> 'v"
  IsIn :: "'v \<Rightarrow> 'v \<Rightarrow> bool"
  StrictlyIsIn :: "'v \<Rightarrow> 'v \<Rightarrow> bool"
  Bottom :: "'v \<Rightarrow> 'v"
  MergeInPlace :: "'v \<Rightarrow> 'v \<Rightarrow> 'v"
  Equals :: "'v \<Rightarrow> 'v \<Rightarrow> bool"

locale join_order =
  fixes L :: "'v Lattice"
    and ok :: "'v \<Rightarrow> bool"
    and rep :: "'v \<Rightarrow> 'a::{semilattice_sup, order_bot}"
  assumes ok_Join: "ok a \<Longrightarrow> ok b \<Longrightarrow> ok (Join L a b)"
    and rep_Join: "ok a \<Longrightarrow> ok b \<Longrightarrow> rep (Join L a b) = sup (rep a) (rep b)"
    and IsIn_iff: "ok a \<Longrightarrow> ok b \<Longrightarrow> IsIn L a b \<longleftrightarrow> rep a \<le> rep b"
    and ok_Bottom: "ok a \<Longrightarrow> ok (Bottom L a)"
    and rep_Bottom: "ok a \<Longrightarrow> rep (Bottom L a) = bot"
    and ok_Merge: "ok a \<Longrightarrow> ok b \<Longrightarrow> ok (MergeInPlace L a b)"
    and rep_Merge: "ok a \<Longrightarrow> ok b \<Longrightarrow> rep (MergeInPlace L a b) = sup (rep a) (rep b)"
begin

lemmas order_laws = ok_Join rep_Join IsIn_iff ok_Bottom rep_Bottom ok_Merge rep_Merge

lemma IsIn_refl: "ok a \<Longrightarrow> IsIn L a a"
  by (simp add: order_laws)

lemma IsIn_trans: "ok a \<Longrightarrow> ok b \<Longrightarrow> ok c \<Longrightarrow> IsIn L a b \<Longrightarrow> IsIn L b c \<Longrightarrow> IsIn L a c"
  by (auto simp: order_laws)

lemma Join_upper: "ok a \<Longrightarrow> ok b \<Longrightarrow> IsIn L a (Join L a b) \<and> IsIn L b (Join L a b)"
  by (simp add: order_laws)

lemma Join_least:
  "ok a \<Longrightarrow> ok b \<Longrightarrow> ok c \<Longrightarrow> IsIn L a c \<Longrightarrow> IsIn L b c \<Longrightarrow> IsIn L (Join L a b) c"
  by (simp add: order_laws)

lemma Bottom_least: "ok a \<Longrightarrow> ok b \<Longrightarrow> IsIn L (Bottom L a) b"
  by (simp add: order_laws)

end

locale exact_lattice = join_order +
  assumes Equals_iff: "ok a \<Longrightarrow> ok b \<Longrightarrow> Equals L a b \<longleftrightarrow> rep a = rep b"
    and StrictlyIsIn_iff: "ok a \<Longrightarrow> ok b \<Longrightarrow> StrictlyIsIn L a b \<longleftrightarrow> rep a < rep b"
begin

lemmas exact_laws = order_laws Equals_iff StrictlyIsIn_iff

lemma Strict_is_IsIn_not_Equals:
  "ok a \<Longrightarrow> ok b \<Longrightarrow> StrictlyIsIn L a b \<longleftrightarrow> IsIn L a b \<and> \<not> Equals L a b"
  by (auto simp: exact_laws less_le)

lemma Join_comm: "ok a \<Longrightarrow> ok b \<Longrightarrow> Equals L (Join L a b) (Join L b a)"
  by (simp add: exact_laws sup_commute)

lemma Join_assoc:
  "ok a \<Longrightarrow> ok b \<Longrightarrow> ok c \<Longrightarrow>
   Equals L (Join L (Join L a b) c) (Join L a (Join L b c))"
  by (simp add: exact_laws sup_assoc)

lemma Join_idem: "ok a \<Longrightarrow> Equals L (Join L a a) a"
  by (simp add: exact_laws)

end

text \<open>
  A value that crosses the network comes out of the decoder as another object with the same
  content: \<open>wire\<close> keeps well-formedness and the abstraction.
\<close>

locale wire_lattice = exact_lattice +
  fixes wire :: "'a \<Rightarrow> 'a"
  assumes ok_wire: "ok a \<Longrightarrow> ok (wire a)"
    and rep_wire: "ok a \<Longrightarrow> rep (wire a) = rep a"
begin

lemmas wire_laws = exact_laws ok_wire rep_wire

end

end
