(* ===== verification/GCounter.thy ===== *)
theory GCounter
  imports Lattice
begin

text \<open>
  \<open>internal/crdt/gcounter.go\<close>: a grow-only counter, one \<open>uint64\<close> per node. Each
  \<open>range\<close> loop is a recursion over the map's entries with the early returns of the code; a
  missing entry reads as 0, as Go's map index does.
\<close>

type_synonym NodeId = string

record GCounter =
  Counts :: "(NodeId, uint64) gomap"

definition NewGCounter :: "NodeId list \<Rightarrow> GCounter" where
  "NewGCounter nodeIds = \<lparr>Counts = fold (\<lambda>nodeId counts. gm_set nodeId 0 counts) nodeIds []\<rparr>"

definition GCounter_Increment :: "GCounter \<Rightarrow> NodeId \<Rightarrow> uint64 \<Rightarrow> GCounter" where
  "GCounter_Increment g nodeId v =
     g\<lparr>Counts := gm_set nodeId (gm_get (Counts g) nodeId + v) (Counts g)\<rparr>"

fun value_loop :: "(NodeId, uint64) gomap \<Rightarrow> uint64 \<Rightarrow> uint64" where
  "value_loop [] tot = tot"
| "value_loop ((nodeId, cnt) # m) tot = value_loop m (tot + cnt)"

definition GCounter_Value :: "GCounter \<Rightarrow> uint64" where
  "GCounter_Value g = value_loop (Counts g) 0"

fun copy_loop :: "(NodeId, uint64) gomap \<Rightarrow> (NodeId, uint64) gomap \<Rightarrow> (NodeId, uint64) gomap" where
  "copy_loop [] result = result"
| "copy_loop ((nodeId, cnt) # m) result = copy_loop m (gm_set nodeId cnt result)"

fun max_loop :: "(NodeId, uint64) gomap \<Rightarrow> (NodeId, uint64) gomap \<Rightarrow> (NodeId, uint64) gomap" where
  "max_loop [] result = result"
| "max_loop ((nodeId, cnt) # m) result =
     max_loop m (if cnt > gm_get result nodeId then gm_set nodeId cnt result else result)"

definition GCounter_Join :: "GCounter \<Rightarrow> GCounter \<Rightarrow> GCounter" where
  "GCounter_Join g other =
     (let result = NewGCounter [];
          result = result\<lparr>Counts := copy_loop (Counts g) (Counts result)\<rparr>
      in result\<lparr>Counts := max_loop (Counts other) (Counts result)\<rparr>)"

definition GCounter_MergeInPlace :: "GCounter \<Rightarrow> GCounter \<Rightarrow> GCounter" where
  "GCounter_MergeInPlace g other = g\<lparr>Counts := max_loop (Counts other) (Counts g)\<rparr>"

fun isin_loop :: "(NodeId, uint64) gomap \<Rightarrow> (NodeId, uint64) gomap \<Rightarrow> bool" where
  "isin_loop [] oc = True"
| "isin_loop ((nodeId, cnt) # m) oc =
     (if cnt > gm_get oc nodeId then False else isin_loop m oc)"

definition GCounter_IsIn :: "GCounter \<Rightarrow> GCounter \<Rightarrow> bool" where
  "GCounter_IsIn g other = isin_loop (Counts g) (Counts other)"

fun strict_loop :: "(NodeId, uint64) gomap \<Rightarrow> (NodeId, uint64) gomap \<Rightarrow> bool \<Rightarrow> bool" where
  "strict_loop [] oc strictlyLess = strictlyLess"
| "strict_loop ((nodeId, cnt) # m) oc strictlyLess =
     (if cnt > gm_get oc nodeId then False
      else strict_loop m oc (if cnt < gm_get oc nodeId then True else strictlyLess))"

definition GCounter_StrictlyIsIn :: "GCounter \<Rightarrow> GCounter \<Rightarrow> bool" where
  "GCounter_StrictlyIsIn g other = strict_loop (Counts g) (Counts other) False"

fun equals_loop :: "(NodeId, uint64) gomap \<Rightarrow> (NodeId, uint64) gomap \<Rightarrow> bool" where
  "equals_loop [] oc = True"
| "equals_loop ((nodeId, cnt) # m) oc =
     (if cnt \<noteq> gm_get oc nodeId then False else equals_loop m oc)"

definition GCounter_Equals :: "GCounter \<Rightarrow> GCounter \<Rightarrow> bool" where
  "GCounter_Equals g other =
     (if length (Counts g) \<noteq> length (Counts other) then False
      else equals_loop (Counts g) (Counts other))"

definition GCounter_Copy :: "GCounter \<Rightarrow> GCounter" where
  "GCounter_Copy g = \<lparr>Counts = copy_loop (Counts g) []\<rparr>"

definition GCounter_Bottom :: "GCounter \<Rightarrow> GCounter" where
  "GCounter_Bottom g = NewGCounter (map fst (Counts g))"

definition GCounter_Lattice :: "GCounter Lattice" where
  "GCounter_Lattice =
     \<lparr>Join = GCounter_Join, IsIn = GCounter_IsIn, StrictlyIsIn = GCounter_StrictlyIsIn,
      Bottom = GCounter_Bottom, MergeInPlace = GCounter_MergeInPlace, Equals = GCounter_Equals\<rparr>"

section \<open>Abstraction and well-formedness\<close>

text \<open>
  A counter denotes a function from nodes to naturals, 0 outside its map. \<open>GCounter_ok N\<close> is the
  shape the engine keeps: an entry for exactly the nodes of the cluster.
\<close>

definition GCounter_rep :: "GCounter \<Rightarrow> NodeId \<Rightarrow> nat" where
  "GCounter_rep g = (\<lambda>n. unat (gm_get (Counts g) n))"

definition GCounter_ok :: "NodeId set \<Rightarrow> GCounter \<Rightarrow> bool" where
  "GCounter_ok N g \<longleftrightarrow> gm_ok (Counts g) \<and> gm_dom (Counts g) = N"

lemma GCounter_okD: "GCounter_ok N g \<Longrightarrow> gm_ok (Counts g)"
  by (simp add: GCounter_ok_def)

section \<open>The loops\<close>

lemma value_loop_sum: "value_loop m tot = tot + sum_list (map snd m)"
  by (induction m tot rule: value_loop.induct) (simp_all add: add.assoc)

lemma copy_loop_append:
  "gm_ok m \<Longrightarrow> gm_dom m \<inter> gm_dom r = {} \<Longrightarrow> copy_loop m r = r @ m"
proof (induction m r rule: copy_loop.induct)
  case (2 n c m r)
  then have "gm_set n c r = r @ [(n, c)]" by (intro gm_set_fresh) auto
  with 2 show ?case by (auto simp: gm_dom_def)
qed simp

lemma copy_loop_id [simp]: "gm_ok m \<Longrightarrow> copy_loop m [] = m"
  by (simp add: copy_loop_append)

lemma gm_ok_max_loop [gm_ok_intros]: "gm_ok r \<Longrightarrow> gm_ok (max_loop m r)"
  by (induction m r rule: max_loop.induct) (auto simp: gm_ok_set)

lemma gm_get_max_loop:
  "gm_ok m \<Longrightarrow> gm_get (max_loop m r) n = (if gm_get m n > gm_get r n then gm_get m n else gm_get r n)"
proof (induction m r rule: max_loop.induct)
  case (2 k c m r)
  then show ?case by (auto simp: gm_simps gm_get_Cons gm_get_notin)
qed simp

lemma gm_dom_max_loop:
  "gm_ok m \<Longrightarrow> gm_dom (max_loop m r) = gm_dom r \<union> {n \<in> gm_dom m. gm_get m n > gm_get r n}"
proof (induction m r rule: max_loop.induct)
  case (2 k c m r)
  then show ?case by (auto simp: gm_simps gm_get_Cons split: if_splits)
qed simp

lemma gm_get_le_dom:
  "(\<forall>n \<in> gm_dom m. gm_get m n \<le> f n) \<longleftrightarrow> (\<forall>n. gm_get m n \<le> f n)" for f :: "'k \<Rightarrow> uint64"
  by (metis gm_get_notin word_zero_le)

lemma isin_loop_iff: "gm_ok m \<Longrightarrow> isin_loop m oc \<longleftrightarrow> (\<forall>n \<in> gm_dom m. gm_get m n \<le> gm_get oc n)"
proof (induction m oc rule: isin_loop.induct)
  case (2 k c m oc)
  then show ?case by (auto simp: gm_get_Cons not_less)
qed simp

lemma strict_loop_iff:
  "gm_ok m \<Longrightarrow> strict_loop m oc b \<longleftrightarrow>
     (\<forall>n \<in> gm_dom m. gm_get m n \<le> gm_get oc n) \<and> (b \<or> (\<exists>n \<in> gm_dom m. gm_get m n < gm_get oc n))"
proof (induction m oc b rule: strict_loop.induct)
  case (2 k c m oc b)
  then show ?case by (auto simp: gm_get_Cons not_less)
qed simp

lemma equals_loop_iff:
  "gm_ok m \<Longrightarrow> equals_loop m oc \<longleftrightarrow> (\<forall>n \<in> gm_dom m. gm_get m n = gm_get oc n)"
proof (induction m oc rule: equals_loop.induct)
  case (2 k c m oc)
  then show ?case by (auto simp: gm_get_Cons)
qed simp

section \<open>The operations through the abstraction\<close>

lemma gm_dom_zeros: "gm_dom (fold (\<lambda>n m. gm_set n 0 m) ns m) = gm_dom m \<union> set ns"
  by (induction ns arbitrary: m) (auto simp: gm_simps)

lemma gm_ok_zeros: "gm_ok m \<Longrightarrow> gm_ok (fold (\<lambda>n m. gm_set n 0 m) ns m)"
  by (induction ns arbitrary: m) (auto intro: gm_ok_intros)

lemma gm_get_zeros:
  "gm_get (fold (\<lambda>n m. gm_set n 0 m) ns m) n = (if n \<in> set ns then 0 else gm_get m n)"
  by (induction ns arbitrary: m) (auto simp: gm_simps)

lemma NewGCounter_ok [simp]: "GCounter_ok (set ns) (NewGCounter ns)"
  by (simp add: GCounter_ok_def NewGCounter_def gm_dom_zeros gm_ok_zeros)

lemma NewGCounter_rep [simp]: "GCounter_rep (NewGCounter ns) = bot"
  by (simp add: GCounter_rep_def NewGCounter_def gm_get_zeros bot_fun_def bot_nat_def cong: if_cong)

lemma GCounter_Increment_ok:
  "gm_ok (Counts g) \<Longrightarrow> gm_ok (Counts (GCounter_Increment g n v))"
  "GCounter_ok N g \<Longrightarrow> n \<in> N \<Longrightarrow> GCounter_ok N (GCounter_Increment g n v)"
  by (auto simp: GCounter_Increment_def GCounter_ok_def gm_simps intro: gm_ok_intros)

lemma GCounter_Increment_rep:
  "GCounter_rep (GCounter_Increment g n v) =
     (GCounter_rep g)(n := (GCounter_rep g n + unat v) mod 2 ^ 64)"
  by (auto simp: GCounter_rep_def GCounter_Increment_def gm_simps unat_word_ariths)

lemma GCounter_Copy_id [simp]: "gm_ok (Counts g) \<Longrightarrow> GCounter_Copy g = g"
  by (simp add: GCounter_Copy_def)

lemma GCounter_Join_Merge: "gm_ok (Counts g) \<Longrightarrow> GCounter_Join g h = GCounter_MergeInPlace g h"
  by (simp add: GCounter_Join_def GCounter_MergeInPlace_def NewGCounter_def)

lemma GCounter_Merge_ok:
  "gm_ok (Counts g) \<Longrightarrow> gm_ok (Counts (GCounter_MergeInPlace g h))"
  "GCounter_ok N g \<Longrightarrow> GCounter_ok N h \<Longrightarrow> GCounter_ok N (GCounter_MergeInPlace g h)"
  by (auto simp: GCounter_MergeInPlace_def GCounter_ok_def gm_dom_max_loop intro: gm_ok_intros)

lemma GCounter_Merge_rep:
  "gm_ok (Counts h) \<Longrightarrow> GCounter_rep (GCounter_MergeInPlace g h) = sup (GCounter_rep g) (GCounter_rep h)"
  by (auto simp: GCounter_MergeInPlace_def GCounter_rep_def gm_get_max_loop fun_eq_iff sup_nat_def
      max_def word_less_nat_alt word_le_nat_alt)

lemma GCounter_rep_le_iff:
  "GCounter_rep g \<le> GCounter_rep h \<longleftrightarrow> (\<forall>n. gm_get (Counts g) n \<le> gm_get (Counts h) n)"
  by (simp add: GCounter_rep_def le_fun_def word_le_nat_alt)

lemma GCounter_rep_eq_iff:
  "GCounter_rep g = GCounter_rep h \<longleftrightarrow> (\<forall>n. gm_get (Counts g) n = gm_get (Counts h) n)"
  by (simp add: GCounter_rep_def fun_eq_iff word_unat_eq_iff)

lemma GCounter_IsIn_iff:
  "gm_ok (Counts g) \<Longrightarrow> GCounter_IsIn g h \<longleftrightarrow> GCounter_rep g \<le> GCounter_rep h"
  by (simp add: GCounter_IsIn_def isin_loop_iff gm_get_le_dom GCounter_rep_le_iff)

lemma GCounter_StrictlyIsIn_iff:
  assumes "GCounter_ok N g" "GCounter_ok N h"
  shows "GCounter_StrictlyIsIn g h \<longleftrightarrow> GCounter_rep g < GCounter_rep h"
proof -
  let ?g = "gm_get (Counts g)" and ?h = "gm_get (Counts h)"
  have g: "gm_ok (Counts g)" "gm_dom (Counts g) = N" and h: "gm_dom (Counts h) = N"
    using assms by (simp_all add: GCounter_ok_def)
  have "?g n < ?h n \<Longrightarrow> n \<in> N" for n
    using gm_get_notin [of n "Counts h"] h by (cases "n \<in> N") auto
  then have "(\<exists>n \<in> N. ?g n < ?h n) \<longleftrightarrow> (\<exists>n. ?g n < ?h n)"
    by blast
  moreover have "GCounter_StrictlyIsIn g h \<longleftrightarrow> (\<forall>n. ?g n \<le> ?h n) \<and> (\<exists>n \<in> N. ?g n < ?h n)"
    using gm_get_le_dom [of "Counts g" ?h]
    by (simp only: GCounter_StrictlyIsIn_def strict_loop_iff [OF g(1)] g(2) simp_thms)
  ultimately show ?thesis
    by (simp only: less_le_not_le [of "GCounter_rep g"] GCounter_rep_le_iff not_le not_all)
qed

lemma GCounter_Equals_iff:
  assumes "GCounter_ok N g" "GCounter_ok N h"
  shows "GCounter_Equals g h \<longleftrightarrow> GCounter_rep g = GCounter_rep h"
proof -
  have g: "gm_ok (Counts g)" "gm_dom (Counts g) = N"
    and h: "gm_ok (Counts h)" "gm_dom (Counts h) = N"
    using assms by (simp_all add: GCounter_ok_def)
  have "gm_get (Counts g) n = gm_get (Counts h) n" if "n \<notin> N" for n
    using that g h by (simp add: gm_get_notin)
  then show ?thesis
    using g h by (auto simp: GCounter_Equals_def gm_length equals_loop_iff GCounter_rep_eq_iff)
qed

lemma GCounter_Bottom_ok: "GCounter_ok N g \<Longrightarrow> GCounter_ok N (GCounter_Bottom g)"
  using NewGCounter_ok [of "map fst (Counts g)"]
  by (simp add: GCounter_Bottom_def GCounter_ok_def gm_dom_def)

lemma GCounter_Bottom_rep [simp]: "GCounter_rep (GCounter_Bottom g) = bot"
  by (simp add: GCounter_Bottom_def)

lemmas GCounter_facts =
  GCounter_Merge_ok GCounter_Merge_rep GCounter_IsIn_iff GCounter_Bottom_ok
  GCounter_StrictlyIsIn_iff GCounter_Equals_iff

interpretation gcounter: exact_lattice GCounter_Lattice "GCounter_ok N" GCounter_rep for N
  by unfold_locales
    (simp_all add: GCounter_Lattice_def GCounter_Join_Merge GCounter_okD GCounter_facts)

section \<open>The value of a counter\<close>

definition GCounter_total :: "GCounter \<Rightarrow> nat" where
  "GCounter_total g = (\<Sum>n \<in> gm_dom (Counts g). GCounter_rep g n)"

lemma unat_sum_list: "unat (sum_list ws) = sum_list (map unat ws) mod 2 ^ LENGTH('a)"
  for ws :: "'a::len word list"
  by (induction ws) (auto simp: unat_word_ariths mod_simps)

lemma sum_list_gm:
  "gm_ok m \<Longrightarrow> sum_list (map (\<lambda>p. unat (snd p)) m) = (\<Sum>n \<in> gm_dom m. unat (gm_get m n))"
  for m :: "(NodeId, uint64) gomap"
proof (induction m)
  case (Cons p m)
  obtain k c where p: "p = (k, c)" by force
  have "(\<Sum>n \<in> gm_dom m. unat (gm_get (p # m) n)) = (\<Sum>n \<in> gm_dom m. unat (gm_get m n))"
    using Cons.prems p by (intro sum.cong) (auto simp: gm_get_Cons)
  with Cons p show ?case by (simp add: gm_get_Cons)
qed simp

lemma GCounter_Value_total:
  assumes "gm_ok (Counts g)"
  shows "unat (GCounter_Value g) = GCounter_total g mod 2 ^ 64"
  using assms
  by (simp add: GCounter_Value_def value_loop_sum unat_sum_list GCounter_total_def GCounter_rep_def
      sum_list_gm comp_def del: sum_list.Nil)

lemma GCounter_rep_outside: "n \<notin> gm_dom (Counts g) \<Longrightarrow> GCounter_rep g n = 0"
  by (simp add: GCounter_rep_def gm_get_notin)

lemma GCounter_total_mono:
  assumes "GCounter_rep g \<le> GCounter_rep h"
  shows "GCounter_total g \<le> GCounter_total h"
proof -
  let ?A = "gm_dom (Counts g)" and ?B = "gm_dom (Counts h)"
  have "GCounter_total g \<le> (\<Sum>n \<in> ?A. GCounter_rep h n)"
    using assms by (auto simp: GCounter_total_def le_fun_def intro: sum_mono)
  also have "\<dots> = (\<Sum>n \<in> ?A \<inter> ?B. GCounter_rep h n)"
    by (rule sum.mono_neutral_right) (auto simp: GCounter_rep_outside)
  also have "\<dots> \<le> GCounter_total h"
    unfolding GCounter_total_def by (rule sum_mono2) auto
  finally show ?thesis .
qed

lemma GCounter_total_Increment:
  assumes "GCounter_rep g n + unat v < 2 ^ 64"
  shows "GCounter_total (GCounter_Increment g n v) = GCounter_total g + unat v"
proof -
  let ?A = "gm_dom (Counts g)"
  have d: "gm_dom (Counts (GCounter_Increment g n v)) = insert n ?A"
    by (simp add: GCounter_Increment_def gm_simps)
  have "(\<Sum>x \<in> insert n ?A. GCounter_rep g x) = GCounter_total g"
    unfolding GCounter_total_def
    by (rule sum.mono_neutral_right) (auto simp: GCounter_rep_outside)
  moreover have "(\<Sum>x \<in> insert n ?A. ((GCounter_rep g)(n := GCounter_rep g n + unat v)) x)
     = (\<Sum>x \<in> insert n ?A. GCounter_rep g x) + unat v"
    by (simp add: sum.insert_remove)
  ultimately show ?thesis
    using assms by (simp add: GCounter_total_def d GCounter_Increment_rep)
qed

text \<open>On machine words the value grows by the increment whatever overflows.\<close>

lemma GCounter_Value_Increment:
  "gm_ok (Counts g) \<Longrightarrow> GCounter_Value (GCounter_Increment g n v) = GCounter_Value g + v"
  by (simp add: GCounter_Value_def GCounter_Increment_def value_loop_sum sum_list_gm_set)

end
