(* ===== verification/CounterMap.thy ===== *)
theory CounterMap
  imports GCounter
begin

text \<open>
  \<open>internal/crdt/counter_map.go\<close>: named counters. The unexported field \<open>nodeIds\<close> is
  the node list a new counter starts from. Counters are held by pointer in Go; \<open>Join\<close>,
  \<open>MergeInPlace\<close> and \<open>Copy\<close> copy every counter they store, so no two maps share one
  and a counter is a value here.
\<close>

record CounterMap =
  Counters :: "(string, GCounter) gomap"
  nodeIds :: "NodeId list"

definition NewCounterMap :: "NodeId list \<Rightarrow> CounterMap" where
  "NewCounterMap ids = \<lparr>Counters = [], nodeIds = ids\<rparr>"

fun copy_counters :: "(string, GCounter) gomap \<Rightarrow> (string, GCounter) gomap \<Rightarrow> (string, GCounter) gomap" where
  "copy_counters [] result = result"
| "copy_counters ((key, counter) # m) result =
     copy_counters m (gm_set key (GCounter_Copy counter) result)"

fun merge_counters :: "(string, GCounter) gomap \<Rightarrow> (string, GCounter) gomap \<Rightarrow> (string, GCounter) gomap" where
  "merge_counters [] result = result"
| "merge_counters ((key, counter) # m) result =
     (case map_of result key of
        Some existing \<Rightarrow> merge_counters m (gm_set key (GCounter_MergeInPlace existing counter) result)
      | None \<Rightarrow> merge_counters m (gm_set key (GCounter_Copy counter) result))"

definition CounterMap_Join :: "CounterMap \<Rightarrow> CounterMap \<Rightarrow> CounterMap" where
  "CounterMap_Join cm other =
     (let result = \<lparr>Counters = [], nodeIds = nodeIds cm\<rparr>;
          result = result\<lparr>Counters := copy_counters (Counters cm) (Counters result)\<rparr>
      in result\<lparr>Counters := merge_counters (Counters other) (Counters result)\<rparr>)"

definition CounterMap_MergeInPlace :: "CounterMap \<Rightarrow> CounterMap \<Rightarrow> CounterMap" where
  "CounterMap_MergeInPlace cm other =
     cm\<lparr>Counters := merge_counters (Counters other) (Counters cm)\<rparr>"

fun isin_counters :: "(string, GCounter) gomap \<Rightarrow> (string, GCounter) gomap \<Rightarrow> bool" where
  "isin_counters [] om = True"
| "isin_counters ((key, counter) # m) om =
     (case map_of om key of
        None \<Rightarrow> False
      | Some otherCounter \<Rightarrow>
          if \<not> GCounter_IsIn counter otherCounter then False else isin_counters m om)"

definition CounterMap_IsIn :: "CounterMap \<Rightarrow> CounterMap \<Rightarrow> bool" where
  "CounterMap_IsIn cm other =
     (if length (Counters cm) > length (Counters other) then False
      else isin_counters (Counters cm) (Counters other))"

fun equals_counters :: "(string, GCounter) gomap \<Rightarrow> (string, GCounter) gomap \<Rightarrow> bool" where
  "equals_counters [] om = True"
| "equals_counters ((key, counter) # m) om =
     (case map_of om key of
        None \<Rightarrow> False
      | Some otherCounter \<Rightarrow>
          if \<not> GCounter_Equals counter otherCounter then False else equals_counters m om)"

definition CounterMap_Equals :: "CounterMap \<Rightarrow> CounterMap \<Rightarrow> bool" where
  "CounterMap_Equals cm other =
     (if length (Counters cm) \<noteq> length (Counters other) then False
      else equals_counters (Counters cm) (Counters other))"

definition CounterMap_StrictlyIsIn :: "CounterMap \<Rightarrow> CounterMap \<Rightarrow> bool" where
  "CounterMap_StrictlyIsIn cm other \<longleftrightarrow> CounterMap_IsIn cm other \<and> \<not> CounterMap_Equals cm other"

definition CounterMap_Bottom :: "CounterMap \<Rightarrow> CounterMap" where
  "CounterMap_Bottom cm = \<lparr>Counters = [], nodeIds = nodeIds cm\<rparr>"

definition CounterMap_IncrementKey :: "CounterMap \<Rightarrow> string \<Rightarrow> NodeId \<Rightarrow> uint64 \<Rightarrow> CounterMap" where
  "CounterMap_IncrementKey cm key nodeId v =
     (let cm1 = (case map_of (Counters cm) key of
                   None \<Rightarrow> cm\<lparr>Counters := gm_set key (NewGCounter (nodeIds cm)) (Counters cm)\<rparr>
                 | Some _ \<Rightarrow> cm)
      in case map_of (Counters cm1) key of
           None \<Rightarrow> cm1
         | Some counter \<Rightarrow>
             cm1\<lparr>Counters := gm_set key (GCounter_Increment counter nodeId v) (Counters cm1)\<rparr>)"

definition CounterMap_ValueForKey :: "CounterMap \<Rightarrow> string \<Rightarrow> uint64" where
  "CounterMap_ValueForKey cm key =
     (case map_of (Counters cm) key of Some counter \<Rightarrow> GCounter_Value counter | None \<Rightarrow> 0)"

definition CounterMap_Keys :: "CounterMap \<Rightarrow> string list" where
  "CounterMap_Keys cm = map fst (Counters cm)"

definition CounterMap_Copy :: "CounterMap \<Rightarrow> CounterMap" where
  "CounterMap_Copy cm = \<lparr>Counters = copy_counters (Counters cm) [], nodeIds = nodeIds cm\<rparr>"

text \<open>
  A value that crosses the network (\<open>encoding/gob\<close>) or the disk (\<open>encoding/json\<close>)
  keeps the exported field \<open>Counters\<close> and loses the unexported \<open>nodeIds\<close>.
\<close>

definition CounterMap_transfer :: "CounterMap \<Rightarrow> CounterMap" where
  "CounterMap_transfer cm = cm\<lparr>nodeIds := []\<rparr>"

definition CounterMap_Lattice :: "CounterMap Lattice" where
  "CounterMap_Lattice =
     \<lparr>Join = CounterMap_Join, IsIn = CounterMap_IsIn, StrictlyIsIn = CounterMap_StrictlyIsIn,
      Bottom = CounterMap_Bottom, MergeInPlace = CounterMap_MergeInPlace,
      Equals = CounterMap_Equals\<rparr>"

section \<open>Abstraction and well-formedness\<close>

text \<open>
  A counter map denotes a partial function from keys to counters: a key that is present with an
  all-zero counter is above an absent key, as \<open>IsIn\<close> has it. \<open>CounterMap_wf\<close> says the Go
  maps are maps; \<open>CounterMap_ok N\<close> adds that every counter has exactly the nodes \<open>N\<close>.
\<close>

definition CounterMap_rep :: "CounterMap \<Rightarrow> string \<Rightarrow> (NodeId \<Rightarrow> nat) option" where
  "CounterMap_rep cm = (\<lambda>k. map_option GCounter_rep (map_of (Counters cm) k))"

definition CounterMap_wf :: "CounterMap \<Rightarrow> bool" where
  "CounterMap_wf cm \<longleftrightarrow>
     gm_ok (Counters cm) \<and> (\<forall>g \<in> set (map snd (Counters cm)). gm_ok (Counts g))"

definition CounterMap_ok :: "NodeId set \<Rightarrow> CounterMap \<Rightarrow> bool" where
  "CounterMap_ok N cm \<longleftrightarrow>
     gm_ok (Counters cm) \<and> (\<forall>g \<in> set (map snd (Counters cm)). GCounter_ok N g)"

lemma CounterMap_wf_iff: "CounterMap_wf cm \<longleftrightarrow>
     gm_ok (Counters cm) \<and> (\<forall>k g. map_of (Counters cm) k = Some g \<longrightarrow> gm_ok (Counts g))"
  using gm_all_values_iff [of "Counters cm" "\<lambda>g. gm_ok (Counts g)"] by (auto simp only: CounterMap_wf_def)

lemma CounterMap_ok_iff: "CounterMap_ok N cm \<longleftrightarrow>
     gm_ok (Counters cm) \<and> (\<forall>k g. map_of (Counters cm) k = Some g \<longrightarrow> GCounter_ok N g)"
  using gm_all_values_iff [of "Counters cm" "GCounter_ok N"] by (auto simp only: CounterMap_ok_def)

lemma CounterMap_ok_wf: "CounterMap_ok N cm \<Longrightarrow> CounterMap_wf cm"
  by (simp add: CounterMap_ok_def CounterMap_wf_def GCounter_ok_def)

lemma CounterMap_wfD:
  "CounterMap_wf cm \<Longrightarrow> gm_ok (Counters cm)"
  "CounterMap_wf cm \<Longrightarrow> map_of (Counters cm) k = Some g \<Longrightarrow> gm_ok (Counts g)"
  "CounterMap_wf cm \<Longrightarrow> \<forall>g \<in> set (map snd (Counters cm)). gm_ok (Counts g)"
  by (simp_all add: CounterMap_wf_iff) (simp_all add: CounterMap_wf_def flip: CounterMap_wf_iff)

section \<open>The loops\<close>

lemma copy_counters_append:
  "gm_ok m \<Longrightarrow> \<forall>g \<in> set (map snd m). gm_ok (Counts g) \<Longrightarrow>
   gm_dom m \<inter> gm_dom r = {} \<Longrightarrow> copy_counters m r = r @ m"
proof (induction m r rule: copy_counters.induct)
  case (2 k g m r)
  have upd: "gm_set k g r = r @ [(k, g)]" using "2.prems"(3) by (intro gm_set_fresh) auto
  have "copy_counters m (gm_set k g r) = gm_set k g r @ m"
    using 2 by (simp add: gm_simps)
  with upd "2.prems"(2) show ?case by simp
qed simp

definition merge_entry :: "GCounter option \<Rightarrow> GCounter option \<Rightarrow> GCounter option" where
  "merge_entry e c = (case c of None \<Rightarrow> e | Some g \<Rightarrow>
     Some (case e of None \<Rightarrow> g | Some x \<Rightarrow> GCounter_MergeInPlace x g))"

lemma merge_entry_simps [simp]:
  "merge_entry e None = e" "merge_entry None (Some g) = Some g"
  "merge_entry (Some x) (Some g) = Some (GCounter_MergeInPlace x g)"
  by (simp_all add: merge_entry_def)

lemma merge_entry_Some [simp]: "Some (the (merge_entry e (Some g))) = merge_entry e (Some g)"
  by (simp add: merge_entry_def)

lemma merge_counters_Cons:
  "gm_ok (Counts g) \<Longrightarrow> merge_counters ((key, g) # m) r =
     merge_counters m (gm_set key (the (merge_entry (map_of r key) (Some g))) r)"
  by (simp split: option.splits)

lemma merge_counters_lookup:
  "gm_ok m \<Longrightarrow> \<forall>g \<in> set (map snd m). gm_ok (Counts g) \<Longrightarrow>
   map_of (merge_counters m r) k = merge_entry (map_of r k) (map_of m k)"
proof (induction m arbitrary: r)
  case (Cons p m)
  obtain key g where p: "p = (key, g)" by force
  have m: "map_of m key = None" using Cons.prems(1) p by (simp add: map_of_None_iff)
  have "map_of (merge_counters m (gm_set key (the (merge_entry (map_of r key) (Some g))) r)) k =
      merge_entry (if k = key then merge_entry (map_of r key) (Some g) else map_of r k) (map_of m k)"
    using Cons p by (simp add: gm_simps)
  then show ?case
    using Cons.prems p m by (simp del: merge_counters.simps add: merge_counters_Cons)
qed simp

lemma gm_ok_merge_counters [gm_ok_intros]: "gm_ok r \<Longrightarrow> gm_ok (merge_counters m r)"
  by (induction m r rule: merge_counters.induct) (auto split: option.splits simp: gm_ok_set)

lemma isin_counters_iff:
  "gm_ok m \<Longrightarrow> isin_counters m om \<longleftrightarrow>
     (\<forall>k g. map_of m k = Some g \<longrightarrow> (\<exists>h. map_of om k = Some h \<and> GCounter_IsIn g h))"
proof (induction m om rule: isin_counters.induct)
  case (2 key g m om)
  then have "map_of m key = None" by (simp add: map_of_None_iff)
  with 2 show ?case by (auto split: option.splits)
qed simp

lemma equals_counters_iff:
  "gm_ok m \<Longrightarrow> equals_counters m om \<longleftrightarrow>
     (\<forall>k g. map_of m k = Some g \<longrightarrow> (\<exists>h. map_of om k = Some h \<and> GCounter_Equals g h))"
proof (induction m om rule: equals_counters.induct)
  case (2 key g m om)
  then have "map_of m key = None" by (simp add: map_of_None_iff)
  with 2 show ?case by (auto split: option.splits)
qed simp

section \<open>The operations through the abstraction\<close>

lemma CounterMap_Copy_id [simp]: "CounterMap_wf cm \<Longrightarrow> CounterMap_Copy cm = cm"
  by (simp add: CounterMap_Copy_def copy_counters_append CounterMap_wfD)

lemma CounterMap_Join_Merge: "CounterMap_wf cm \<Longrightarrow> CounterMap_Join cm o' = CounterMap_MergeInPlace cm o'"
  by (simp add: CounterMap_Join_def CounterMap_MergeInPlace_def copy_counters_append CounterMap_wfD)

lemma CounterMap_Merge_lookup:
  "CounterMap_wf o' \<Longrightarrow> map_of (Counters (CounterMap_MergeInPlace cm o')) k =
     merge_entry (map_of (Counters cm) k) (map_of (Counters o') k)"
  by (simp add: CounterMap_MergeInPlace_def merge_counters_lookup CounterMap_wfD)

lemma CounterMap_Merge_nodeIds [simp]: "nodeIds (CounterMap_MergeInPlace cm o') = nodeIds cm"
  by (simp add: CounterMap_MergeInPlace_def)

lemma CounterMap_Merge_keys_ok:
  "gm_ok (Counters cm) \<Longrightarrow> gm_ok (Counters (CounterMap_MergeInPlace cm o'))"
  by (simp add: CounterMap_MergeInPlace_def gm_ok_merge_counters)

lemma CounterMap_Merge_wf:
  "CounterMap_wf cm \<Longrightarrow> CounterMap_wf o' \<Longrightarrow> CounterMap_wf (CounterMap_MergeInPlace cm o')"
  unfolding CounterMap_wf_iff [of "CounterMap_MergeInPlace cm o'"]
  by (auto simp: CounterMap_Merge_keys_ok CounterMap_wfD CounterMap_Merge_lookup GCounter_Merge_ok
      merge_entry_def split: option.splits)

lemma CounterMap_Merge_ok:
  "CounterMap_ok N cm \<Longrightarrow> CounterMap_ok N o' \<Longrightarrow> CounterMap_ok N (CounterMap_MergeInPlace cm o')"
  unfolding CounterMap_ok_iff [of N "CounterMap_MergeInPlace cm o'"]
  by (auto simp: CounterMap_Merge_keys_ok CounterMap_ok_wf CounterMap_wfD CounterMap_Merge_lookup
      CounterMap_ok_iff GCounter_Merge_ok merge_entry_def split: option.splits)

lemma CounterMap_Merge_rep:
  "CounterMap_wf o' \<Longrightarrow>
   CounterMap_rep (CounterMap_MergeInPlace cm o') = sup (CounterMap_rep cm) (CounterMap_rep o')"
  by (rule ext) (auto simp: CounterMap_rep_def CounterMap_Merge_lookup GCounter_Merge_rep
      CounterMap_wfD merge_entry_def split: option.splits)

lemma CounterMap_IsIn_iff:
  assumes "CounterMap_wf cm" "CounterMap_wf o'"
  shows "CounterMap_IsIn cm o' \<longleftrightarrow> CounterMap_rep cm \<le> CounterMap_rep o'"
proof -
  have "isin_counters (Counters cm) (Counters o') \<longleftrightarrow> CounterMap_rep cm \<le> CounterMap_rep o'"
  proof -
    have "(\<exists>h. map_of (Counters o') k = Some h \<and> GCounter_IsIn g h) \<longleftrightarrow>
          CounterMap_rep cm k \<le> CounterMap_rep o' k"
      if "map_of (Counters cm) k = Some g" for k g
      using that assms(1)
      by (cases "map_of (Counters o') k") (auto simp: CounterMap_rep_def GCounter_IsIn_iff CounterMap_wfD)
    moreover have "CounterMap_rep cm k \<le> CounterMap_rep o' k" if "map_of (Counters cm) k = None" for k
      using that by (simp add: CounterMap_rep_def)
    ultimately show ?thesis
      using assms(1) by (simp add: isin_counters_iff CounterMap_wfD le_fun_def) (metis option.exhaust)
  qed
  moreover have "length (Counters cm) \<le> length (Counters o')"
    if "isin_counters (Counters cm) (Counters o')"
  proof -
    have "gm_dom (Counters cm) \<subseteq> gm_dom (Counters o')"
      using that assms(1) by (force simp: isin_counters_iff CounterMap_wfD gm_dom_map_of)
    then show ?thesis
      using assms by (simp add: gm_length CounterMap_wfD card_mono)
  qed
  ultimately show ?thesis by (auto simp: CounterMap_IsIn_def)
qed

lemma CounterMap_Equals_iff:
  assumes "CounterMap_ok N cm" "CounterMap_ok N o'"
  shows "CounterMap_Equals cm o' \<longleftrightarrow> CounterMap_rep cm = CounterMap_rep o'"
proof -
  let ?c = "Counters cm" and ?o = "Counters o'"
  have wf: "gm_ok ?c" "gm_ok ?o"
    and gs: "\<And>k g. map_of ?c k = Some g \<Longrightarrow> GCounter_ok N g"
            "\<And>k g. map_of ?o k = Some g \<Longrightarrow> GCounter_ok N g"
    using assms by (auto simp: CounterMap_ok_iff)
  show ?thesis
  proof
    assume eq: "CounterMap_Equals cm o'"
    then have len: "length ?c = length ?o" and all: "equals_counters ?c ?o"
      by (auto simp: CounterMap_Equals_def split: if_splits)
    have sub: "gm_dom ?c \<subseteq> gm_dom ?o"
      using all wf by (force simp: equals_counters_iff gm_dom_map_of)
    then have dom: "gm_dom ?c = gm_dom ?o"
      using len wf by (simp add: gm_length card_subset_eq)
    have "CounterMap_rep cm k = CounterMap_rep o' k" for k
    proof (cases "map_of ?c k")
      case None
      then have "map_of ?o k = None" using dom by (simp add: map_of_None_iff)
      with None show ?thesis by (simp add: CounterMap_rep_def)
    next
      case (Some g)
      then obtain h where "map_of ?o k = Some h" "GCounter_Equals g h"
        using all wf by (auto simp: equals_counters_iff)
      with Some gs show ?thesis by (auto simp: CounterMap_rep_def GCounter_Equals_iff [of N])
    qed
    then show "CounterMap_rep cm = CounterMap_rep o'" by (rule ext)
  next
    assume rep: "CounterMap_rep cm = CounterMap_rep o'"
    have point: "map_option GCounter_rep (map_of ?c k) = map_option GCounter_rep (map_of ?o k)" for k
      using fun_cong [OF rep, of k] by (simp add: CounterMap_rep_def)
    have "gm_dom ?c = gm_dom ?o"
      unfolding gm_dom_map_of dom_def by (metis point option.map_disc_iff)
    then have "length ?c = length ?o" using wf by (simp add: gm_length)
    moreover have "\<exists>h. map_of ?o k = Some h \<and> GCounter_Equals g h" if "map_of ?c k = Some g" for k g
      using point [of k] that gs by (cases "map_of ?o k") (auto simp: GCounter_Equals_iff [of N])
    ultimately show "CounterMap_Equals cm o'"
      using wf by (simp add: CounterMap_Equals_def equals_counters_iff)
  qed
qed

lemma CounterMap_Bottom_facts [simp]:
  "CounterMap_wf (CounterMap_Bottom cm)" "CounterMap_ok N (CounterMap_Bottom cm)"
  "CounterMap_rep (CounterMap_Bottom cm) = bot"
  by (simp_all add: CounterMap_Bottom_def CounterMap_wf_def CounterMap_ok_def CounterMap_rep_def
      bot_fun_def bot_option_def)

lemma NewCounterMap_facts [simp]:
  "CounterMap_wf (NewCounterMap ids)" "CounterMap_ok N (NewCounterMap ids)"
  "CounterMap_rep (NewCounterMap ids) = bot" "nodeIds (NewCounterMap ids) = ids"
  by (simp_all add: NewCounterMap_def CounterMap_wf_def CounterMap_ok_def CounterMap_rep_def
      bot_fun_def bot_option_def)

lemma CounterMap_transfer_facts [simp]:
  "CounterMap_wf (CounterMap_transfer cm) = CounterMap_wf cm"
  "CounterMap_ok N (CounterMap_transfer cm) = CounterMap_ok N cm"
  "CounterMap_rep (CounterMap_transfer cm) = CounterMap_rep cm"
  by (simp_all add: CounterMap_transfer_def CounterMap_wf_def CounterMap_ok_def CounterMap_rep_def)

lemma CounterMap_StrictlyIsIn_iff:
  "CounterMap_ok N cm \<Longrightarrow> CounterMap_ok N o' \<Longrightarrow>
   CounterMap_StrictlyIsIn cm o' \<longleftrightarrow> CounterMap_rep cm < CounterMap_rep o'"
  by (auto simp: CounterMap_StrictlyIsIn_def CounterMap_IsIn_iff CounterMap_ok_wf
      CounterMap_Equals_iff [of N] less_le)

text \<open>The order laws need only that the Go maps are maps; equality needs equal node sets.\<close>

interpretation countermap_order: join_order CounterMap_Lattice CounterMap_wf CounterMap_rep
  by unfold_locales
    (simp_all add: CounterMap_Lattice_def CounterMap_Join_Merge CounterMap_Merge_wf
      CounterMap_Merge_rep CounterMap_IsIn_iff)

interpretation countermap: exact_lattice CounterMap_Lattice "CounterMap_ok N" CounterMap_rep for N
  by unfold_locales
    (simp_all add: CounterMap_Lattice_def CounterMap_ok_wf CounterMap_Join_Merge CounterMap_Merge_ok
      CounterMap_Merge_rep CounterMap_IsIn_iff CounterMap_Equals_iff CounterMap_StrictlyIsIn_iff)

interpretation countermap_wire:
  wire_lattice CounterMap_Lattice "CounterMap_ok N" CounterMap_rep CounterMap_transfer for N
  by unfold_locales simp_all

section \<open>Incrementing and reading a key\<close>

lemma CounterMap_IncrementKey_lookup:
  "map_of (Counters (CounterMap_IncrementKey cm key n v)) =
     (map_of (Counters cm))(key \<mapsto> GCounter_Increment
        (case map_of (Counters cm) key of None \<Rightarrow> NewGCounter (nodeIds cm) | Some g \<Rightarrow> g) n v)"
  by (auto simp: CounterMap_IncrementKey_def Let_def gm_simps split: option.splits)

lemma CounterMap_IncrementKey_nodeIds [simp]:
  "nodeIds (CounterMap_IncrementKey cm key n v) = nodeIds cm"
  by (auto simp: CounterMap_IncrementKey_def Let_def split: option.splits)

lemma CounterMap_IncrementKey_keys_ok:
  "gm_ok (Counters cm) \<Longrightarrow> gm_ok (Counters (CounterMap_IncrementKey cm key n v))"
  by (auto simp: CounterMap_IncrementKey_def Let_def gm_simps intro!: gm_ok_intros split: option.splits)

lemma CounterMap_IncrementKey_ok:
  "CounterMap_ok (set (nodeIds cm)) cm \<Longrightarrow> n \<in> set (nodeIds cm) \<Longrightarrow>
   CounterMap_ok (set (nodeIds cm)) (CounterMap_IncrementKey cm key n v)"
  unfolding CounterMap_ok_iff
  by (auto simp: CounterMap_IncrementKey_keys_ok CounterMap_IncrementKey_lookup
      intro!: GCounter_Increment_ok split: if_splits option.splits)

lemma CounterMap_IncrementKey_wf:
  "CounterMap_wf cm \<Longrightarrow> CounterMap_wf (CounterMap_IncrementKey cm key n v)"
  unfolding CounterMap_wf_iff
  by (auto simp: CounterMap_IncrementKey_keys_ok CounterMap_IncrementKey_lookup
      GCounter_okD [OF NewGCounter_ok]
      intro!: GCounter_Increment_ok split: if_splits option.splits)

definition CounterMap_count :: "CounterMap \<Rightarrow> string \<Rightarrow> NodeId \<Rightarrow> nat" where
  "CounterMap_count cm key n = (case CounterMap_rep cm key of None \<Rightarrow> 0 | Some c \<Rightarrow> c n)"

definition CounterMap_total :: "CounterMap \<Rightarrow> string \<Rightarrow> nat" where
  "CounterMap_total cm key =
     (case map_of (Counters cm) key of None \<Rightarrow> 0 | Some g \<Rightarrow> GCounter_total g)"

lemma CounterMap_IncrementKey_rep:
  "CounterMap_rep (CounterMap_IncrementKey cm key n v) =
     (CounterMap_rep cm)(key \<mapsto>
        (case CounterMap_rep cm key of None \<Rightarrow> bot | Some c \<Rightarrow> c)
          (n := (CounterMap_count cm key n + unat v) mod 2 ^ 64))"
  by (rule ext)
    (auto simp: CounterMap_rep_def CounterMap_count_def CounterMap_IncrementKey_lookup
      GCounter_Increment_rep bot_nat_def split: option.splits)

lemma CounterMap_IncrementKey_inflates:
  assumes "CounterMap_count cm key n + unat v < 2 ^ 64"
  shows "CounterMap_rep cm \<le> CounterMap_rep (CounterMap_IncrementKey cm key n v)"
  using assms
  by (auto simp: le_fun_def CounterMap_IncrementKey_rep CounterMap_count_def split: option.splits)

lemma CounterMap_ValueForKey_total:
  "CounterMap_wf cm \<Longrightarrow> unat (CounterMap_ValueForKey cm key) = CounterMap_total cm key mod 2 ^ 64"
  by (auto simp: CounterMap_ValueForKey_def CounterMap_total_def GCounter_Value_total CounterMap_wfD
      split: option.splits)

lemma CounterMap_total_mono:
  assumes "CounterMap_rep cm \<le> CounterMap_rep cm'"
  shows "CounterMap_total cm key \<le> CounterMap_total cm' key"
proof -
  have "CounterMap_rep cm key \<le> CounterMap_rep cm' key"
    using assms by (simp add: le_fun_def)
  then show ?thesis
    by (auto simp: CounterMap_total_def CounterMap_rep_def intro: GCounter_total_mono
        split: option.splits)
qed

lemma CounterMap_ValueForKey_rep:
  assumes "CounterMap_wf a" "CounterMap_wf b" "CounterMap_rep a = CounterMap_rep b"
  shows "CounterMap_ValueForKey a key = CounterMap_ValueForKey b key"
proof -
  have "CounterMap_total a key = CounterMap_total b key"
    using CounterMap_total_mono [of a b] CounterMap_total_mono [of b a] assms(3) by (simp add: antisym)
  then show ?thesis
    using CounterMap_ValueForKey_total assms(1,2) by (metis word_unat_eq_iff)
qed

lemma CounterMap_total_IncrementKey:
  assumes "CounterMap_count cm key n + unat v < 2 ^ 64"
  shows "CounterMap_total (CounterMap_IncrementKey cm key n v) k =
    CounterMap_total cm k + (if k = key then unat v else 0)"
proof -
  have "GCounter_total (NewGCounter ids) = 0" for ids
    by (simp add: GCounter_total_def bot_nat_def)
  with assms show ?thesis
    by (auto simp: CounterMap_total_def CounterMap_IncrementKey_lookup CounterMap_count_def
        CounterMap_rep_def GCounter_total_Increment bot_nat_def split: option.splits)
qed

lemma CounterMap_ValueForKey_IncrementKey:
  assumes "CounterMap_wf cm"
  shows "CounterMap_ValueForKey (CounterMap_IncrementKey cm key n v) k =
    CounterMap_ValueForKey cm k + (if k = key then v else 0)"
proof -
  have "GCounter_Value (NewGCounter ids) = 0" for ids
    using GCounter_Value_total [OF GCounter_okD [OF NewGCounter_ok], of ids]
    by (simp add: GCounter_total_def bot_nat_def unat_eq_zero)
  with assms show ?thesis
    by (auto simp: CounterMap_ValueForKey_def CounterMap_IncrementKey_lookup GCounter_Value_Increment
        CounterMap_wfD GCounter_okD [OF NewGCounter_ok] split: option.splits)
qed

section \<open>Merging in any order\<close>

lemma CounterMap_merge_all_facts:
  "CounterMap_wf cm \<Longrightarrow> \<forall>x \<in> set xs. CounterMap_wf x \<Longrightarrow>
   CounterMap_wf (fold (\<lambda>x c. CounterMap_MergeInPlace c x) xs cm) \<and>
   CounterMap_rep (fold (\<lambda>x c. CounterMap_MergeInPlace c x) xs cm) =
     fold sup (map CounterMap_rep xs) (CounterMap_rep cm)"
  by (induction xs arbitrary: cm) (auto simp: CounterMap_Merge_wf CounterMap_Merge_rep sup_commute)

lemma fold_sup_set: "set xs = set ys \<Longrightarrow> fold sup xs b = fold sup ys (b::'a::semilattice_sup)"
proof -
  have "fold sup xs b = Sup_fin (insert b (set xs))" for xs
    by (simp add: Sup_fin.set_eq_fold flip: list.set(2))
  then show "set xs = set ys \<Longrightarrow> ?thesis" by simp
qed

text \<open>
  The maps a process of a cluster with the nodes \<open>ids\<close> builds: from \<open>NewCounterMap\<close> by any of
  the operations, the arguments of merges also coming over the wire.
\<close>

inductive built :: "NodeId list \<Rightarrow> CounterMap \<Rightarrow> bool" for ids where
  built_new: "built ids (NewCounterMap ids)"
| built_increment: "built ids cm \<Longrightarrow> n \<in> set ids \<Longrightarrow> built ids (CounterMap_IncrementKey cm key n v)"
| built_join: "built ids cm \<Longrightarrow> built ids o' \<Longrightarrow> built ids (CounterMap_Join cm o')"
| built_received: "built ids cm \<Longrightarrow> built ids o' \<Longrightarrow> built ids (CounterMap_MergeInPlace cm (CounterMap_transfer o'))"
| built_copy: "built ids cm \<Longrightarrow> built ids (CounterMap_Copy cm)"
| built_bottom: "built ids cm \<Longrightarrow> built ids (CounterMap_Bottom cm)"

lemma built_typed: "built ids cm \<Longrightarrow> CounterMap_ok (set ids) cm \<and> nodeIds cm = ids"
proof (induction rule: built.induct)
  case (built_increment cm n key v)
  then show ?case using CounterMap_IncrementKey_ok [of cm n key v] by simp
next
  case (built_join cm o')
  then have "CounterMap_wf cm" using CounterMap_ok_wf by blast
  then show ?case using built_join by (simp add: CounterMap_Join_Merge CounterMap_Merge_ok)
next
  case (built_copy cm)
  then have "CounterMap_wf cm" using CounterMap_ok_wf by blast
  then show ?case using built_copy by simp
next
  case (built_bottom cm)
  then show ?case by (simp add: CounterMap_Bottom_def CounterMap_ok_def)
qed (simp_all add: CounterMap_Merge_ok)

section \<open>Properties\<close>

text \<open>
  C35: \<open>Join\<close> of two counter maps is their least upper bound in the order decided by
  \<open>IsIn\<close>, whatever node sets the counters have, and \<open>MergeInPlace\<close> leaves the receiver
  equal to that join.
\<close>

theorem countermap_join_least_upper_bound:
  assumes "CounterMap_wf a" "CounterMap_wf b"
  shows "CounterMap_IsIn a (CounterMap_Join a b) \<and> CounterMap_IsIn b (CounterMap_Join a b) \<and>
    (\<forall>c. CounterMap_wf c \<longrightarrow> CounterMap_IsIn a c \<longrightarrow> CounterMap_IsIn b c \<longrightarrow>
         CounterMap_IsIn (CounterMap_Join a b) c) \<and>
    CounterMap_MergeInPlace a b = CounterMap_Join a b"
  using countermap_order.Join_upper [OF assms] countermap_order.Join_least [OF assms] assms
  by (simp add: CounterMap_Lattice_def CounterMap_Join_Merge)

theorem countermap_join_least_upper_bound_witness:
  "let a = CounterMap_IncrementKey (NewCounterMap [''N1'']) ''k'' ''N1'' 3;
       b = CounterMap_IncrementKey (NewCounterMap [''N2'']) ''k'' ''N2'' 5
   in CounterMap_wf a \<and> CounterMap_wf b \<and> CounterMap_IsIn a (CounterMap_Join a b)"
proof -
  let ?a = "CounterMap_IncrementKey (NewCounterMap [''N1'']) ''k'' ''N1'' 3"
  let ?b = "CounterMap_IncrementKey (NewCounterMap [''N2'']) ''k'' ''N2'' 5"
  have wf: "CounterMap_wf ?a" "CounterMap_wf ?b"
    by (simp_all add: CounterMap_IncrementKey_wf)
  show ?thesis
    using countermap_join_least_upper_bound [OF wf] wf by (simp only: Let_def simp_thms)
qed

text \<open>
  When every counter has an entry for exactly the nodes of the cluster, \<open>Equals\<close>
  decides equality of the two maps as functions (equivalently \<open>IsIn\<close> both ways) and
  \<open>StrictlyIsIn\<close> decides the strict order.
\<close>

theorem countermap_equality_exact:
  assumes "CounterMap_ok N a" "CounterMap_ok N b"
  shows "(CounterMap_Equals a b \<longleftrightarrow> CounterMap_IsIn a b \<and> CounterMap_IsIn b a) \<and>
    (CounterMap_StrictlyIsIn a b \<longleftrightarrow> CounterMap_IsIn a b \<and> \<not> CounterMap_IsIn b a)"
  using assms
  by (auto simp: CounterMap_Equals_iff [of N] CounterMap_StrictlyIsIn_iff [of N] CounterMap_IsIn_iff
      CounterMap_ok_wf less_le_not_le)

theorem countermap_equality_exact_witness:
  "let a = CounterMap_IncrementKey (NewCounterMap [''N1'', ''N2'']) ''k'' ''N1'' 3;
       b = CounterMap_IncrementKey a ''k'' ''N2'' 5
   in CounterMap_ok {''N1'', ''N2''} a \<and> CounterMap_ok {''N1'', ''N2''} b \<and>
      CounterMap_StrictlyIsIn a b \<and> \<not> CounterMap_Equals a b"
proof -
  let ?a = "CounterMap_IncrementKey (NewCounterMap [''N1'', ''N2'']) ''k'' ''N1'' 3"
  let ?b = "CounterMap_IncrementKey ?a ''k'' ''N2'' 5"
  have ok: "CounterMap_ok {''N1'', ''N2''} ?a" "CounterMap_ok {''N1'', ''N2''} ?b"
    by code_simp+
  have "CounterMap_IsIn ?a ?b" "\<not> CounterMap_IsIn ?b ?a"
    by code_simp+
  then show ?thesis
    using countermap_equality_exact [OF ok] ok by (simp only: Let_def simp_thms)
qed

text \<open>
  C37: replicas converge: merging two lists of states with the same members into a replica,
  in any order and with any repetitions, gives equal maps.
\<close>

theorem countermap_merge_order_irrelevant:
  assumes "CounterMap_wf cm" "\<forall>x \<in> set xs. CounterMap_wf x" "set xs = set ys"
  shows "CounterMap_rep (fold (\<lambda>x c. CounterMap_MergeInPlace c x) xs cm) =
         CounterMap_rep (fold (\<lambda>x c. CounterMap_MergeInPlace c x) ys cm)"
  using assms CounterMap_merge_all_facts [of cm xs] CounterMap_merge_all_facts [of cm ys]
    fold_sup_set [of "map CounterMap_rep xs" "map CounterMap_rep ys"]
  by simp

theorem countermap_merge_order_irrelevant_witness:
  "let a = CounterMap_IncrementKey (NewCounterMap [''N1'', ''N2'']) ''k'' ''N1'' 3;
       b = CounterMap_IncrementKey (NewCounterMap [''N1'', ''N2'']) ''j'' ''N2'' 5;
       m = (\<lambda>x c. CounterMap_MergeInPlace c x)
   in CounterMap_rep (fold m [a, b] (NewCounterMap [])) = CounterMap_rep (fold m [b, a, b] (NewCounterMap []))"
proof -
  let ?a = "CounterMap_IncrementKey (NewCounterMap [''N1'', ''N2'']) ''k'' ''N1'' 3"
  let ?b = "CounterMap_IncrementKey (NewCounterMap [''N1'', ''N2'']) ''j'' ''N2'' 5"
  have wf: "CounterMap_wf ?a" "CounterMap_wf ?b"
    by (simp_all add: CounterMap_IncrementKey_wf)
  show ?thesis
    unfolding Let_def
    by (rule countermap_merge_order_irrelevant)
      (use wf in \<open>auto simp only: NewCounterMap_facts list.set insert_iff empty_iff\<close>)
qed

text \<open>
  C38: \<open>IncrementKey\<close> on a state whose own count does not overflow raises the value read for
  that key by exactly the increment (modulo the 64-bit sum of all nodes), leaves the value of every
  other key alone, and never moves the state down in the order.
\<close>

theorem countermap_increment_exact:
  assumes "CounterMap_wf cm" "CounterMap_count cm key n + unat v < 2 ^ 64"
  shows "CounterMap_ValueForKey (CounterMap_IncrementKey cm key n v) k =
      CounterMap_ValueForKey cm k + (if k = key then v else 0) \<and>
    CounterMap_IsIn cm (CounterMap_IncrementKey cm key n v)"
proof -
  let ?cm = "CounterMap_IncrementKey cm key n v"
  have wf: "CounterMap_wf ?cm" by (simp add: CounterMap_IncrementKey_wf assms)
  have "unat (CounterMap_ValueForKey ?cm k) =
      unat (CounterMap_ValueForKey cm k + (if k = key then v else 0))"
    using assms wf
    by (simp add: CounterMap_ValueForKey_total CounterMap_total_IncrementKey unat_word_ariths mod_simps)
  then show ?thesis
    using assms wf by (simp add: word_unat_eq_iff CounterMap_IsIn_iff CounterMap_IncrementKey_inflates)
qed

theorem countermap_increment_exact_witness:
  "CounterMap_ValueForKey (CounterMap_IncrementKey (NewCounterMap [''N1'', ''N2'']) ''k'' ''N1'' 3) ''k''
     = CounterMap_ValueForKey (NewCounterMap [''N1'', ''N2'']) ''k'' + 3"
proof -
  have "CounterMap_count (NewCounterMap [''N1'', ''N2'']) ''k'' ''N1'' + unat (3 :: uint64) < 2 ^ 64"
    by (simp add: CounterMap_count_def bot_fun_def bot_option_def)
  from countermap_increment_exact [OF NewCounterMap_facts(1) this, of "''k''"]
  show ?thesis by simp
qed

text \<open>
  Without the overflow bound the increment can go down: adding \<open>2^64 - 1\<close> to a count of 1
  leaves 0, and the state before is not in the state after.
\<close>

theorem countermap_increment_wraps:
  "let cm = CounterMap_IncrementKey (NewCounterMap [''N1'']) ''k'' ''N1'' 1;
       cm' = CounterMap_IncrementKey cm ''k'' ''N1'' (- 1)
   in CounterMap_ValueForKey cm ''k'' = 1 \<and> CounterMap_ValueForKey cm' ''k'' = 0 \<and>
      \<not> CounterMap_IsIn cm cm' \<and> CounterMap_IsIn cm' cm"
  by code_simp

text \<open>
  When counters have different node sets, \<open>Equals\<close> and \<open>StrictlyIsIn\<close> are not an
  equality and a strict order: two maps with the same counts are each strictly in the other, and
  \<open>Equals\<close> holds one way between maps with different counts.
\<close>

theorem countermap_equality_breaks_on_mixed_nodes:
  "let a = \<lparr>Counters = [(''k'', \<lparr>Counts = [(''N1'', 3)]\<rparr>)], nodeIds = []\<rparr>;
       b = \<lparr>Counters = [(''k'', \<lparr>Counts = [(''N1'', 3), (''N2'', 0)]\<rparr>)], nodeIds = [''N1'', ''N2'']\<rparr>;
       c = \<lparr>Counters = [(''k'', \<lparr>Counts = [(''N1'', 0)]\<rparr>)], nodeIds = []\<rparr>;
       d = \<lparr>Counters = [(''k'', \<lparr>Counts = [(''N2'', 5)]\<rparr>)], nodeIds = []\<rparr>
   in CounterMap_StrictlyIsIn a b \<and> CounterMap_StrictlyIsIn b a \<and>
      CounterMap_Equals c d \<and> \<not> CounterMap_Equals d c \<and>
      CounterMap_ValueForKey c ''k'' = 0 \<and> CounterMap_ValueForKey d ''k'' = 5 \<and>
      CounterMap_IncrementKey (NewCounterMap []) ''k'' ''N1'' 0 = c"
  by code_simp

text \<open>
  C36: the type of the maps is kept. Whatever a process builds from \<open>NewCounterMap\<close> with
  increments of its cluster's nodes, joins, merges of what it received, copies and bottoms, the map
  has each key once, every counter in it has exactly one entry for each node of the cluster and
  none for another, and new counters will have the same; so \<open>Equals\<close> between two such maps is
  \<open>IsIn\<close> both ways and \<open>StrictlyIsIn\<close> the strict order.
\<close>

theorem countermap_type_preserved:
  assumes "built ids cm" "built ids cm'"
  shows "CounterMap_ok (set ids) cm \<and> nodeIds cm = ids \<and>
    (CounterMap_Equals cm cm' \<longleftrightarrow> CounterMap_IsIn cm cm' \<and> CounterMap_IsIn cm' cm) \<and>
    (CounterMap_StrictlyIsIn cm cm' \<longleftrightarrow> CounterMap_IsIn cm cm' \<and> \<not> CounterMap_IsIn cm' cm)"
  using built_typed [OF assms(1)] built_typed [OF assms(2)] countermap_equality_exact by blast

theorem countermap_type_preserved_witness:
  "CounterMap_ok {''N1'', ''N2''}
     (CounterMap_MergeInPlace (NewCounterMap [''N1'', ''N2''])
       (CounterMap_transfer (CounterMap_IncrementKey (NewCounterMap [''N1'', ''N2'']) ''k'' ''N1'' 3)))"
proof -
  have "built [''N1'', ''N2''] (CounterMap_MergeInPlace (NewCounterMap [''N1'', ''N2''])
      (CounterMap_transfer (CounterMap_IncrementKey (NewCounterMap [''N1'', ''N2'']) ''k'' ''N1'' 3)))"
    by (intro built_received built_increment built_new) simp
  from countermap_type_preserved [OF this this] show ?thesis by simp
qed

end
