(* ===== verification/Engine.thy ===== *)
theory Engine
  imports CounterMap
begin

text \<open>
  \<open>internal/engine/engine.go\<close>: the batching layer between the clients and the protocol. Each
  section of code under the mutex \<open>mu\<close> is one function on the engine's state; what a section
  hands to the proposer or to the storage after it unlocks is part of its result.

  The counter maps the engine points to are mutated in place and shared: a pending operation stores
  the pointer \<open>s.localCounters\<close>, not a copy. So \<open>objects\<close> is a store of counter maps,
  \<open>localCounters\<close> and \<open>proposedValue\<close> are indices into it. \<open>doneChans\<close> is the
  store of the operations' buffered(1) channels: \<open>None\<close> is an empty buffer. A counter map in a
  channel is a fresh copy that nobody else points to until the receiver takes it, so the channel
  holds the map itself.
\<close>

type_synonym reference = nat
type_synonym channel = nat

record pendingOp =
  proposedRef :: reference
  doneChan :: channel

record Engine =
  engineId :: NodeId
  objects :: "CounterMap list"
  localCounters :: reference
  opID :: uint64
  pending :: "(uint64, pendingOp) gomap"
  unflushedOps :: int
  flushTrigger :: bool
  stopChClosed :: bool
  doneChans :: "CounterMap option list"
  MaxBatchSize :: int

definition live :: "Engine \<Rightarrow> CounterMap" where
  "live s = objects s ! localCounters s"

definition set_live :: "CounterMap \<Rightarrow> Engine \<Rightarrow> Engine" where
  "set_live cm s = s\<lparr>objects := (objects s)[localCounters s := cm]\<rparr>"

definition NewEngine ::
    "NodeId \<Rightarrow> (NodeId, string) gomap \<Rightarrow> int \<Rightarrow> (NodeId list \<Rightarrow> 'e + CounterMap) \<Rightarrow> Engine" where
  "NewEngine nodeId ps maxBatch load =
     (let ids = map fst ps;
          state = (case load ids of Inl err \<Rightarrow> NewCounterMap ids | Inr st \<Rightarrow> st)
      in \<lparr>engineId = nodeId, objects = [state], localCounters = 0, opID = 0, pending = [],
          unflushedOps = 0, flushTrigger = False, stopChClosed = False, doneChans = [],
          MaxBatchSize = maxBatch\<rparr>)"

definition registerPendingLocked :: "Engine \<Rightarrow> reference \<Rightarrow> Engine \<times> uint64 \<times> channel" where
  "registerPendingLocked s proposed =
     (let done = length (doneChans s);
          s = s\<lparr>doneChans := doneChans s @ [None]\<rparr>;
          op = opID s;
          s = s\<lparr>pending := gm_set op \<lparr>proposedRef = proposed, doneChan = done\<rparr> (pending s)\<rparr>;
          s = s\<lparr>opID := opID s + 1\<rparr>
      in (s, op, done))"

definition unregisterPending :: "Engine \<Rightarrow> uint64 \<Rightarrow> Engine" where
  "unregisterPending s op = s\<lparr>pending := gm_delete op (pending s)\<rparr>"

definition addOpToBatchLocked :: "Engine \<Rightarrow> Engine" where
  "addOpToBatchLocked s =
     (let s = s\<lparr>unflushedOps := unflushedOps s + 1\<rparr>
      in if unflushedOps s \<ge> MaxBatchSize s then s\<lparr>flushTrigger := True\<rparr> else s)"

text \<open>The locked part of \<open>IncrementKey\<close> and \<open>ValueForKey\<close>, and what follows the wait.\<close>

definition IncrementKey_begin :: "Engine \<Rightarrow> string \<Rightarrow> uint64 \<Rightarrow> Engine \<times> uint64 \<times> channel" where
  "IncrementKey_begin s key v =
     (let s = set_live (CounterMap_IncrementKey (live s) key (engineId s) v) s;
          (s, op, done) = registerPendingLocked s (localCounters s)
      in (addOpToBatchLocked s, op, done))"

definition ValueForKey_begin :: "Engine \<Rightarrow> Engine \<times> uint64 \<times> channel" where
  "ValueForKey_begin s =
     (let (s, op, done) = registerPendingLocked s (localCounters s)
      in (addOpToBatchLocked s, op, done))"

text \<open>
  The select of \<open>waitForLearn\<close>: with \<open>timeout\<close> the timer case is taken; otherwise the
  receive, which is not ready (\<open>None\<close>) while the channel is empty.
\<close>

definition waitForLearn :: "bool \<Rightarrow> Engine \<Rightarrow> channel \<Rightarrow> (Engine \<times> CounterMap option) option" where
  "waitForLearn timeout s done =
     (if timeout then Some (s, None)
      else case doneChans s ! done of
        None \<Rightarrow> None
      | Some v \<Rightarrow> Some (s\<lparr>doneChans := (doneChans s)[done := None]\<rparr>, Some v))"

definition op_result :: "string \<Rightarrow> CounterMap option \<Rightarrow> uint64 \<times> bool" where
  "op_result key learned =
     (case learned of None \<Rightarrow> (0, False) | Some cm \<Rightarrow> (CounterMap_ValueForKey cm key, True))"

definition ValueForKeyLocal :: "Engine \<Rightarrow> string \<Rightarrow> uint64" where
  "ValueForKeyLocal s key = CounterMap_ValueForKey (live s) key"

definition flush :: "Engine \<Rightarrow> Engine \<times> CounterMap option" where
  "flush s =
     (if unflushedOps s = 0 then (s, None)
      else (s\<lparr>unflushedOps := 0\<rparr>, Some (CounterMap_Copy (live s))))"

text \<open>
  One turn of the flusher goroutine: a case of its select that is ready, or \<open>None\<close> when the
  chosen one is not. The last component says whether the goroutine goes on.
\<close>

datatype flusher_case = StopCase | TickerCase | TriggerCase

fun flusher :: "Engine \<Rightarrow> flusher_case \<Rightarrow> (Engine \<times> CounterMap option \<times> bool) option" where
  "flusher s StopCase = (if stopChClosed s then Some (s, None, False) else None)"
| "flusher s TickerCase = (case flush s of (s, p) \<Rightarrow> Some (s, p, True))"
| "flusher s TriggerCase =
     (if flushTrigger s then (case flush (s\<lparr>flushTrigger := False\<rparr>) of (s, p) \<Rightarrow> Some (s, p, True))
      else None)"

fun snapshotLoop :: "Engine \<Rightarrow> flusher_case \<Rightarrow> (CounterMap \<times> bool) option" where
  "snapshotLoop s StopCase = (if stopChClosed s then Some (CounterMap_Copy (live s), False) else None)"
| "snapshotLoop s TickerCase = Some (CounterMap_Copy (live s), True)"
| "snapshotLoop s TriggerCase = None"

definition sync_begin :: "Engine \<Rightarrow> Engine \<times> channel \<times> CounterMap" where
  "sync_begin s =
     (let done = length (doneChans s);
          s = s\<lparr>doneChans := doneChans s @ [None]\<rparr>;
          proposed = length (objects s);
          s = s\<lparr>objects := objects s @ [CounterMap_Copy (live s)]\<rparr>;
          s = s\<lparr>pending := gm_set (opID s) \<lparr>proposedRef = proposed, doneChan = done\<rparr> (pending s)\<rparr>;
          s = s\<lparr>opID := opID s + 1\<rparr>
      in (s, done, objects s ! proposed))"

definition sync_end :: "Engine \<Rightarrow> CounterMap option \<Rightarrow> Engine \<times> bool" where
  "sync_end s learned =
     (case learned of
        None \<Rightarrow> (s, False)
      | Some v \<Rightarrow> (s\<lparr>objects := objects s @ [v], localCounters := length (objects s)\<rparr>, True))"

fun signal_loop :: "CounterMap \<Rightarrow> (uint64, pendingOp) gomap \<Rightarrow> Engine \<Rightarrow> Engine" where
  "signal_loop learned [] s = s"
| "signal_loop learned ((op, p) # m) s =
     signal_loop learned m
       (if CounterMap_IsIn (objects s ! proposedRef p) learned then
          (case doneChans s ! doneChan p of
             None \<Rightarrow> s\<lparr>doneChans := (doneChans s)[doneChan p := Some (CounterMap_Copy (live s))],
                       pending := gm_delete op (pending s)\<rparr>
           | Some _ \<Rightarrow> s)
        else s)"

definition onLearn :: "Engine \<Rightarrow> CounterMap \<Rightarrow> Engine" where
  "onLearn s learned =
     (let s = set_live (CounterMap_MergeInPlace (live s) learned) s
      in signal_loop learned (pending s) s)"

definition Engine_Stop :: "Engine \<Rightarrow> go_panic + Engine" where
  "Engine_Stop s = (if stopChClosed s then Inl CloseOfClosedChannel else Inr (s\<lparr>stopChClosed := True\<rparr>))"

section \<open>Well-formed engine states\<close>

text \<open>
  The pointers are valid, every map the engine holds satisfies \<open>V\<close>, operation numbers in
  \<open>pending\<close> are below the next one, and every pending operation has its own channel, with an
  empty buffer.
\<close>

definition pending_ok :: "Engine \<Rightarrow> uint64 \<times> pendingOp \<Rightarrow> bool" where
  "pending_ok s x \<longleftrightarrow>
     unat (fst x) < unat (opID s) \<and> proposedRef (snd x) < length (objects s) \<and>
     doneChan (snd x) < length (doneChans s) \<and> doneChans s ! doneChan (snd x) = None"

definition engine_ok :: "(CounterMap \<Rightarrow> bool) \<Rightarrow> Engine \<Rightarrow> bool" where
  "engine_ok V s \<longleftrightarrow>
     localCounters s < length (objects s) \<and> (\<forall>cm \<in> set (objects s). V cm) \<and>
     (\<forall>c \<in> set (doneChans s). case c of None \<Rightarrow> True | Some v \<Rightarrow> V v) \<and>
     gm_ok (pending s) \<and> distinct (map (\<lambda>x. doneChan (snd x)) (pending s)) \<and>
     (\<forall>x \<in> set (pending s). pending_ok s x)"

lemma set_live_simps [simp]:
  "localCounters (set_live cm s) = localCounters s" "opID (set_live cm s) = opID s"
  "pending (set_live cm s) = pending s" "unflushedOps (set_live cm s) = unflushedOps s"
  "flushTrigger (set_live cm s) = flushTrigger s" "doneChans (set_live cm s) = doneChans s"
  "MaxBatchSize (set_live cm s) = MaxBatchSize s" "engineId (set_live cm s) = engineId s"
  "stopChClosed (set_live cm s) = stopChClosed s"
  "objects (set_live cm s) = (objects s)[localCounters s := cm]"
  by (simp_all add: set_live_def)

lemma live_set_live [simp]: "localCounters s < length (objects s) \<Longrightarrow> live (set_live cm s) = cm"
  by (simp add: live_def)

lemma engine_okD:
  assumes "engine_ok V s"
  shows "localCounters s < length (objects s)" "V (live s)" "gm_ok (pending s)"
    "r < length (objects s) \<Longrightarrow> V (objects s ! r)"
    "x \<in> set (pending s) \<Longrightarrow> pending_ok s x"
    "d < length (doneChans s) \<Longrightarrow> doneChans s ! d = Some v \<Longrightarrow> V v"
    "distinct (map (\<lambda>x. doneChan (snd x)) (pending s))"
proof -
  show "d < length (doneChans s) \<Longrightarrow> doneChans s ! d = Some v \<Longrightarrow> V v"
    using assms nth_mem [of d "doneChans s"] by (fastforce simp: engine_ok_def)
qed (use assms in \<open>auto simp: engine_ok_def live_def\<close>)

lemma engine_ok_set_live:
  assumes "engine_ok V s" "V cm"
  shows "engine_ok V (set_live cm s)"
  using assms
  by (auto simp: engine_ok_def pending_ok_def dest: set_update_subset_insert [THEN subsetD])

lemma engine_ok_frame [simp]:
  "engine_ok V (s\<lparr>unflushedOps := k\<rparr>) = engine_ok V s"
  "engine_ok V (s\<lparr>flushTrigger := b\<rparr>) = engine_ok V s"
  "engine_ok V (s\<lparr>stopChClosed := b\<rparr>) = engine_ok V s"
  "live (s\<lparr>unflushedOps := k\<rparr>) = live s" "live (s\<lparr>flushTrigger := b\<rparr>) = live s"
  by (simp_all add: engine_ok_def pending_ok_def live_def)

section \<open>The learn callback\<close>

definition signalled :: "CounterMap \<Rightarrow> Engine \<Rightarrow> uint64 \<times> pendingOp \<Rightarrow> bool" where
  "signalled learned s x \<longleftrightarrow> CounterMap_IsIn (objects s ! proposedRef (snd x)) learned"

text \<open>The engine after the loop over the pending operations \<open>m\<close>.\<close>

definition signal_result :: "CounterMap \<Rightarrow> (uint64, pendingOp) gomap \<Rightarrow> Engine \<Rightarrow> Engine" where
  "signal_result learned m s =
    s\<lparr>doneChans := map (\<lambda>d. if \<exists>x \<in> set m. doneChan (snd x) = d \<and> signalled learned s x
                         then Some (CounterMap_Copy (live s)) else doneChans s ! d)
                       [0..<length (doneChans s)],
      pending := filter (\<lambda>y. \<not> (\<exists>x \<in> set m. fst x = fst y \<and> signalled learned s x)) (pending s)\<rparr>"

definition signal_one :: "uint64 \<Rightarrow> pendingOp \<Rightarrow> Engine \<Rightarrow> Engine" where
  "signal_one op p s = s\<lparr>doneChans := (doneChans s)[doneChan p := Some (CounterMap_Copy (live s))],
     pending := gm_delete op (pending s)\<rparr>"

lemma signal_one_simps [simp]:
  "signalled learned (signal_one op p s) = signalled learned s" "live (signal_one op p s) = live s"
  "length (doneChans (signal_one op p s)) = length (doneChans s)"
  by (simp_all add: signal_one_def signalled_def live_def fun_eq_iff)

lemma signal_result_hit:
  assumes "signalled learned s (op, p)"
  shows "signal_result learned m (signal_one op p s) = signal_result learned ((op, p) # m) s"
proof -
  have "doneChans (signal_one op p s) ! d = (if d = doneChan p then Some (CounterMap_Copy (live s)) else doneChans s ! d)"
    if "d < length (doneChans s)" for d
    using that by (simp add: signal_one_def nth_list_update)
  then have "map (\<lambda>d. if \<exists>x \<in> set m. doneChan (snd x) = d \<and> signalled learned s x
        then Some (CounterMap_Copy (live s)) else doneChans (signal_one op p s) ! d) [0..<length (doneChans s)] =
      map (\<lambda>d. if \<exists>x \<in> set ((op, p) # m). doneChan (snd x) = d \<and> signalled learned s x
        then Some (CounterMap_Copy (live s)) else doneChans s ! d) [0..<length (doneChans s)]"
    using assms by (intro map_cong) auto
  moreover have "filter (\<lambda>y. \<not> (\<exists>x \<in> set m. fst x = fst y \<and> signalled learned s x)) (pending (signal_one op p s)) =
      filter (\<lambda>y. \<not> (\<exists>x \<in> set ((op, p) # m). fst x = fst y \<and> signalled learned s x)) (pending s)"
    using assms by (auto simp: signal_one_def gm_delete_def intro!: filter_cong)
  ultimately show ?thesis unfolding signal_result_def signal_one_simps by (simp only:) (simp add: signal_one_def)
qed

lemma signal_loop_result:
  assumes "gm_ok m" "distinct (map (\<lambda>x. doneChan (snd x)) m)"
    "\<forall>x \<in> set m. doneChan (snd x) < length (doneChans s) \<and> doneChans s ! doneChan (snd x) = None"
  shows "signal_loop learned m s = signal_result learned m s"
  using assms
proof (induction m arbitrary: s)
  case Nil
  then show ?case by (simp add: signal_result_def map_nth)
next
  case (Cons x m)
  obtain op p where x: "x = (op, p)" by force
  have tl: "gm_ok m" "distinct (map (\<lambda>x. doneChan (snd x)) m)" using Cons.prems(1,2) by (simp_all add: gm_ok_def)
  have other: "doneChan (snd y) \<noteq> doneChan p" if "y \<in> set m" for y
    using Cons.prems(2) that x by (auto simp: image_iff)
  show ?case
  proof (cases "signalled learned s x")
    case True
    have "\<forall>y \<in> set m. doneChan (snd y) < length (doneChans (signal_one op p s)) \<and>
        doneChans (signal_one op p s) ! doneChan (snd y) = None"
      using Cons.prems(3) other by (force simp: signal_one_def nth_list_update)
    from Cons.IH [OF tl this] signal_result_hit [of learned s op p m] show ?thesis
      using True Cons.prems(3) by (simp add: x signalled_def signal_one_def)
  next
    case False
    then have "signal_result learned (x # m) s = signal_result learned m s" by (simp add: signal_result_def)
    moreover have "signal_loop learned (x # m) s = signal_loop learned m s" using False by (simp add: x signalled_def)
    ultimately show ?thesis using Cons.IH [OF tl] Cons.prems(3) by simp
  qed
qed

definition merged :: "Engine \<Rightarrow> CounterMap \<Rightarrow> Engine" where
  "merged s learned = set_live (CounterMap_MergeInPlace (live s) learned) s"

lemma onLearn_result:
  fixes s learned
  defines "s1 \<equiv> merged s learned"
  assumes "engine_ok V s"
  shows "onLearn s learned =
    s1\<lparr>doneChans := map (\<lambda>d. if \<exists>x \<in> set (pending s). doneChan (snd x) = d \<and> signalled learned s1 x
                         then Some (CounterMap_Copy (live s1)) else doneChans s ! d)
                       [0..<length (doneChans s)],
      pending := filter (\<lambda>x. \<not> signalled learned s1 x) (pending s)\<rparr>"
proof -
  have s1: "pending s1 = pending s" "doneChans s1 = doneChans s"
    by (simp_all add: s1_def merged_def)
  have *: "(\<exists>x \<in> set (pending s). fst x = fst y \<and> signalled learned s1 x) \<longleftrightarrow> signalled learned s1 y"
    if "y \<in> set (pending s)" for y
    using engine_okD(3) [OF assms(2)] that by (force simp: gm_ok_def distinct_map inj_on_def)
  have "signal_loop learned (pending s1) s1 =
    s1\<lparr>doneChans := map (\<lambda>d. if \<exists>x \<in> set (pending s). doneChan (snd x) = d \<and> signalled learned s1 x
                         then Some (CounterMap_Copy (live s1)) else doneChans s ! d)
                       [0..<length (doneChans s)],
      pending := filter (\<lambda>y. \<not> (\<exists>x \<in> set (pending s). fst x = fst y \<and> signalled learned s1 x)) (pending s)\<rparr>"
    using signal_loop_result [of "pending s1" s1 learned] engine_okD(3,5,7) [OF assms(2)]
    unfolding signal_result_def s1 by (simp add: pending_ok_def)
  moreover have "filter (\<lambda>y. \<not> (\<exists>x \<in> set (pending s). fst x = fst y \<and> signalled learned s1 x)) (pending s) =
      filter (\<lambda>x. \<not> signalled learned s1 x) (pending s)"
    using * by (intro filter_cong) simp_all
  moreover have "onLearn s learned = signal_loop learned (pending s1) s1"
    by (simp add: onLearn_def s1_def merged_def Let_def)
  ultimately show ?thesis by (simp only:)
qed

lemma onLearn_chan:
  assumes "engine_ok V s" "d < length (doneChans s)"
  shows "doneChans (onLearn s learned) ! d =
    (if \<exists>x \<in> set (pending s). doneChan (snd x) = d \<and> signalled learned (merged s learned) x
     then Some (CounterMap_Copy (live (merged s learned))) else doneChans s ! d)"
  using assms(2) by (auto simp: onLearn_result [OF assms(1)])

section \<open>Every section keeps the engine well formed\<close>

text \<open>
  What the engine needs of the maps it holds (\<open>V\<close>), of those it learns (\<open>Q\<close>) and of its
  node: merging and incrementing stay inside \<open>V\<close>.
\<close>

locale engine_values =
  fixes V Q :: "CounterMap \<Rightarrow> bool" and n :: NodeId
  assumes V_wf: "V cm \<Longrightarrow> CounterMap_wf cm"
    and Q_wf: "Q cm \<Longrightarrow> CounterMap_wf cm"
    and V_Merge: "V cm \<Longrightarrow> Q l \<Longrightarrow> V (CounterMap_MergeInPlace cm l)"
    and V_Increment: "V cm \<Longrightarrow> V (CounterMap_IncrementKey cm key n v)"
begin

lemma Copy_V [simp]: "V cm \<Longrightarrow> CounterMap_Copy cm = cm"
  by (simp add: V_wf)

lemma register_ok:
  assumes "engine_ok V s" "r < length (objects s)" "unat (opID s) + 1 < 2 ^ 64"
    "registerPendingLocked s r = (s', op, done)"
  shows "engine_ok V s'"
proof -
  have inc: "unat (opID s + 1) = unat (opID s) + 1"
    using unat_add_no_overflow [of "opID s" 1] assms(3) by simp
  have fresh: "opID s \<notin> gm_dom (pending s)"
    using engine_okD(5) [OF assms(1)] by (force simp: gm_dom_def pending_ok_def)
  then have upd: "gm_set (opID s) p (pending s) = pending s @ [(opID s, p)]" for p
    by (rule gm_set_fresh)
  have f: "objects s' = objects s" "localCounters s' = localCounters s" "opID s' = opID s + 1"
    "doneChans s' = doneChans s @ [None]"
    "pending s' = pending s @ [(opID s, \<lparr>proposedRef = r, doneChan = length (doneChans s)\<rparr>)]"
    using assms(4) by (auto simp: registerPendingLocked_def Let_def upd)
  have old: "pending_ok s' x" "doneChan (snd x) \<noteq> length (doneChans s)" if "x \<in> set (pending s)" for x
    using engine_okD(5) [OF assms(1) that] inc by (auto simp: f pending_ok_def nth_append)
  have "pending_ok s' (opID s, \<lparr>proposedRef = r, doneChan = length (doneChans s)\<rparr>)"
    using inc assms(2) by (simp add: f pending_ok_def)
  then have "\<forall>x \<in> set (pending s'). pending_ok s' x"
    by (simp add: f(5) Ball_def old(1))
  moreover have "distinct (map (\<lambda>x. doneChan (snd x)) (pending s'))"
    using old(2) engine_okD(7) [OF assms(1)] by (fastforce simp: f)
  moreover have "gm_ok (pending s')"
    using fresh engine_okD(3) [OF assms(1)] by (auto simp: f gm_ok_def gm_dom_def)
  ultimately show ?thesis
    using assms(1) by (auto simp: engine_ok_def f(1-4))
qed

lemma batch_ok [simp]: "engine_ok V (addOpToBatchLocked s) = engine_ok V s"
  by (simp add: addOpToBatchLocked_def Let_def)

lemma IncrementKey_begin_ok:
  assumes "engine_ok V s" "engineId s = n" "unat (opID s) + 1 < 2 ^ 64"
    "IncrementKey_begin s key v = (s', op, done)"
  shows "engine_ok V s'"
proof -
  let ?s = "set_live (CounterMap_IncrementKey (live s) key n v) s"
  obtain s'' where "registerPendingLocked ?s (localCounters ?s) = (s'', op, done)" "s' = addOpToBatchLocked s''"
    using assms(2,4) by (auto simp: IncrementKey_begin_def Let_def split: prod.splits)
  moreover have "engine_ok V ?s"
    using assms(1) by (blast intro: engine_ok_set_live V_Increment engine_okD(2))
  ultimately show ?thesis
    using register_ok [of ?s "localCounters ?s" s''] assms engine_okD(1) [of V ?s] by simp
qed

lemma ValueForKey_begin_ok:
  assumes "engine_ok V s" "unat (opID s) + 1 < 2 ^ 64" "ValueForKey_begin s = (s', op, done)"
  shows "engine_ok V s'"
proof -
  obtain s'' where "registerPendingLocked s (localCounters s) = (s'', op, done)" "s' = addOpToBatchLocked s''"
    using assms(3) by (auto simp: ValueForKey_begin_def Let_def split: prod.splits)
  then show ?thesis using register_ok [of s "localCounters s"] assms engine_okD(1) [of V s] by simp
qed

lemma unregister_ok: "engine_ok V s \<Longrightarrow> engine_ok V (unregisterPending s op)"
  by (auto simp: engine_ok_def unregisterPending_def gm_delete_def gm_ok_def pending_ok_def
      intro: distinct_map_filter)

lemma wait_ok:
  assumes "engine_ok V s" "waitForLearn t s d = Some (s', r)" "d < length (doneChans s)"
  shows "engine_ok V s' \<and> (\<forall>v. r = Some v \<longrightarrow> V v)"
proof -
  have "engine_ok V (s\<lparr>doneChans := (doneChans s)[d := None]\<rparr>)"
    using assms(1,3) set_update_subset_insert [of "doneChans s" d None]
    by (auto simp: engine_ok_def pending_ok_def nth_list_update Ball_def)
  then show ?thesis
    using assms engine_okD(6) [OF assms(1,3)]
    by (auto simp: waitForLearn_def split: if_splits option.splits)
qed

lemma flush_ok: "engine_ok V s \<Longrightarrow> flush s = (s', p) \<Longrightarrow> engine_ok V s' \<and> (\<forall>v. p = Some v \<longrightarrow> v = live s)"
  using engine_okD(2) [of V s]
  by (auto simp: flush_def split: if_splits)

lemma flusher_ok:
  assumes "engine_ok V s" "flusher s c = Some (s', p, go)"
  shows "engine_ok V s' \<and> (\<forall>v. p = Some v \<longrightarrow> v = live s)"
  using assms engine_okD(2) [OF assms(1)]
  by (cases c) (auto simp: flush_def split: if_splits)

lemma sync_begin_register:
  "sync_begin s = (case registerPendingLocked (s\<lparr>objects := objects s @ [CounterMap_Copy (live s)]\<rparr>)
       (length (objects s)) of (s', op, done) \<Rightarrow> (s', done, CounterMap_Copy (live s)))"
  by (simp add: sync_begin_def registerPendingLocked_def Let_def live_def)

lemma sync_begin_ok:
  assumes "engine_ok V s" "unat (opID s) + 1 < 2 ^ 64" "sync_begin s = (s', done, p)"
  shows "engine_ok V s' \<and> p = live s"
proof -
  let ?s = "s\<lparr>objects := objects s @ [live s]\<rparr>"
  have "engine_ok V ?s"
    using assms(1) engine_okD(2) [OF assms(1)] by (auto simp: engine_ok_def pending_ok_def)
  moreover obtain op where "registerPendingLocked ?s (length (objects s)) = (s', op, done)" "p = live s"
    using assms(1,3) engine_okD(2) [OF assms(1)] by (auto simp: sync_begin_register split: prod.splits)
  ultimately show ?thesis using register_ok [of ?s "length (objects s)"] assms by simp
qed

lemma sync_end_ok:
  assumes "engine_ok V s" "\<forall>v. r = Some v \<longrightarrow> V v"
  shows "engine_ok V (fst (sync_end s r))"
  using assms by (auto simp: sync_end_def engine_ok_def pending_ok_def split: option.splits)

lemma onLearn_ok:
  assumes "engine_ok V s" "Q learned"
  shows "engine_ok V (onLearn s learned)"
proof -
  have s1: "engine_ok V (merged s learned)"
    unfolding merged_def using assms by (blast intro: engine_ok_set_live V_Merge engine_okD(2))
  have wf: "V (live (merged s learned))" by (rule engine_okD(2) [OF s1])
  have keep: "doneChan (snd y) \<noteq> doneChan (snd x) \<or> y = x"
    if "x \<in> set (pending s)" "y \<in> set (pending s)" for x y
    using engine_okD(7) [OF assms(1)] that by (auto simp: distinct_map inj_on_def)
  have pend: "pending_ok (onLearn s learned) x" if "x \<in> set (pending (onLearn s learned))" for x
  proof -
    have x: "x \<in> set (pending s)" "\<not> signalled learned (merged s learned) x"
      using that by (auto simp: onLearn_result [OF assms(1)])
    have "\<not> (\<exists>y \<in> set (pending s). doneChan (snd y) = doneChan (snd x) \<and> signalled learned (merged s learned) y)"
      using keep x by metis
    then show ?thesis
      using engine_okD(5) [OF assms(1) x(1)]
      by (simp add: onLearn_result [OF assms(1)] pending_ok_def merged_def)
  qed
  have "\<forall>c \<in> set (doneChans (onLearn s learned)). case c of None \<Rightarrow> True | Some v \<Rightarrow> V v"
    using wf engine_okD(6) [OF assms(1)]
    by (auto simp: onLearn_result [OF assms(1)] split: option.splits)
  with pend s1 show ?thesis
    by (auto simp: engine_ok_def onLearn_result [OF assms(1)] merged_def gm_ok_def
        intro: distinct_map_filter)
qed

end

text \<open>
  \<open>peer_map\<close> is the shape of the maps of an engine that started from a new state: every counter
  has the peers as nodes, and new counters get them. A state loaded from disk has lost
  \<open>nodeIds\<close>; for it only well-formedness is kept.
\<close>

definition peer_map :: "NodeId list \<Rightarrow> NodeId \<Rightarrow> CounterMap \<Rightarrow> bool" where
  "peer_map ids n cm \<longleftrightarrow> CounterMap_ok (set ids) cm \<and> nodeIds cm = ids \<and> n \<in> set ids"

interpretation engine_any: engine_values CounterMap_wf CounterMap_wf n for n
  by unfold_locales (simp_all add: CounterMap_Merge_wf CounterMap_IncrementKey_wf)

interpretation engine_peers: engine_values "peer_map ids n" "CounterMap_ok (set ids)" n for ids n
  using CounterMap_IncrementKey_ok
  by unfold_locales (auto simp: peer_map_def CounterMap_ok_wf CounterMap_Merge_ok)

section \<open>What a pending operation finds\<close>

lemma onLearn_pending:
  assumes ok: "engine_ok CounterMap_wf s" and wf: "CounterMap_wf learned" and p: "map_of (pending s) op = Some p"
  shows "doneChans (onLearn s learned) ! doneChan p =
      (if signalled learned (merged s learned) (op, p) then Some (CounterMap_MergeInPlace (live s) learned) else None)"
    "map_of (pending (onLearn s learned)) op = (if signalled learned (merged s learned) (op, p) then None else Some p)"
proof -
  let ?m = "CounterMap_MergeInPlace (live s) learned" and ?s = "merged s learned"
  note res = onLearn_result [OF ok, of learned]
  have lv: "live ?s = ?m" using engine_okD(1) [OF ok] by (simp add: merged_def)
  have cp: "CounterMap_Copy ?m = ?m" using CounterMap_Merge_wf [OF engine_okD(2) [OF ok] wf] by simp
  have mem: "(op, p) \<in> set (pending s)" using p by (rule map_of_SomeD)
  have own: "x = (op, p)" if "x \<in> set (pending s)" "doneChan (snd x) = doneChan p" for x
    using engine_okD(7) [OF ok] inj_onD [of "\<lambda>x. doneChan (snd x)" "set (pending s)" x "(op, p)"] mem that
    by (simp add: distinct_map)
  have keys: "x = (op, p)" if "x \<in> set (pending s)" "fst x = op" for x
    using engine_okD(3) [OF ok] inj_onD [of fst "set (pending s)" x "(op, p)"] mem that
    by (simp add: gm_ok_def distinct_map)
  have chan: "doneChan p < length (doneChans s)" "doneChans s ! doneChan p = None"
    using engine_okD(5) [OF ok mem] by (simp_all add: pending_ok_def)
  have "(\<exists>x \<in> set (pending s). doneChan (snd x) = doneChan p \<and> signalled learned ?s x) \<longleftrightarrow> signalled learned ?s (op, p)"
    using own mem by (metis snd_conv)
  then show "doneChans (onLearn s learned) ! doneChan p = (if signalled learned ?s (op, p) then Some ?m else None)"
    unfolding onLearn_chan [OF ok chan(1)] chan(2) lv cp by simp
  show "map_of (pending (onLearn s learned)) op = (if signalled learned ?s (op, p) then None else Some p)"
  proof (cases "signalled learned ?s (op, p)")
    case True
    then have "op \<notin> gm_dom (pending (onLearn s learned))" using keys by (fastforce simp: res gm_dom_def)
    then show ?thesis using True by (simp add: map_of_None_iff)
  next
    case False
    have "gm_ok (pending (onLearn s learned))" by (rule engine_okD(3) [OF engine_any.onLearn_ok [OF ok wf]])
    moreover have "(op, p) \<in> set (pending (onLearn s learned))" using mem False by (simp add: res)
    ultimately show ?thesis using False by (simp add: gm_mem_iff)
  qed
qed

section \<open>Properties\<close>

text \<open>
  C28: the learn callback. It leaves the local state merged with the learned value; a pending
  operation whose \<open>proposedValue\<close>, read after the merge, is in the learned value is removed
  from \<open>pending\<close> and its caller finds a copy of the merged state in its channel; every other
  operation stays pending with its channel empty. The non-blocking send never finds the channel
  full, and the engine stays well formed.
\<close>

theorem onLearn_contract:
  assumes ok: "engine_ok CounterMap_wf s" and wf: "CounterMap_wf learned"
  shows "engine_ok CounterMap_wf (onLearn s learned) \<and>
    live (onLearn s learned) = CounterMap_MergeInPlace (live s) learned \<and>
    (\<forall>op p. map_of (pending s) op = Some p \<longrightarrow>
      (let proposed = (if proposedRef p = localCounters s then CounterMap_MergeInPlace (live s) learned
                       else objects s ! proposedRef p)
       in if CounterMap_IsIn proposed learned
          then map_of (pending (onLearn s learned)) op = None \<and>
               doneChans (onLearn s learned) ! doneChan p = Some (CounterMap_MergeInPlace (live s) learned)
          else map_of (pending (onLearn s learned)) op = Some p \<and>
               doneChans (onLearn s learned) ! doneChan p = None))"
proof -
  let ?m = "CounterMap_MergeInPlace (live s) learned"
  have "live (merged s learned) = ?m" using engine_okD(1) [OF ok] by (simp add: merged_def)
  then have "live (onLearn s learned) = ?m" by (simp add: onLearn_result [OF ok] live_def)
  moreover have "engine_ok CounterMap_wf (onLearn s learned)" by (rule engine_any.onLearn_ok [OF ok wf])
  moreover have "signalled learned (merged s learned) (op, p) \<longleftrightarrow>
      CounterMap_IsIn (if proposedRef p = localCounters s then ?m else objects s ! proposedRef p) learned" for op p
    using engine_okD(1) [OF ok] by (simp add: signalled_def merged_def nth_list_update)
  ultimately show ?thesis using onLearn_pending [OF ok wf] by (simp add: Let_def)
qed

theorem onLearn_contract_witness:
  "let s = NewEngine ''N1'' [(''N1'', ''a'')] 1 (\<lambda>ids. Inr (NewCounterMap ids) :: unit + CounterMap);
       learned = CounterMap_IncrementKey (NewCounterMap [''N1'']) ''k'' ''N1'' 3
   in live (onLearn s learned) = CounterMap_MergeInPlace (live s) learned \<and>
      ValueForKeyLocal (onLearn s learned) ''k'' = 3"
proof -
  let ?s = "NewEngine ''N1'' [(''N1'', ''a'')] 1 (\<lambda>ids. Inr (NewCounterMap ids) :: unit + CounterMap)"
  let ?l = "CounterMap_IncrementKey (NewCounterMap [''N1'']) ''k'' ''N1'' 3"
  have "engine_ok CounterMap_wf ?s" by (simp add: engine_ok_def NewEngine_def)
  moreover have "CounterMap_wf ?l" by (simp add: CounterMap_IncrementKey_wf)
  ultimately have "live (onLearn ?s ?l) = CounterMap_MergeInPlace (live ?s) ?l"
    using onLearn_contract by blast
  moreover have "ValueForKeyLocal (onLearn ?s ?l) ''k'' = 3" by code_simp
  ultimately show ?thesis unfolding Let_def by (rule conjI)
qed

text \<open>
  Batching. After the locked part of \<open>IncrementKey\<close> the next flush hands the proposer the
  local state with the increment in it, and a second flush right after it hands over nothing. The
  flusher is woken early exactly when the batch has reached \<open>MaxBatchSize\<close> or was already
  triggered.
\<close>

theorem flush_proposes_increment:
  assumes ok: "engine_ok CounterMap_wf s" and n: "0 \<le> unflushedOps s"
    and b: "IncrementKey_begin s key v = (s', op, ch)"
  shows "(\<exists>t. flush s' = (t, Some (CounterMap_IncrementKey (live s) key (engineId s) v)) \<and>
      live t = CounterMap_IncrementKey (live s) key (engineId s) v \<and> flush t = (t, None)) \<and>
    (flushTrigger s' \<longleftrightarrow> flushTrigger s \<or> MaxBatchSize s \<le> unflushedOps s + 1)"
proof -
  let ?cm = "CounterMap_IncrementKey (live s) key (engineId s) v"
  have f: "live s' = ?cm" "unflushedOps s' = unflushedOps s + 1"
    "flushTrigger s' \<longleftrightarrow> flushTrigger s \<or> MaxBatchSize s \<le> unflushedOps s + 1"
    using b engine_okD(1) [OF ok]
    by (auto simp: IncrementKey_begin_def registerPendingLocked_def addOpToBatchLocked_def Let_def live_def
        split: if_splits)
  have "CounterMap_wf ?cm" by (intro CounterMap_IncrementKey_wf engine_okD(2) [OF ok])
  then show ?thesis using f n by (simp add: flush_def)
qed

theorem flush_proposes_increment_witness:
  "let s = NewEngine ''N1'' [(''N1'', ''a'')] 1 (\<lambda>ids. Inr (NewCounterMap ids) :: unit + CounterMap);
       s' = fst (IncrementKey_begin s ''k'' 3)
   in flushTrigger s' \<and> snd (flush s') = Some (CounterMap_IncrementKey (NewCounterMap [''N1'']) ''k'' ''N1'' 3)"
proof -
  let ?s = "NewEngine ''N1'' [(''N1'', ''a'')] 1 (\<lambda>ids. Inr (NewCounterMap ids) :: unit + CounterMap)"
  obtain s' op ch where b: "IncrementKey_begin ?s ''k'' 3 = (s', op, ch)" by (metis prod_cases3)
  have ok: "engine_ok CounterMap_wf ?s" by (simp add: engine_ok_def NewEngine_def)
  have "live ?s = NewCounterMap [''N1'']" "engineId ?s = ''N1''" "0 \<le> unflushedOps ?s"
    "MaxBatchSize ?s \<le> unflushedOps ?s + 1"
    by (simp_all add: NewEngine_def live_def)
  with flush_proposes_increment [OF ok _ b] b show ?thesis by (auto simp: Let_def)
qed

text \<open>
  An operation waits for later ones. The pending map holds the pointer to the live state, not
  the proposed state: after two increments on a node, a learned value that contains the state the
  first one proposed does not answer it, because the live state has moved on.
\<close>

theorem later_increment_delays_earlier:
  "let s0 = NewEngine ''N1'' [(''N1'', ''a'')] 50 (\<lambda>ids. Inr (NewCounterMap ids) :: unit + CounterMap);
       (s1, op1, ch1) = IncrementKey_begin s0 ''k'' 1;
       proposed = CounterMap_Copy (live s1);
       (s2, op2, ch2) = IncrementKey_begin s1 ''k'' 1;
       s3 = onLearn s2 proposed
   in CounterMap_ValueForKey proposed ''k'' = 1 \<and> doneChans s3 ! ch1 = None \<and>
      map_of (pending s3) op1 \<noteq> None \<and>
      doneChans (onLearn s1 proposed) ! ch1 = Some proposed"
  by code_simp

text \<open>
  \<open>sync\<close> can drop a learned value. It assigns the copy it was signalled with to
  \<open>localCounters\<close>; a value learned between the signal and the assignment was merged into the
  old map and is gone from the node's local state.
\<close>

theorem sync_can_drop_learned_value:
  "let s0 = NewEngine ''N1'' [(''N1'', ''a'')] 50 (\<lambda>ids. Inr (NewCounterMap ids) :: unit + CounterMap);
       d1 = NewCounterMap [];
       d2 = CounterMap_IncrementKey (NewCounterMap [''N1'']) ''k'' ''N1'' 1;
       (s1, ch, proposed) = sync_begin s0;
       s2 = onLearn s1 d1;
       (s3, learned) = the (waitForLearn False s2 ch);
       s4 = onLearn s3 d2;
       (s5, ok) = sync_end s4 learned
   in ok \<and> ValueForKeyLocal s4 ''k'' = 1 \<and> ValueForKeyLocal s5 ''k'' = 0 \<and>
      \<not> CounterMap_IsIn (live s4) (live s5)"
  by code_simp

end
