(* ===== verification/Host.thy ===== *)
theory Host
  imports Engine
begin

text \<open>
  One node's engine with its concurrent callers. A call of \<open>IncrementKey\<close>, \<open>ValueForKey\<close> or
  \<open>sync\<close> is three sections: the locked beginning, the wake-up of \<open>waitForLearn\<close>, and the
  return with its deferred \<open>unregisterPending\<close> (for \<open>sync\<close>, the assignment of
  \<open>localCounters\<close>). The flusher captures a state under the lock and proposes it after
  unlocking. All these sections interleave freely; \<open>cmd/suffren\<close> calls \<open>Start\<close>, and with it
  \<open>sync\<close>, only while no other call is running, which \<open>may_begin\<close> says.

  \<open>snapshotOf\<close> is a history variable: the local state when the call's first section ended, which
  for \<open>IncrementKey\<close> contains the increment.
\<close>

datatype call = IncrementCall string uint64 | ValueCall string | SyncCall

datatype phase = Waiting | Woken "CounterMap option" | Returned "uint64 \<times> bool"

record client =
  callOf :: call
  opOf :: uint64
  chanOf :: channel
  phaseOf :: phase
  snapshotOf :: CounterMap

record host =
  engineOf :: Engine
  clients :: "client list"
  toPropose :: "CounterMap option"
  flusherUp :: bool
  snapshotsUp :: bool
  saved :: "CounterMap list"

definition in_flight :: "client \<Rightarrow> bool" where
  "in_flight c \<longleftrightarrow> (case phaseOf c of Returned _ \<Rightarrow> False | _ \<Rightarrow> True)"

fun is_sync :: "call \<Rightarrow> bool" where
  "is_sync SyncCall = True"
| "is_sync _ = False"

fun begin_call :: "Engine \<Rightarrow> call \<Rightarrow> Engine \<times> uint64 \<times> channel \<times> CounterMap list" where
  "begin_call s (IncrementCall key v) =
     (case IncrementKey_begin s key v of (s', op, done) \<Rightarrow> (s', op, done, []))"
| "begin_call s (ValueCall key) =
     (case ValueForKey_begin s of (s', op, done) \<Rightarrow> (s', op, done, []))"
| "begin_call s SyncCall =
     (case sync_begin s of (s', done, proposed) \<Rightarrow> (s', opID s, done, [proposed]))"

fun call_result :: "call \<Rightarrow> CounterMap option \<Rightarrow> uint64 \<times> bool" where
  "call_result (IncrementCall key v) learned = op_result key learned"
| "call_result (ValueCall key) learned = op_result key learned"
| "call_result SyncCall learned = (0, learned \<noteq> None)"

definition finish_call :: "Engine \<Rightarrow> client \<Rightarrow> CounterMap option \<Rightarrow> Engine" where
  "finish_call s c learned =
     (if is_sync (callOf c) then fst (sync_end s learned) else unregisterPending s (opOf c))"

definition may_begin :: "host \<Rightarrow> call \<Rightarrow> bool" where
  "may_begin h a \<longleftrightarrow>
     (\<forall>c \<in> set (clients h). in_flight c \<longrightarrow> \<not> is_sync a \<and> \<not> is_sync (callOf c))"

datatype host_event =
    HBegin call
  | HWake nat bool
  | HReturn nat
  | HFlusher flusher_case
  | HPropose
  | HSnapshot flusher_case
  | HStop

fun host_step :: "host \<Rightarrow> host_event \<Rightarrow> (host \<times> CounterMap list) option" where
  "host_step h (HBegin a) =
     (if may_begin h a then
        (case begin_call (engineOf h) a of (s, op, done, ps) \<Rightarrow>
           Some (h\<lparr>engineOf := s,
                   clients := clients h @ [\<lparr>callOf = a, opOf = op, chanOf = done, phaseOf = Waiting,
                                            snapshotOf = live s\<rparr>]\<rparr>, ps))
      else None)"
| "host_step h (HWake k timeout) =
     (if k < length (clients h) \<and> phaseOf (clients h ! k) = Waiting then
        (case waitForLearn timeout (engineOf h) (chanOf (clients h ! k)) of
           None \<Rightarrow> None
         | Some (s, learned) \<Rightarrow>
             Some (h\<lparr>engineOf := s,
                     clients := (clients h)[k := (clients h ! k)\<lparr>phaseOf := Woken learned\<rparr>]\<rparr>, []))
      else None)"
| "host_step h (HReturn k) =
     (if k < length (clients h) then
        (case phaseOf (clients h ! k) of
           Woken learned \<Rightarrow>
             (let c = clients h ! k;
                  r = call_result (callOf c) learned;
                  up = is_sync (callOf c) \<and> snd r
              in Some (h\<lparr>engineOf := finish_call (engineOf h) c learned,
                         clients := (clients h)[k := c\<lparr>phaseOf := Returned r\<rparr>],
                         flusherUp := flusherUp h \<or> up, snapshotsUp := snapshotsUp h \<or> up\<rparr>, []))
         | _ \<Rightarrow> None)
      else None)"
| "host_step h (HFlusher c) =
     (if flusherUp h \<and> toPropose h = None then
        (case flusher (engineOf h) c of
           None \<Rightarrow> None
         | Some (s, p, go) \<Rightarrow> Some (h\<lparr>engineOf := s, toPropose := p, flusherUp := go\<rparr>, []))
      else None)"
| "host_step h HPropose =
     (case toPropose h of None \<Rightarrow> None | Some p \<Rightarrow> Some (h\<lparr>toPropose := None\<rparr>, [p]))"
| "host_step h (HSnapshot c) =
     (if snapshotsUp h then
        (case snapshotLoop (engineOf h) c of
           None \<Rightarrow> None
         | Some (cm, go) \<Rightarrow> Some (h\<lparr>saved := saved h @ [cm], snapshotsUp := go\<rparr>, []))
      else None)"
| "host_step h HStop =
     (case Engine_Stop (engineOf h) of Inl e \<Rightarrow> None | Inr s \<Rightarrow> Some (h\<lparr>engineOf := s\<rparr>, []))"

definition host_learn :: "host \<Rightarrow> CounterMap \<Rightarrow> host" where
  "host_learn h v = h\<lparr>engineOf := onLearn (engineOf h) v\<rparr>"

definition new_host :: "Engine \<Rightarrow> host" where
  "new_host s = \<lparr>engineOf = s, clients = [], toPropose = None, flusherUp = False,
     snapshotsUp = False, saved = []\<rparr>"

text \<open>
  Neither the operation number nor the node's own count of the key wraps around; \<open>x \<le> x + v\<close>
  is the test for that on machine words.
\<close>

definition own_count :: "Engine \<Rightarrow> string \<Rightarrow> uint64" where
  "own_count s key =
     (case map_of (Counters (live s)) key of None \<Rightarrow> 0 | Some g \<Rightarrow> gm_get (Counts g) (engineId s))"

fun host_event_ok :: "host \<Rightarrow> host_event \<Rightarrow> bool" where
  "host_event_ok h (HBegin a) \<longleftrightarrow>
     opID (engineOf h) + 1 \<noteq> 0 \<and>
     (case a of
        IncrementCall key v \<Rightarrow> own_count (engineOf h) key \<le> own_count (engineOf h) key + v
      | _ \<Rightarrow> True)"
| "host_event_ok h _ = True"

lemma own_count_bound:
  "own_count s key \<le> own_count s key + v \<longleftrightarrow> CounterMap_count (live s) key (engineId s) + unat v < 2 ^ 64"
proof -
  have "unat (own_count s key) = CounterMap_count (live s) key (engineId s)"
    by (simp add: own_count_def CounterMap_count_def CounterMap_rep_def GCounter_rep_def split: option.splits)
  then show ?thesis by (simp add: no_olen_add_nat)
qed

lemma opID_bound: "x + 1 \<noteq> 0 \<longleftrightarrow> unat x + 1 < 2 ^ 64" for x :: uint64
  using unsigned_less [of x, where 'a = nat] unat_word_ariths(1) [of x 1]
  by (cases "unat x = 2 ^ 64 - 1") (auto simp: word_unat_eq_iff [of "x + 1"])

section \<open>The invariant\<close>

text \<open>
  \<open>answered D c v\<close>: the map \<open>v\<close> given to the caller \<open>c\<close> contains a value of \<open>D\<close> that
  contains the caller's snapshot; for the calls of clients it has exactly the counts of that value.
\<close>

definition answered :: "(CounterMap \<Rightarrow> bool) \<Rightarrow> client \<Rightarrow> CounterMap \<Rightarrow> bool" where
  "answered D c v \<longleftrightarrow> CounterMap_wf v \<and>
     (\<exists>d. D d \<and> CounterMap_rep (snapshotOf c) \<le> CounterMap_rep d \<and> CounterMap_rep d \<le> CounterMap_rep v \<and>
        (\<not> is_sync (callOf c) \<longrightarrow> CounterMap_rep v = CounterMap_rep d))"

fun phase_ok :: "(CounterMap \<Rightarrow> bool) \<Rightarrow> client \<Rightarrow> phase \<Rightarrow> bool" where
  "phase_ok D c Waiting = True"
| "phase_ok D c (Woken r) = (\<forall>v. r = Some v \<longrightarrow> answered D c v)"
| "phase_ok D c (Returned r) = (snd r \<longrightarrow> (\<exists>v. answered D c v \<and> r = call_result (callOf c) (Some v)))"

definition entry_ok :: "Engine \<Rightarrow> client \<Rightarrow> uint64 \<times> pendingOp \<Rightarrow> bool" where
  "entry_ok s c x \<longleftrightarrow>
     fst x = opOf c \<and>
     CounterMap_rep (snapshotOf c) \<le> CounterMap_rep (objects s ! proposedRef (snd x)) \<and>
     (\<not> is_sync (callOf c) \<longrightarrow> in_flight c \<and> proposedRef (snd x) = localCounters s)"

definition client_ok :: "(CounterMap \<Rightarrow> bool) \<Rightarrow> Engine \<Rightarrow> client \<Rightarrow> bool" where
  "client_ok D s c \<longleftrightarrow>
     chanOf c < length (doneChans s) \<and>
     (\<forall>x \<in> set (pending s). doneChan (snd x) = chanOf c \<longrightarrow> entry_ok s c x) \<and>
     (\<forall>v. doneChans s ! chanOf c = Some v \<longrightarrow> answered D c v) \<and>
     phase_ok D c (phaseOf c)"

definition sync_alone :: "client list \<Rightarrow> bool" where
  "sync_alone cs \<longleftrightarrow>
     (\<forall>c \<in> set cs. \<forall>c' \<in> set cs. in_flight c \<and> is_sync (callOf c) \<and> in_flight c' \<longrightarrow> is_sync (callOf c'))"

definition clients_ok :: "(CounterMap \<Rightarrow> bool) \<Rightarrow> host \<Rightarrow> bool" where
  "clients_ok D h \<longleftrightarrow>
     distinct (map chanOf (clients h)) \<and>
     (\<forall>c \<in> set (clients h). client_ok D (engineOf h) c) \<and> sync_alone (clients h)"

text \<open>The snapshot of an increment contains it.\<close>

definition own_increment :: "NodeId \<Rightarrow> client \<Rightarrow> bool" where
  "own_increment n c \<longleftrightarrow>
     (case callOf c of
        IncrementCall key v \<Rightarrow>
          (\<exists>f. CounterMap_rep (snapshotOf c) key = Some f \<and> unat v \<le> f n)
      | _ \<Rightarrow> True)"

lemma own_increment_phase [simp]: "own_increment n (c\<lparr>phaseOf := p\<rparr>) = own_increment n c"
  by (simp add: own_increment_def split: call.splits)

lemma answered_mono: "answered D c v \<Longrightarrow> (\<And>d. D d \<Longrightarrow> D' d) \<Longrightarrow> answered D' c v"
  by (auto simp: answered_def)

lemma phase_ok_mono: "phase_ok D c p \<Longrightarrow> (\<And>d. D d \<Longrightarrow> D' d) \<Longrightarrow> phase_ok D' c p"
  by (cases p) (auto intro: answered_mono)

lemma client_ok_mono:
  assumes "client_ok D s c" "\<And>d. D d \<Longrightarrow> D' d"
  shows "client_ok D' s c"
  using assms(1) answered_mono [of D c _ D', OF _ assms(2)] phase_ok_mono [of D c _ D', OF _ assms(2)]
  by (simp add: client_ok_def)

lemma clients_ok_mono:
  assumes "clients_ok D h" "\<And>d. D d \<Longrightarrow> D' d"
  shows "clients_ok D' h"
  using assms(1) client_ok_mono [of D "engineOf h" _ D'] assms(2) unfolding clients_ok_def by blast

text \<open>A caller stays in order when the engine's state grows under it.\<close>

lemma client_ok_step:
  assumes c: "client_ok D s c"
    and chans: "chanOf c < length (doneChans s')"
      "\<And>v. doneChans s' ! chanOf c = Some v \<Longrightarrow> answered D c v"
    and pend: "\<And>x. x \<in> set (pending s') \<Longrightarrow> doneChan (snd x) = chanOf c \<Longrightarrow>
      x \<in> set (pending s) \<and>
      CounterMap_rep (objects s ! proposedRef (snd x)) \<le> CounterMap_rep (objects s' ! proposedRef (snd x))"
    and loc: "localCounters s' = localCounters s \<or> is_sync (callOf c) \<or> \<not> in_flight c"
  shows "client_ok D s' c"
proof -
  have "entry_ok s' c x" if x: "x \<in> set (pending s')" "doneChan (snd x) = chanOf c" for x
  proof -
    have "entry_ok s c x" using c pend [OF x] x(2) by (simp add: client_ok_def)
    then show ?thesis using pend [OF x] loc by (auto simp: entry_ok_def intro: order_trans)
  qed
  then show ?thesis using c chans by (simp add: client_ok_def)
qed

lemma in_set_update:
  "x \<in> set (xs[k := y]) \<Longrightarrow> x = y \<or> (\<exists>j < length xs. j \<noteq> k \<and> x = xs ! j)"
  by (metis in_set_conv_nth length_list_update nth_list_update_eq nth_list_update_neq)

lemma in_flight_simps [simp]:
  "in_flight (c\<lparr>phaseOf := Waiting\<rparr>)" "in_flight (c\<lparr>phaseOf := Woken r\<rparr>)"
  "\<not> in_flight (c\<lparr>phaseOf := Returned q\<rparr>)"
  by (simp_all add: in_flight_def)

section \<open>Every section keeps the invariant\<close>

context engine_values
begin

lemma register_facts:
  assumes "registerPendingLocked s r = (s', op, done)"
    "\<forall>x \<in> set (pending s). pending_ok s x"
  shows "done = length (doneChans s)" "doneChans s' = doneChans s @ [None]" "objects s' = objects s"
    "localCounters s' = localCounters s" "op = opID s"
    "pending s' = pending s @ [(op, \<lparr>proposedRef = r, doneChan = done\<rparr>)]"
proof -
  have "opID s \<notin> gm_dom (pending s)"
    using assms(2) by (force simp: gm_dom_def pending_ok_def)
  then show "done = length (doneChans s)" "doneChans s' = doneChans s @ [None]" "objects s' = objects s"
    "localCounters s' = localCounters s" "op = opID s"
    "pending s' = pending s @ [(op, \<lparr>proposedRef = r, doneChan = done\<rparr>)]"
    using assms(1) by (auto simp: registerPendingLocked_def Let_def gm_set_fresh)
qed

lemma batch_simps [simp]:
  "doneChans (addOpToBatchLocked s) = doneChans s" "objects (addOpToBatchLocked s) = objects s"
  "localCounters (addOpToBatchLocked s) = localCounters s" "pending (addOpToBatchLocked s) = pending s"
  "live (addOpToBatchLocked s) = live s" "opID (addOpToBatchLocked s) = opID s"
  "engineId (addOpToBatchLocked s) = engineId s"
  by (simp_all add: addOpToBatchLocked_def Let_def live_def)

text \<open>What the first section of a call does, for the three kinds of call alike.\<close>

definition begun :: "Engine \<Rightarrow> call \<Rightarrow> Engine \<Rightarrow> uint64 \<Rightarrow> channel \<Rightarrow> bool" where
  "begun s a s' op done \<longleftrightarrow>
     engine_ok V s' \<and> done = length (doneChans s) \<and> doneChans s' = doneChans s @ [None] \<and>
     localCounters s' = localCounters s \<and> engineId s' = engineId s \<and>
     (\<forall>r < length (objects s). CounterMap_rep (objects s ! r) \<le> CounterMap_rep (objects s' ! r)) \<and>
     (\<exists>r. pending s' = pending s @ [(op, \<lparr>proposedRef = r, doneChan = done\<rparr>)] \<and>
          CounterMap_rep (live s') = CounterMap_rep (objects s' ! r) \<and>
          (\<not> is_sync a \<longrightarrow> r = localCounters s)) \<and>
     (\<forall>key v. a = IncrementCall key v \<longrightarrow>
        (\<exists>f. CounterMap_rep (live s') key = Some f \<and> unat v \<le> f n))"

lemma increment_begun:
  assumes ok: "engine_ok V s" "engineId s = n" and nums: "unat (opID s) + 1 < 2 ^ 64"
      "CounterMap_count (live s) key n + unat v < 2 ^ 64"
    and b: "IncrementKey_begin s key v = (s', op, done)"
  shows "begun s (IncrementCall key v) s' op done"
proof -
  let ?cm = "CounterMap_IncrementKey (live s) key n v"
  let ?s = "set_live ?cm s"
  obtain s2 where s2: "registerPendingLocked ?s (localCounters s) = (s2, op, done)" "s' = addOpToBatchLocked s2"
    using b ok(2) by (auto simp: IncrementKey_begin_def Let_def split: prod.splits)
  have "engine_ok V ?s" using ok(1) by (blast intro: engine_ok_set_live V_Increment engine_okD(2))
  then have reg: "\<forall>x \<in> set (pending ?s). pending_ok ?s x" using engine_okD(5) [of V ?s] by blast
  have up: "CounterMap_rep (live s) \<le> CounterMap_rep ?cm" using nums(2) by (rule CounterMap_IncrementKey_inflates)
  have "engine_ok V s'" using IncrementKey_begin_ok [OF ok nums(1)] b by (auto split: prod.splits)
  moreover have "engineId s' = engineId s" using s2 by (auto simp: registerPendingLocked_def Let_def)
  moreover have "\<exists>f. CounterMap_rep ?cm key = Some f \<and> unat v \<le> f n"
    using nums(2) by (simp add: CounterMap_IncrementKey_rep)
  ultimately show ?thesis
    using register_facts [OF s2(1) reg] s2(2) up engine_okD(1) [OF ok(1)]
    by (auto simp: begun_def live_def nth_list_update)
qed

lemma value_begun:
  assumes ok: "engine_ok V s" and nums: "unat (opID s) + 1 < 2 ^ 64" and b: "ValueForKey_begin s = (s', op, done)"
  shows "begun s (ValueCall key) s' op done"
proof -
  obtain s2 where s2: "registerPendingLocked s (localCounters s) = (s2, op, done)" "s' = addOpToBatchLocked s2"
    using b by (auto simp: ValueForKey_begin_def Let_def split: prod.splits)
  have reg: "\<forall>x \<in> set (pending s). pending_ok s x" using engine_okD(5) [OF ok] by blast
  have "engine_ok V s'" using ValueForKey_begin_ok [OF ok nums] b by (auto split: prod.splits)
  moreover have "engineId s' = engineId s" using s2 by (auto simp: registerPendingLocked_def Let_def)
  ultimately show ?thesis using register_facts [OF s2(1) reg] s2(2) by (auto simp: begun_def live_def)
qed

lemma sync_begun:
  assumes ok: "engine_ok V s" and nums: "unat (opID s) + 1 < 2 ^ 64" and b: "sync_begin s = (s', done, proposed)"
  shows "begun s SyncCall s' (opID s) done" "proposed = live s"
proof -
  let ?s = "s\<lparr>objects := objects s @ [live s]\<rparr>"
  have vl: "V (live s)" by (rule engine_okD(2) [OF ok])
  obtain op' where s2: "registerPendingLocked ?s (length (objects s)) = (s', op', done)" and p: "proposed = live s"
    using b vl by (auto simp: sync_begin_register split: prod.splits)
  have reg: "\<forall>x \<in> set (pending ?s). pending_ok ?s x"
    using engine_okD(5) [OF ok] by (simp add: pending_ok_def less_Suc_eq)
  have "engine_ok V s'" using sync_begin_ok [OF ok nums] b by (auto split: prod.splits)
  moreover have "engineId s' = engineId s" using s2 by (auto simp: registerPendingLocked_def Let_def)
  ultimately show "begun s SyncCall s' (opID s) done"
    using register_facts [OF s2 reg] vl engine_okD(1) [OF ok] by (auto simp: begun_def live_def nth_append)
  show "proposed = live s" by (rule p)
qed

lemma begin_call_begun:
  assumes ok: "engine_ok V s" "engineId s = n"
    and nums: "unat (opID s) + 1 < 2 ^ 64"
      "case a of IncrementCall key v \<Rightarrow> CounterMap_count (live s) key n + unat v < 2 ^ 64 | _ \<Rightarrow> True"
    and b: "begin_call s a = (s', op, done, ps)"
  shows "begun s a s' op done \<and> (\<forall>p \<in> set ps. V p)"
proof (cases a)
  case (IncrementCall key v)
  then show ?thesis using b nums(2) increment_begun [OF ok nums(1)] by (auto split: prod.splits)
next
  case (ValueCall key)
  then show ?thesis using b value_begun [OF ok(1) nums(1)] by (auto split: prod.splits)
next
  case SyncCall
  then show ?thesis using b sync_begun [OF ok(1) nums(1)] engine_okD(2) [OF ok(1)] by (auto split: prod.splits)
qed

definition host_ok :: "(CounterMap \<Rightarrow> bool) \<Rightarrow> host \<Rightarrow> bool" where
  "host_ok D h \<longleftrightarrow>
     engine_ok V (engineOf h) \<and> engineId (engineOf h) = n \<and> clients_ok D h \<and>
     (\<forall>p. toPropose h = Some p \<longrightarrow> V p) \<and>
     (\<forall>c \<in> set (clients h). \<forall>v. phaseOf c = Woken (Some v) \<longrightarrow> V v) \<and>
     (\<forall>c \<in> set (clients h). own_increment n c)"

lemma host_okD:
  assumes "host_ok D h"
  shows "engine_ok V (engineOf h)" "engineId (engineOf h) = n" "clients_ok D h"
    "toPropose h = Some p \<Longrightarrow> V p"
    "distinct (map chanOf (clients h))"
    "c \<in> set (clients h) \<Longrightarrow> client_ok D (engineOf h) c"
    "c \<in> set (clients h) \<Longrightarrow> c' \<in> set (clients h) \<Longrightarrow> in_flight c \<Longrightarrow> is_sync (callOf c) \<Longrightarrow>
       in_flight c' \<Longrightarrow> is_sync (callOf c')"
    "c \<in> set (clients h) \<Longrightarrow> phaseOf c = Woken (Some v) \<Longrightarrow> V v"
    "c \<in> set (clients h) \<Longrightarrow> own_increment n c"
  using assms unfolding host_ok_def clients_ok_def sync_alone_def by blast+

lemma new_host_ok:
  "V (objects s ! 0) \<Longrightarrow> objects s = [cm] \<Longrightarrow> localCounters s = 0 \<Longrightarrow> engineId s = n \<Longrightarrow>
   pending s = [] \<Longrightarrow> doneChans s = [] \<Longrightarrow> host_ok D (new_host s)"
  by (simp add: host_ok_def new_host_def engine_ok_def clients_ok_def sync_alone_def)

text \<open>A call that begins leaves the callers before it as they were.\<close>

lemma begun_client_ok:
  assumes h: "host_ok D h" and bg: "begun (engineOf h) a s' op ch" and c: "c \<in> set (clients h)"
  shows "client_ok D s' c" "chanOf c < ch"
proof -
  let ?s = "engineOf h"
  obtain r where r: "pending s' = pending ?s @ [(op, \<lparr>proposedRef = r, doneChan = ch\<rparr>)]" "localCounters s' = localCounters ?s"
    using bg by (auto simp: begun_def)
  have chans: "ch = length (doneChans ?s)" "doneChans s' = doneChans ?s @ [None]" using bg by (auto simp: begun_def)
  have old: "chanOf c < length (doneChans ?s)" using host_okD(6) [OF h c] by (simp add: client_ok_def)
  then show "chanOf c < ch" by (simp add: chans)
  show "client_ok D s' c"
  proof (rule client_ok_step [OF host_okD(6) [OF h c]])
    show "x \<in> set (pending ?s) \<and> CounterMap_rep (objects ?s ! proposedRef (snd x)) \<le>
        CounterMap_rep (objects s' ! proposedRef (snd x))"
      if x: "x \<in> set (pending s')" "doneChan (snd x) = chanOf c" for x
    proof -
      have "x \<in> set (pending ?s)" using x old chans(1) by (auto simp: r(1))
      moreover from this have "proposedRef (snd x) < length (objects ?s)"
        using engine_okD(5) [OF host_okD(1) [OF h]] by (simp add: pending_ok_def)
      ultimately show ?thesis using bg by (simp add: begun_def)
    qed
    show "answered D c v" if "doneChans s' ! chanOf c = Some v" for v
      using that host_okD(6) [OF h c] old by (simp add: client_ok_def chans nth_append)
  qed (use old chans r(2) in auto)
qed

lemma begun_new_client:
  assumes h: "host_ok D h" and bg: "begun (engineOf h) a s' op ch"
  defines "c \<equiv> \<lparr>callOf = a, opOf = op, chanOf = ch, phaseOf = Waiting, snapshotOf = live s'\<rparr>"
  shows "client_ok D s' c" "own_increment n c"
proof -
  have "doneChan (snd x) < ch" if "x \<in> set (pending (engineOf h))" for x
    using engine_okD(5) [OF host_okD(1) [OF h] that] bg by (auto simp: pending_ok_def begun_def)
  then show "client_ok D s' c"
    using bg by (fastforce simp: c_def begun_def client_ok_def entry_ok_def in_flight_def)
  show "own_increment n c" using bg host_okD(2) [OF h] by (simp add: c_def own_increment_def begun_def split: call.splits)
qed

lemma begin_ok:
  assumes h: "host_ok D h" and ev: "host_event_ok h (HBegin a)"
    and st: "host_step h (HBegin a) = Some (h', ps)"
  shows "host_ok D h' \<and> (\<forall>p \<in> set ps. V p)"
proof -
  obtain s' op ch where b: "begin_call (engineOf h) a = (s', op, ch, ps)" and may: "may_begin h a"
    and h': "h' = h\<lparr>engineOf := s', clients := clients h @ [\<lparr>callOf = a, opOf = op, chanOf = ch,
      phaseOf = Waiting, snapshotOf = live s'\<rparr>]\<rparr>"
    using st by (auto split: if_splits prod.splits)
  have bg: "begun (engineOf h) a s' op ch" "\<forall>p \<in> set ps. V p"
    using begin_call_begun [OF host_okD(1,2) [OF h] _ _ b] ev host_okD(2) [OF h]
    by (auto simp: opID_bound own_count_bound split: call.splits)
  let ?c = "\<lparr>callOf = a, opOf = op, chanOf = ch, phaseOf = Waiting, snapshotOf = live s'\<rparr>"
  note old = begun_client_ok [OF h bg(1)] and new = begun_new_client [OF h bg(1)]
  have "distinct (map chanOf (clients h @ [?c]))" using host_okD(5) [OF h] old(2) by fastforce
  moreover have "sync_alone (clients h @ [?c])"
    using may host_okD(7) [OF h] unfolding sync_alone_def may_begin_def by auto
  moreover have "engine_ok V s'" "engineId s' = n" using bg(1) host_okD(2) [OF h] by (auto simp: begun_def)
  ultimately show ?thesis
    using bg(2) h old(1) new by (simp add: host_ok_def clients_ok_def h' Ball_def)
qed

text \<open>Sections of one caller: the others keep their channel.\<close>

lemma clients_update:
  assumes h: "host_ok D h" and k: "k < length (clients h)"
    and new: "client_ok D s' (c\<lparr>phaseOf := p\<rparr>)" "c = clients h ! k" "in_flight c"
    and old: "\<And>c'. c' \<in> set (clients h) \<Longrightarrow> chanOf c' \<noteq> chanOf c \<Longrightarrow> client_ok D s' c'"
  shows "clients_ok D (h\<lparr>engineOf := s', clients := (clients h)[k := c\<lparr>phaseOf := p\<rparr>]\<rparr>)"
proof -
  let ?cs = "(clients h)[k := c\<lparr>phaseOf := p\<rparr>]"
  have other: "c' \<in> set (clients h) \<and> chanOf c' \<noteq> chanOf c \<or> c' = c\<lparr>phaseOf := p\<rparr>" if "c' \<in> set ?cs" for c'
  proof -
    have "chanOf (clients h ! j) \<noteq> chanOf (clients h ! k)" if "j < length (clients h)" "j \<noteq> k" for j
      using host_okD(5) [OF h] that k by (auto simp: distinct_conv_nth)
    then show ?thesis using in_set_update [OF that] new(2) by auto
  qed
  have c: "c \<in> set (clients h)" using k new(2) by simp
  have "map chanOf ?cs = map chanOf (clients h)"
    using k new(2) by (simp add: map_update list_update_same_conv)
  then have "distinct (map chanOf ?cs)" using host_okD(5) [OF h] by simp
  moreover have "client_ok D s' c'" if "c' \<in> set ?cs" for c'
    using other [OF that] old new(1) by blast
  moreover have "sync_alone ?cs"
  proof -
    have "\<exists>x0 \<in> set (clients h). callOf x0 = callOf x \<and> in_flight x0" if "x \<in> set ?cs" "in_flight x" for x
      using other [OF that(1)] that(2) c new(3) by auto
    then show ?thesis using host_okD(7) [OF h] unfolding sync_alone_def by metis
  qed
  ultimately show ?thesis unfolding clients_ok_def by simp
qed

lemma own_update:
  assumes "host_ok D h" "k < length (clients h)"
  shows "\<forall>x \<in> set ((clients h)[k := (clients h ! k)\<lparr>phaseOf := p\<rparr>]). own_increment n x"
  using in_set_update [where xs = "clients h"] host_okD(9) [OF assms(1)] assms(2) by fastforce

lemma wake_ok:
  assumes h: "host_ok D h" and st: "host_step h (HWake k t) = Some (h', ps)"
  shows "host_ok D h' \<and> ps = []"
proof -
  let ?s = "engineOf h"
  define c where "c = clients h ! k"
  obtain s' r where k: "k < length (clients h)" and w: "waitForLearn t ?s (chanOf c) = Some (s', r)"
    and h': "h' = h\<lparr>engineOf := s', clients := (clients h)[k := c\<lparr>phaseOf := Woken r\<rparr>]\<rparr>"
    and ps: "ps = []" and wt: "phaseOf c = Waiting"
    using st by (auto simp: c_def split: if_splits option.splits prod.splits)
  have c: "client_ok D ?s c" using host_okD(6) [OF h] k by (simp add: c_def)
  have s': "objects s' = objects ?s" "pending s' = pending ?s" "localCounters s' = localCounters ?s"
    "engineId s' = engineId ?s" "length (doneChans s') = length (doneChans ?s)"
    "\<And>d. d \<noteq> chanOf c \<Longrightarrow> doneChans s' ! d = doneChans ?s ! d"
    "\<And>v. doneChans s' ! chanOf c = Some v \<Longrightarrow> doneChans ?s ! chanOf c = Some v"
    "\<And>v. r = Some v \<Longrightarrow> doneChans ?s ! chanOf c = Some v"
    using w c by (auto simp: waitForLearn_def client_ok_def nth_list_update split: if_splits option.splits)
  have "client_ok D s' (c\<lparr>phaseOf := Woken r\<rparr>)"
    using c s' by (auto simp: client_ok_def entry_ok_def answered_def)
  moreover have "client_ok D s' c'" if "c' \<in> set (clients h)" "chanOf c' \<noteq> chanOf c" for c'
    using host_okD(6) [OF h that(1)] s' that(2) by (simp add: client_ok_def entry_ok_def)
  moreover have "engine_ok V s'" "\<forall>v. r = Some v \<longrightarrow> V v"
    using wait_ok [OF host_okD(1) [OF h] w] c by (simp_all add: client_ok_def)
  moreover have "\<forall>x \<in> set ((clients h)[k := c\<lparr>phaseOf := Woken r\<rparr>]). \<forall>v. phaseOf x = Woken (Some v) \<longrightarrow> V v"
    using in_set_update [where xs = "clients h"] host_okD(8) [OF h] calculation(4) by fastforce
  moreover have "\<forall>x \<in> set ((clients h)[k := c\<lparr>phaseOf := Woken r\<rparr>]). own_increment n x"
    using own_update [OF h k] by (simp add: c_def)
  ultimately show ?thesis
    using clients_update [OF h k, where s' = s' and c = c and p = "Woken r", OF _ c_def] wt h s'(4)
    by (simp add: h' ps host_ok_def in_flight_def)
qed

lemma finish_call_facts:
  fixes c
  assumes "engine_ok V s" "\<forall>v. r = Some v \<longrightarrow> V v"
  defines "s' \<equiv> finish_call s c r"
  shows "engine_ok V s'" "engineId s' = engineId s" "doneChans s' = doneChans s"
    "x \<in> set (pending s') \<Longrightarrow> x \<in> set (pending s) \<and> objects s' ! proposedRef (snd x) = objects s ! proposedRef (snd x)"
    "localCounters s' = localCounters s \<or> is_sync (callOf c)"
    "\<not> is_sync (callOf c) \<Longrightarrow> x \<in> set (pending s') \<Longrightarrow> fst x \<noteq> opOf c"
proof -
  show "engine_ok V s'" using assms(1,2) unregister_ok sync_end_ok by (simp add: s'_def finish_call_def)
  show "x \<in> set (pending s') \<Longrightarrow> x \<in> set (pending s) \<and> objects s' ! proposedRef (snd x) = objects s ! proposedRef (snd x)"
    using engine_okD(5) [OF assms(1), of x]
    by (auto simp: s'_def finish_call_def sync_end_def unregisterPending_def gm_delete_def pending_ok_def
        nth_append split: option.splits if_splits)
qed (auto simp: s'_def finish_call_def sync_end_def unregisterPending_def gm_delete_def
    split: option.splits)

lemma return_ok:
  assumes h: "host_ok D h" and st: "host_step h (HReturn k) = Some (h', ps)"
  shows "host_ok D h' \<and> ps = []"
proof -
  let ?s = "engineOf h"
  define c where "c = clients h ! k"
  obtain r where k: "k < length (clients h)" and wk: "phaseOf c = Woken r" and ps: "ps = []"
    using st by (auto simp: c_def Let_def split: if_splits phase.splits)
  let ?q = "call_result (callOf c) r" and ?s' = "finish_call ?s c r"
  have h': "engineOf h' = ?s'" "clients h' = (clients h)[k := c\<lparr>phaseOf := Returned ?q\<rparr>]" "toPropose h' = toPropose h"
    using st k wk by (auto simp: c_def Let_def)
  have c: "client_ok D ?s c" and mem: "c \<in> set (clients h)" using host_okD(6) [OF h] k by (simp_all add: c_def)
  have "\<forall>v. r = Some v \<longrightarrow> V v" using host_okD(8) [OF h mem] wk by simp
  note f = finish_call_facts [OF host_okD(1) [OF h] this]
  have keep: "client_ok D ?s' c'" if c': "c' \<in> set (clients h)" for c'
  proof (rule client_ok_step [OF host_okD(6) [OF h c']])
    show "localCounters ?s' = localCounters ?s \<or> is_sync (callOf c') \<or> \<not> in_flight c'"
      using f(5) [of c] host_okD(7) [OF h mem c'] wk by (auto simp: in_flight_def)
  qed (use host_okD(6) [OF h c'] f(3,4) in \<open>auto simp: client_ok_def\<close>)
  have "phase_ok D c (Returned ?q)"
    using c wk by (cases r; cases "callOf c") (auto simp: client_ok_def op_result_def)
  moreover have "in_flight c" "phaseOf (c\<lparr>phaseOf := Returned ?q\<rparr>) = Returned ?q" using wk by (simp_all add: in_flight_def)
  moreover have "is_sync (callOf c)" if "x \<in> set (pending ?s')" "doneChan (snd x) = chanOf c" for x
    using f(4) [of x c] f(6) [of c x] that c by (auto simp: client_ok_def entry_ok_def)
  ultimately have "client_ok D ?s' (c\<lparr>phaseOf := Returned ?q\<rparr>)"
    using keep [OF mem] by (auto simp: client_ok_def entry_ok_def answered_def)
  moreover have "\<forall>x \<in> set (clients h'). \<forall>v. phaseOf x = Woken (Some v) \<longrightarrow> V v"
    using in_set_update [where xs = "clients h"] host_okD(8) [OF h] by (fastforce simp: h')
  moreover have "\<forall>x \<in> set (clients h'). own_increment n x"
    using own_update [OF h k] by (simp add: c_def h')
  ultimately show ?thesis
    using clients_update [OF h k, where s' = ?s' and c = c and p = "Returned ?q", OF _ c_def \<open>in_flight c\<close> keep]
      h f(1,2) by (simp add: host_ok_def clients_ok_def h' ps)
qed

lemma client_ok_frame:
  "objects s' = objects s \<Longrightarrow> pending s' = pending s \<Longrightarrow> localCounters s' = localCounters s \<Longrightarrow>
   doneChans s' = doneChans s \<Longrightarrow> client_ok D s' c = client_ok D s c"
  by (simp add: client_ok_def entry_ok_def)

lemma background_ok:
  assumes h: "host_ok D h" and st: "host_step h e = Some (h', ps)"
    and e: "\<And>a. e \<noteq> HBegin a" "\<And>k t. e \<noteq> HWake k t" "\<And>k. e \<noteq> HReturn k"
  shows "host_ok D h' \<and> (\<forall>p \<in> set ps. V p)"
proof -
  let ?s = "engineOf h" and ?s' = "engineOf h'"
  have same: "clients h' = clients h" "objects ?s' = objects ?s" "pending ?s' = pending ?s"
    "localCounters ?s' = localCounters ?s" "doneChans ?s' = doneChans ?s" "engineId ?s' = engineId ?s"
    using st e
    by (cases e; auto simp: flush_def Engine_Stop_def split: if_splits option.splits sum.splits
        elim!: flusher.elims)+
  have "engine_ok V ?s' \<and> (\<forall>p. toPropose h' = Some p \<longrightarrow> V p) \<and> (\<forall>p \<in> set ps. V p)"
  proof (cases e)
    case (HFlusher c)
    then obtain go where "flusher ?s c = Some (?s', toPropose h', go)" "ps = []"
      using st by (auto split: if_splits option.splits)
    then show ?thesis
      using flusher_ok [OF host_okD(1) [OF h]] engine_okD(2) [OF host_okD(1) [OF h]] by auto
  next
    case HStop
    then show ?thesis
      using st h by (auto simp: host_ok_def Engine_Stop_def split: if_splits)
  qed (use st e h in \<open>auto simp: host_ok_def split: if_splits option.splits\<close>)
  moreover have "clients_ok D h'"
    using host_okD(3) [OF h] client_ok_frame [OF same(2,3,4,5)] by (simp add: clients_ok_def same(1))
  ultimately show ?thesis
    using h same(1,6) by (simp add: host_ok_def)
qed

lemma host_step_ok:
  assumes "host_ok D h" "host_event_ok h e" "host_step h e = Some (h', ps)"
  shows "host_ok D h' \<and> (\<forall>p \<in> set ps. V p)"
proof (cases e)
  case (HBegin a)
  then show ?thesis using begin_ok assms by blast
next
  case (HWake k t)
  then show ?thesis using wake_ok assms by fastforce
next
  case (HReturn k)
  then show ?thesis using return_ok assms by fastforce
qed (use background_ok [OF assms(1,3)] in simp_all)

lemma merged_grows:
  assumes "engine_ok V s" "Q v"
  shows "CounterMap_rep (objects s ! r) \<le> CounterMap_rep (objects (merged s v) ! r)"
    "CounterMap_rep (live (merged s v)) = sup (CounterMap_rep (live s)) (CounterMap_rep v)"
proof -
  have rep: "CounterMap_rep (CounterMap_MergeInPlace (live s) v) = sup (CounterMap_rep (live s)) (CounterMap_rep v)"
    by (rule CounterMap_Merge_rep) (rule Q_wf [OF assms(2)])
  then show "CounterMap_rep (live (merged s v)) = sup (CounterMap_rep (live s)) (CounterMap_rep v)"
    using engine_okD(1) [OF assms(1)] by (simp add: merged_def)
  show "CounterMap_rep (objects s ! r) \<le> CounterMap_rep (objects (merged s v) ! r)"
    using rep engine_okD(1) [OF assms(1)]
    by (cases "r = localCounters s") (simp_all add: merged_def live_def)
qed

lemma signalled_answers:
  assumes ok: "engine_ok V s" "Q v" "D v"
    and x: "x \<in> set (pending s)" "entry_ok s c x" "signalled v (merged s v) x"
  shows "answered D c (live (merged s v))"
proof -
  let ?m = "merged s v"
  have wf: "CounterMap_wf (live ?m)"
    using V_wf [OF engine_okD(2) [OF engine_ok_set_live [OF ok(1) V_Merge [OF engine_okD(2) [OF ok(1)] ok(2)]]]]
    by (simp add: merged_def)
  have "V (objects ?m ! proposedRef (snd x))"
    using engine_okD(4) [of V ?m "proposedRef (snd x)"] engine_okD(5) [OF ok(1) x(1)]
      engine_ok_set_live [OF ok(1) V_Merge [OF engine_okD(2) [OF ok(1)] ok(2)]]
    by (simp add: pending_ok_def merged_def)
  then have le: "CounterMap_rep (objects ?m ! proposedRef (snd x)) \<le> CounterMap_rep v"
    using x(3) CounterMap_IsIn_iff [OF V_wf Q_wf [OF ok(2)]] by (simp add: signalled_def)
  moreover have "CounterMap_rep (snapshotOf c) \<le> CounterMap_rep v"
    using x(2) merged_grows(1) [OF ok(1,2), of "proposedRef (snd x)"] le
    by (auto simp: entry_ok_def intro: order_trans)
  moreover have "CounterMap_rep (live ?m) \<le> CounterMap_rep v" if "\<not> is_sync (callOf c)"
    using le x(2) that by (simp add: entry_ok_def live_def merged_def)
  ultimately show ?thesis
    using ok(3) wf merged_grows(2) [OF ok(1,2)] unfolding answered_def
    by (intro conjI exI [of _ v]) (auto intro: antisym)
qed

lemma host_learn_ok:
  assumes h: "host_ok D h" and v: "Q v" "D v"
  shows "host_ok D (host_learn h v)"
proof -
  let ?s = "engineOf h" and ?s' = "onLearn (engineOf h) v"
  note ok = host_okD(1) [OF h]
  note res = onLearn_result [OF ok, of v]
  have "client_ok D ?s' c" if c: "c \<in> set (clients h)" for c
  proof (rule client_ok_step [OF host_okD(6) [OF h c]])
    have cl: "chanOf c < length (doneChans ?s)"
      using host_okD(6) [OF h c] by (simp add: client_ok_def)
    then show "chanOf c < length (doneChans ?s')" by (simp add: res)
    note dc = onLearn_chan [OF ok cl, of v]
    show "answered D c w" if w: "doneChans ?s' ! chanOf c = Some w" for w
    proof (cases "\<exists>x \<in> set (pending ?s). doneChan (snd x) = chanOf c \<and> signalled v (merged ?s v) x")
      case True
      then obtain x where x: "x \<in> set (pending ?s)" "doneChan (snd x) = chanOf c" "signalled v (merged ?s v) x"
        by blast
      have "w = CounterMap_Copy (live (merged ?s v))" using w True unfolding dc by simp
      also have "\<dots> = live (merged ?s v)"
        using engine_okD(2) [OF engine_ok_set_live [OF ok V_Merge [OF engine_okD(2) [OF ok] v(1)]]]
        by (simp add: merged_def)
      finally show ?thesis
        using signalled_answers [where D = D and c = c, OF ok v x(1) _ x(3)] host_okD(6) [OF h c] x by (simp add: client_ok_def)
    next
      case False
      then have "doneChans ?s ! chanOf c = Some w" using w unfolding dc by (simp only: if_False)
      then show ?thesis using host_okD(6) [OF h c] by (simp add: client_ok_def)
    qed
    show "localCounters ?s' = localCounters ?s \<or> is_sync (callOf c) \<or> \<not> in_flight c"
      by (simp add: res merged_def)
  qed (use merged_grows(1) [OF ok v(1)] in \<open>auto simp: res merged_def\<close>)
  moreover have "engineId ?s' = engineId ?s" by (simp add: res merged_def)
  ultimately show ?thesis
    using h onLearn_ok [OF ok v(1)] by (simp add: host_ok_def host_learn_def clients_ok_def)
qed

lemma host_ok_mono: "host_ok D h \<Longrightarrow> (\<And>d. D d \<Longrightarrow> D' d) \<Longrightarrow> host_ok D' h"
  using clients_ok_mono [of D h D'] by (simp add: host_ok_def)

end

end
