(* ===== verification/Protocol.thy ===== *)
theory Protocol
  imports Lattice GCounter
begin

text \<open>
  \<open>internal/protocol\<close>: the wire messages, and what the roles of
  \<open>internal/latticeagreement\<close> do to the outside: calls of the \<open>Network\<close> interface, and
  the learn callback, each started in its own goroutine. A handler returns its effects in the
  order the code starts them. The payload value is an interface and may be nil (\<open>None\<close>).
\<close>

type_synonym CommandType = byte

definition Propose :: CommandType where "Propose = 0"
definition Ack :: CommandType where "Ack = 1"
definition Nack :: CommandType where "Nack = 2"
definition Learn :: CommandType where "Learn = 3"

record 'v Command =
  Type :: CommandType
  Value :: "'v option"
  SeqNumber :: uint64

record 'v Message =
  Sender :: NodeId
  Payload :: "'v Command"

definition NewMessage :: "NodeId \<Rightarrow> 'v Command \<Rightarrow> 'v Message" where
  "NewMessage sender cmd = \<lparr>Sender = sender, Payload = cmd\<rparr>"

definition command :: "CommandType \<Rightarrow> 'v \<Rightarrow> 'v Command" where
  "command t v = \<lparr>Type = t, Value = Some v, SeqNumber = 0\<rparr>"

datatype 'v effect =
    Broadcast "'v Message"
  | BroadcastToOthers "'v Message" NodeId
  | Send NodeId "'v Message"
  | OnLearn 'v

lemmas command_types = Propose_def Ack_def Nack_def Learn_def

lemma command_types_distinct [simp]:
  "Propose \<noteq> Ack" "Propose \<noteq> Nack" "Propose \<noteq> Learn" "Ack \<noteq> Propose" "Ack \<noteq> Nack" "Ack \<noteq> Learn"
  "Nack \<noteq> Propose" "Nack \<noteq> Ack" "Nack \<noteq> Learn" "Learn \<noteq> Propose" "Learn \<noteq> Ack" "Learn \<noteq> Nack"
  by (simp_all add: command_types)

lemma command_simps [simp]:
  "Type (command t v) = t" "Value (command t v) = Some v" "SeqNumber (command t v) = 0"
  by (simp_all add: command_def)

lemma NewMessage_simps [simp]:
  "Sender (NewMessage s c) = s" "Payload (NewMessage s c) = c"
  by (simp_all add: NewMessage_def)

end
