(* ===== verification/Proposer.thy ===== *)
theory Proposer
  imports Protocol CounterMap
begin

text \<open>
  \<open>internal/latticeagreement/proposer.go\<close>. Every exported method holds the mutex, so it is
  a function on the proposer's state; the broadcasts it starts are its effects. A nil value in an
  \<open>ACK\<close> or \<open>NACK\<close> panics: the code calls a method of it or type-asserts it.
\<close>

record 'v Proposer =
  prop_nodeId :: NodeId
  peers :: "(NodeId, string) gomap"
  quorumSize :: nat
  quorumReached :: bool
  acksReceived :: "bool list"
  proposedValue :: 'v
  bufferedValue :: 'v

definition NewProposer :: "NodeId \<Rightarrow> 'v \<Rightarrow> (NodeId, string) gomap \<Rightarrow> 'v Proposer" where
  "NewProposer nodeId initialValue ps =
     \<lparr>prop_nodeId = nodeId, peers = ps, quorumSize = length ps div 2 + 1, quorumReached = False,
      acksReceived = [], proposedValue = initialValue, bufferedValue = initialValue\<rparr>"

definition Proposer_Propose :: "'v Lattice \<Rightarrow> 'v Proposer \<Rightarrow> 'v \<Rightarrow> 'v Proposer \<times> 'v effect list" where
  "Proposer_Propose L p v =
     (let p = p\<lparr>quorumReached := False\<rparr>;
          p = p\<lparr>acksReceived := []\<rparr>;
          p = p\<lparr>proposedValue := Join L (bufferedValue p) v\<rparr>;
          p = p\<lparr>bufferedValue := proposedValue p\<rparr>;
          msg = \<lparr>Sender = prop_nodeId p, Payload = command Propose (proposedValue p)\<rparr>
      in (p, [Broadcast msg]))"

fun noNacks :: "bool list \<Rightarrow> bool" where
  "noNacks [] = True"
| "noNacks (ack # acks) = (if \<not> ack then False else noNacks acks)"

definition checkAndHandleQuorum :: "'v Proposer \<Rightarrow> 'v Proposer \<times> 'v effect list" where
  "checkAndHandleQuorum p =
     (if quorumReached p then (p, [])
      else if length (acksReceived p) \<ge> quorumSize p then
        (let p = p\<lparr>quorumReached := True\<rparr> in
         if noNacks (acksReceived p) then
           (p, [Broadcast \<lparr>Sender = prop_nodeId p, Payload = command Learn (proposedValue p)\<rparr>])
         else
           (let p = p\<lparr>proposedValue := bufferedValue p\<rparr>;
                p = p\<lparr>acksReceived := []\<rparr>;
                p = p\<lparr>quorumReached := False\<rparr>
            in (p, [Broadcast \<lparr>Sender = prop_nodeId p, Payload = command Propose (proposedValue p)\<rparr>])))
      else (p, []))"

definition Proposer_HandleAck ::
    "'v Lattice \<Rightarrow> 'v Proposer \<Rightarrow> 'v Message \<Rightarrow> go_panic + 'v Proposer \<times> 'v effect list" where
  "Proposer_HandleAck L p msg =
     (case Value (Payload msg) of
        None \<Rightarrow> Inl NilDereference
      | Some v \<Rightarrow>
          if Equals L v (proposedValue p) then
            Inr (checkAndHandleQuorum (p\<lparr>acksReceived := acksReceived p @ [True]\<rparr>))
          else Inr (p, []))"

definition Proposer_HandleNack ::
    "'v Lattice \<Rightarrow> 'v Proposer \<Rightarrow> 'v Message \<Rightarrow> go_panic + 'v Proposer \<times> 'v effect list" where
  "Proposer_HandleNack L p msg =
     (case Value (Payload msg) of
        None \<Rightarrow> Inl NilDereference
      | Some v \<Rightarrow>
          if IsIn L (proposedValue p) v then
            Inr (checkAndHandleQuorum
              (p\<lparr>acksReceived := acksReceived p @ [False],
                bufferedValue := Join L (bufferedValue p) v\<rparr>))
          else Inr (p, []))"

lemma noNacks_iff: "noNacks acks \<longleftrightarrow> (\<forall>a \<in> set acks. a)"
  by (induction acks) auto

section \<open>One round\<close>

text \<open>A list of replies handled one after the other; the effects are collected in order.\<close>

fun handle_acks ::
    "'v Lattice \<Rightarrow> 'v Proposer \<Rightarrow> 'v Message list \<Rightarrow> go_panic + 'v Proposer \<times> 'v effect list" where
  "handle_acks L p [] = Inr (p, [])"
| "handle_acks L p (m # ms) =
     (case Proposer_HandleAck L p m of
        Inl e \<Rightarrow> Inl e
      | Inr (p', es) \<Rightarrow>
          (case handle_acks L p' ms of Inl e \<Rightarrow> Inl e | Inr (p'', es') \<Rightarrow> Inr (p'', es @ es')))"

definition ack_for :: "'v Lattice \<Rightarrow> 'v Proposer \<Rightarrow> 'v Message \<Rightarrow> bool" where
  "ack_for L p m \<longleftrightarrow> (\<exists>v. Value (Payload m) = Some v \<and> Equals L v (proposedValue p))"

definition acks_only :: "'v Proposer \<Rightarrow> bool" where
  "acks_only p \<longleftrightarrow> (\<forall>a \<in> set (acksReceived p). a) \<and>
     quorumReached p = (quorumSize p \<le> length (acksReceived p))"

lemma HandleAck_acks_only:
  assumes "ack_for L p m" "acks_only p" "0 < quorumSize p"
  shows "\<exists>p'. Proposer_HandleAck L p m =
      Inr (p', if Suc (length (acksReceived p)) = quorumSize p
               then [Broadcast \<lparr>Sender = prop_nodeId p, Payload = command Learn (proposedValue p)\<rparr>] else [])
    \<and> acks_only p' \<and> length (acksReceived p') = Suc (length (acksReceived p))
    \<and> quorumSize p' = quorumSize p \<and> proposedValue p' = proposedValue p \<and> prop_nodeId p' = prop_nodeId p"
  using assms
  by (auto simp: ack_for_def acks_only_def Proposer_HandleAck_def checkAndHandleQuorum_def Let_def
      noNacks_iff)

lemma handle_acks_round:
  assumes "list_all (ack_for L p) ms" "acks_only p" "0 < quorumSize p"
  shows "\<exists>p'. handle_acks L p ms =
      Inr (p', if length (acksReceived p) < quorumSize p \<and> quorumSize p \<le> length (acksReceived p) + length ms
               then [Broadcast \<lparr>Sender = prop_nodeId p, Payload = command Learn (proposedValue p)\<rparr>] else [])
    \<and> proposedValue p' = proposedValue p"
  using assms
proof (induction ms arbitrary: p)
  case (Cons m ms)
  obtain p1 where p1: "Proposer_HandleAck L p m =
      Inr (p1, if Suc (length (acksReceived p)) = quorumSize p
               then [Broadcast \<lparr>Sender = prop_nodeId p, Payload = command Learn (proposedValue p)\<rparr>] else [])"
    "acks_only p1" "length (acksReceived p1) = Suc (length (acksReceived p))"
    "quorumSize p1 = quorumSize p" "proposedValue p1 = proposedValue p" "prop_nodeId p1 = prop_nodeId p"
    using HandleAck_acks_only [of L p m] Cons.prems by auto
  have "list_all (ack_for L p1) ms"
    using Cons.prems(1) p1(5) by (simp add: ack_for_def list_all_iff)
  from Cons.IH [OF this p1(2)] Cons.prems(3) p1 show ?case by auto
qed simp

section \<open>Properties\<close>



text \<open>
  C30: a refusal whose value is not already below the proposal makes the proposer move
  strictly up: when it completes a quorum, the new proposal is the join of what was buffered with
  the refusing acceptor's value, and lies strictly above the old one; the round restarts with no
  replies counted and one \<open>PROPOSE\<close> broadcast.
\<close>

theorem fresh_nack_moves_up:
  assumes "CounterMap_ok N (proposedValue p)" "CounterMap_ok N (bufferedValue p)" "CounterMap_ok N v"
    and "\<not> quorumReached p" "quorumSize p \<le> Suc (length (acksReceived p))"
    and "Value (Payload m) = Some v" "CounterMap_StrictlyIsIn (proposedValue p) v"
  shows "\<exists>p'. Proposer_HandleNack CounterMap_Lattice p m =
      Inr (p', [Broadcast \<lparr>Sender = prop_nodeId p, Payload = command Propose (proposedValue p')\<rparr>]) \<and>
    proposedValue p' = CounterMap_Join (bufferedValue p) v \<and>
    CounterMap_StrictlyIsIn (proposedValue p) (proposedValue p') \<and>
    acksReceived p' = [] \<and> \<not> quorumReached p'"
proof -
  have lt: "CounterMap_rep (proposedValue p) < CounterMap_rep v"
    using assms(1,3,7) by (simp add: CounterMap_StrictlyIsIn_iff [of N])
  have inin: "CounterMap_IsIn (proposedValue p) v"
    using assms(7) by (simp add: CounterMap_StrictlyIsIn_def)
  have up: "CounterMap_StrictlyIsIn (proposedValue p) (CounterMap_Join (bufferedValue p) v)"
    using lt assms(1-3)
    by (simp add: CounterMap_StrictlyIsIn_iff [of N] CounterMap_Join_Merge CounterMap_ok_wf
        CounterMap_Merge_ok CounterMap_Merge_rep less_supI2)
  show ?thesis
    using assms(4-6) inin up
    by (simp add: Proposer_HandleNack_def CounterMap_Lattice_def checkAndHandleQuorum_def Let_def noNacks_iff)
qed

theorem fresh_nack_moves_up_witness:
  "let b = NewCounterMap [''N1'', ''N2'']; w = CounterMap_IncrementKey b ''k'' ''N2'' 1;
       p = NewProposer ''N1'' b [(''N1'', ''a'')]
   in \<exists>p'. Proposer_HandleNack CounterMap_Lattice p (NewMessage ''N2'' (command Nack w)) =
        Inr (p', [Broadcast \<lparr>Sender = ''N1'', Payload = command Propose (proposedValue p')\<rparr>]) \<and>
      CounterMap_StrictlyIsIn (proposedValue p) (proposedValue p')"
proof -
  let ?b = "NewCounterMap [''N1'', ''N2'']"
  let ?w = "CounterMap_IncrementKey ?b ''k'' ''N2'' 1"
  let ?p = "NewProposer ''N1'' ?b [(''N1'', ''a'')]"
  have ok: "CounterMap_ok {''N1'', ''N2''} ?w" by code_simp
  have lt: "CounterMap_StrictlyIsIn ?b ?w" by code_simp
  have "\<exists>p'. Proposer_HandleNack CounterMap_Lattice ?p (NewMessage ''N2'' (command Nack ?w)) =
      Inr (p', [Broadcast \<lparr>Sender = prop_nodeId ?p, Payload = command Propose (proposedValue p')\<rparr>]) \<and>
    proposedValue p' = CounterMap_Join (bufferedValue ?p) ?w \<and>
    CounterMap_StrictlyIsIn (proposedValue ?p) (proposedValue p') \<and>
    acksReceived p' = [] \<and> \<not> quorumReached p'"
    by (rule fresh_nack_moves_up [OF _ _ ok]) (use lt in \<open>simp_all add: NewProposer_def\<close>)
  then show ?thesis by (auto simp: Let_def NewProposer_def)
qed

text \<open>
  A late refusal need not move the proposal up. A \<open>NACK\<close> left over from the previous
  round, carrying the very value now proposed, is counted; with one acknowledgement it completes a
  quorum of two, and the proposer broadcasts the same proposal again.
\<close>

theorem stale_nack_repeats_proposal:
  "let L = CounterMap_Lattice; b = NewCounterMap [''N1'', ''N2''];
       w = CounterMap_IncrementKey b ''k'' ''N1'' 1;
       p0 = NewProposer ''N1'' b [(''N1'', ''a''), (''N2'', ''b''), (''N3'', ''c'')];
       p1 = fst (Proposer_Propose L p0 w)
   in \<exists>p2 p3. Proposer_HandleNack L p1 (NewMessage ''N2'' (command Nack w)) = Inr (p2, []) \<and>
        Proposer_HandleAck L p2 (NewMessage ''N3'' (command Ack w)) =
          Inr (p3, [Broadcast \<lparr>Sender = ''N1'', Payload = command Propose (proposedValue p3)\<rparr>]) \<and>
        CounterMap_Equals (proposedValue p3) (proposedValue p1)"
proof -
  let ?b = "NewCounterMap [''N1'', ''N2'']"
  let ?w = "CounterMap_IncrementKey ?b ''k'' ''N1'' 1"
  let ?ps = "[(''N1'', ''a''), (''N2'', ''b''), (''N3'', ''c'')]"
  define p where "p = NewProposer ''N1'' ?w ?ps"
  have p1: "fst (Proposer_Propose CounterMap_Lattice (NewProposer ''N1'' ?b ?ps) ?w) = p"
    unfolding p_def by code_simp
  have "Proposer_HandleNack CounterMap_Lattice p (NewMessage ''N2'' (command Nack ?w)) =
      Inr (p\<lparr>acksReceived := [False]\<rparr>, [])"
    unfolding p_def by code_simp
  moreover have "Proposer_HandleAck CounterMap_Lattice (p\<lparr>acksReceived := [False]\<rparr>)
      (NewMessage ''N3'' (command Ack ?w)) =
      Inr (p, [Broadcast \<lparr>Sender = ''N1'', Payload = command Propose (proposedValue p)\<rparr>])"
    unfolding p_def by code_simp
  moreover have "CounterMap_Equals (proposedValue p) (proposedValue p)"
    unfolding p_def by code_simp
  ultimately show ?thesis unfolding Let_def p1 by blast
qed

end
