(* ===== verification/Acceptor.thy ===== *)
theory Acceptor
  imports Protocol CounterMap
begin

text \<open>
  \<open>internal/latticeagreement/acceptor.go\<close>. The mutex makes \<open>HandlePropose\<close> atomic, so
  it is a function on the acceptor's state.
\<close>

record 'v Acceptor =
  acc_nodeId :: NodeId
  acceptedValue :: 'v

definition NewAcceptor :: "'v \<Rightarrow> NodeId \<Rightarrow> 'v Acceptor" where
  "NewAcceptor bottom nodeId = \<lparr>acc_nodeId = nodeId, acceptedValue = bottom\<rparr>"

definition Acceptor_HandlePropose ::
    "'v Lattice \<Rightarrow> 'v Acceptor \<Rightarrow> 'v Message \<Rightarrow> 'v Acceptor \<times> 'v effect list" where
  "Acceptor_HandlePropose L a msg =
     (case Value (Payload msg) of
        None \<Rightarrow> (a, [])
      | Some v \<Rightarrow>
          if IsIn L (acceptedValue a) v then
            (let a' = a\<lparr>acceptedValue := v\<rparr>;
                 replyMsg = \<lparr>Sender = acc_nodeId a, Payload = command Ack v\<rparr>
             in (a', [Send (Sender msg) replyMsg]))
          else
            (let a' = a\<lparr>acceptedValue := Join L (acceptedValue a) v\<rparr>;
                 replyMsg = \<lparr>Sender = acc_nodeId a, Payload = command Nack (acceptedValue a')\<rparr>
             in (a', [Send (Sender msg) replyMsg])))"

lemma NewAcceptor_simps [simp]:
  "acc_nodeId (NewAcceptor b i) = i" "acceptedValue (NewAcceptor b i) = b"
  by (simp_all add: NewAcceptor_def)

context join_order
begin

lemma HandlePropose_accepted:
  assumes "ok (acceptedValue a)" "Value (Payload msg) = Some v" "ok v"
    and "Acceptor_HandlePropose L a msg = (a', es)"
  shows "ok (acceptedValue a')"
    and "rep (acceptedValue a') = sup (rep (acceptedValue a)) (rep v)"
    and "acc_nodeId a' = acc_nodeId a"
  using assms
  by (auto simp: Acceptor_HandlePropose_def Let_def order_laws sup_absorb2 split: if_splits)

lemma HandlePropose_reply:
  assumes "ok (acceptedValue a)" "Value (Payload msg) = Some v" "ok v"
    and "Acceptor_HandlePropose L a msg = (a', es)"
  shows "(rep (acceptedValue a) \<le> rep v \<and> acceptedValue a' = v \<and>
          es = [Send (Sender msg) \<lparr>Sender = acc_nodeId a, Payload = command Ack v\<rparr>]) \<or>
         (\<not> rep (acceptedValue a) \<le> rep v \<and>
          es = [Send (Sender msg) \<lparr>Sender = acc_nodeId a, Payload = command Nack (acceptedValue a')\<rparr>])"
  using assms by (auto simp: Acceptor_HandlePropose_def Let_def order_laws split: if_splits)

end

section \<open>Properties\<close>

text \<open>
  C34: the acceptor's contract on every branch. A nil value changes nothing and sends nothing;
  otherwise the accepted value becomes the join of the old one and the proposal, exactly one reply
  goes to the proposal's sender, it is an \<open>ACK\<close> of the proposal when the old value is in the
  proposal and a \<open>NACK\<close> otherwise, and it carries the new accepted value.
\<close>

theorem acceptor_contract:
  assumes "CounterMap_wf (acceptedValue a)" "\<forall>v. Value (Payload msg) = Some v \<longrightarrow> CounterMap_wf v"
  shows "\<exists>a' es. Acceptor_HandlePropose CounterMap_Lattice a msg = (a', es) \<and>
    (case Value (Payload msg) of
       None \<Rightarrow> a' = a \<and> es = []
     | Some v \<Rightarrow>
         CounterMap_rep (acceptedValue a') = sup (CounterMap_rep (acceptedValue a)) (CounterMap_rep v) \<and>
         es = [Send (Sender msg) \<lparr>Sender = acc_nodeId a,
                 Payload = command (if CounterMap_IsIn (acceptedValue a) v then Ack else Nack)
                   (acceptedValue a')\<rparr>])"
proof (cases "Value (Payload msg)")
  case None
  then show ?thesis by (simp add: Acceptor_HandlePropose_def)
next
  case (Some v)
  have v: "CounterMap_wf v" using assms(2) Some by simp
  obtain a' es where h: "Acceptor_HandlePropose CounterMap_Lattice a msg = (a', es)" by force
  note r = countermap_order.HandlePropose_accepted(2) [OF assms(1) Some v h]
    countermap_order.HandlePropose_reply [OF assms(1) Some v h]
  show ?thesis
    using r h Some v assms(1) by (auto simp: CounterMap_IsIn_iff)
qed

theorem acceptor_contract_witness:
  "let a = NewAcceptor (CounterMap_IncrementKey (NewCounterMap [''N1'', ''N2'']) ''k'' ''N1'' 1) ''N1'';
       v = CounterMap_IncrementKey (NewCounterMap [''N1'', ''N2'']) ''k'' ''N2'' 1
   in \<exists>a' es. Acceptor_HandlePropose CounterMap_Lattice a (NewMessage ''N2'' (command Propose v)) = (a', es) \<and>
        CounterMap_rep (acceptedValue a') = sup (CounterMap_rep (acceptedValue a)) (CounterMap_rep v)"
proof -
  let ?a = "NewAcceptor (CounterMap_IncrementKey (NewCounterMap [''N1'', ''N2'']) ''k'' ''N1'' 1) ''N1''"
  let ?v = "CounterMap_IncrementKey (NewCounterMap [''N1'', ''N2'']) ''k'' ''N2'' 1"
  let ?m = "NewMessage ''N2'' (command Propose ?v)"
  have "CounterMap_wf (acceptedValue ?a)" "\<forall>v. Value (Payload ?m) = Some v \<longrightarrow> CounterMap_wf v"
    by (simp_all add: CounterMap_IncrementKey_wf)
  from acceptor_contract [OF this] show ?thesis by (auto simp: Let_def)
qed

end
