(* ===== verification/Learner.thy ===== *)
theory Learner
  imports Protocol CounterMap
begin

text \<open>
  \<open>internal/latticeagreement/learner.go\<close>. The callback \<open>onLearn\<close> is the engine's, run
  in its own goroutine: the effect \<open>OnLearn\<close>. Whether the field is nil is \<open>hasOnLearn\<close>.
\<close>

record 'v Learner =
  lrn_nodeId :: NodeId
  hasOnLearn :: bool
  learnedValue :: 'v

definition NewLearner :: "NodeId \<Rightarrow> 'v \<Rightarrow> bool \<Rightarrow> 'v Learner" where
  "NewLearner nodeId bottom onLearn =
     \<lparr>lrn_nodeId = nodeId, hasOnLearn = onLearn, learnedValue = bottom\<rparr>"

definition Learner_HandleLearn ::
    "'v Lattice \<Rightarrow> 'v Learner \<Rightarrow> 'v Message \<Rightarrow> go_panic + 'v Learner \<times> 'v effect list" where
  "Learner_HandleLearn L l msg =
     (case Value (Payload msg) of
        None \<Rightarrow> Inl NilDereference
      | Some v \<Rightarrow>
          if \<not> IsIn L (learnedValue l) v then Inr (l, [])
          else
            (let (l', es) =
               (if StrictlyIsIn L (learnedValue l) v then
                  (let l1 = l\<lparr>learnedValue := v\<rparr>
                   in (l1, [BroadcastToOthers
                         \<lparr>Sender = lrn_nodeId l1, Payload = command Learn (learnedValue l1)\<rparr>
                         (lrn_nodeId l1)]))
                else (l, []))
             in Inr (l', es @ (if hasOnLearn l' then [OnLearn (learnedValue l')] else []))))"

lemma NewLearner_simps [simp]:
  "lrn_nodeId (NewLearner i b c) = i" "hasOnLearn (NewLearner i b c) = c"
  "learnedValue (NewLearner i b c) = b"
  by (simp_all add: NewLearner_def)

section \<open>Properties\<close>

text \<open>
  The learner on every branch, for values of one cluster: a nil value panics; a value that
  does not contain the learned one is ignored; an equal one only notifies the engine; a strictly
  larger one is adopted, gossiped once to the other peers and reported.
\<close>

theorem learner_contract:
  assumes "CounterMap_ok N (learnedValue l)" "hasOnLearn l"
    and "\<forall>v. Value (Payload msg) = Some v \<longrightarrow> CounterMap_ok N v"
  shows "Learner_HandleLearn CounterMap_Lattice l msg =
    (case Value (Payload msg) of
       None \<Rightarrow> Inl NilDereference
     | Some v \<Rightarrow>
         if CounterMap_rep (learnedValue l) < CounterMap_rep v
         then Inr (l\<lparr>learnedValue := v\<rparr>,
                [BroadcastToOthers \<lparr>Sender = lrn_nodeId l, Payload = command Learn v\<rparr> (lrn_nodeId l),
                 OnLearn v])
         else if CounterMap_rep (learnedValue l) = CounterMap_rep v
         then Inr (l, [OnLearn (learnedValue l)])
         else Inr (l, []))"
proof (cases "Value (Payload msg)")
  case None
  then show ?thesis by (simp add: Learner_HandleLearn_def)
next
  case (Some v)
  then have "IsIn CounterMap_Lattice (learnedValue l) v \<longleftrightarrow>
      CounterMap_rep (learnedValue l) < CounterMap_rep v \<or> CounterMap_rep (learnedValue l) = CounterMap_rep v"
    "StrictlyIsIn CounterMap_Lattice (learnedValue l) v \<longleftrightarrow> CounterMap_rep (learnedValue l) < CounterMap_rep v"
    using assms(1,3) by (auto simp: countermap.exact_laws [of N] le_less)
  then show ?thesis
    using assms(2) Some by (auto simp: Learner_HandleLearn_def Let_def)
qed

theorem learner_contract_witness:
  "let l = NewLearner ''N1'' (NewCounterMap [''N1'']) True;
       v = CounterMap_IncrementKey (NewCounterMap [''N1'']) ''k'' ''N1'' 1
   in \<exists>l' es. Learner_HandleLearn CounterMap_Lattice l (NewMessage ''N2'' (command Learn v)) = Inr (l', es) \<and>
        learnedValue l' = v \<and> length es = 2"
proof -
  let ?l = "NewLearner ''N1'' (NewCounterMap [''N1'']) True"
  let ?v = "CounterMap_IncrementKey (NewCounterMap [''N1'']) ''k'' ''N1'' 1"
  let ?m = "NewMessage ''N2'' (command Learn ?v)"
  have ok: "CounterMap_ok {''N1''} ?v" by code_simp
  have "CounterMap_StrictlyIsIn (NewCounterMap [''N1'']) ?v" by code_simp
  then have lt: "CounterMap_rep (learnedValue ?l) < CounterMap_rep ?v"
    using ok by (simp add: CounterMap_StrictlyIsIn_iff [of "{''N1''}"])
  have "CounterMap_ok {''N1''} (learnedValue ?l)" "hasOnLearn ?l"
    "\<forall>v. Value (Payload ?m) = Some v \<longrightarrow> CounterMap_ok {''N1''} v"
    using ok by simp_all
  from learner_contract [OF this] lt show ?thesis by (simp add: Let_def)
qed

end
