(* ===== verification/LatticeAgreement.thy ===== *)
theory LatticeAgreement
  imports Proposer Acceptor Learner
begin

text \<open>
  \<open>internal/latticeagreement/router.go\<close> and \<open>lattice_agreement.go\<close>: the three roles
  of a node, each with a mailbox (a channel of capacity \<open>MsgChanSize\<close>, at least 1) and a
  goroutine that takes one message at a time. \<open>HandleIncomingMessage\<close> is the dispatch;
  \<open>run_role\<close> is one iteration of the loop of \<open>runProposer\<close>, \<open>runAcceptor\<close> or
  \<open>runLearner\<close> that takes a message. The number of live goroutines per role is kept so that
  \<open>Start\<close> and \<open>Stop\<close> can be stated: \<open>exit_role\<close> is the iteration that sees
  \<open>done\<close> closed and returns.
\<close>

datatype role = ProposerRole | AcceptorRole | LearnerRole

record 'v MessageRouter =
  proposerMailbox :: "'v Message list"
  acceptorMailbox :: "'v Message list"
  learnerMailbox :: "'v Message list"
  msgChanSize :: nat
  doneClosed :: bool
  goroutines :: "role \<Rightarrow> nat"

definition NewMessageRouter :: "nat \<Rightarrow> 'v MessageRouter" where
  "NewMessageRouter cap =
     \<lparr>proposerMailbox = [], acceptorMailbox = [], learnerMailbox = [], msgChanSize = cap,
      doneClosed = False, goroutines = (\<lambda>_. 0)\<rparr>"

definition offer :: "nat \<Rightarrow> 'v Message list \<Rightarrow> 'v Message \<Rightarrow> 'v Message list" where
  "offer cap mailbox msg = (if length mailbox < cap then mailbox @ [msg] else mailbox)"

definition HandleIncomingMessage :: "'v MessageRouter \<Rightarrow> 'v Message \<Rightarrow> 'v MessageRouter" where
  "HandleIncomingMessage r msg =
     (let t = Type (Payload msg) in
      if t = Ack \<or> t = Nack then
        r\<lparr>proposerMailbox := offer (msgChanSize r) (proposerMailbox r) msg\<rparr>
      else if t = Propose then
        r\<lparr>acceptorMailbox := offer (msgChanSize r) (acceptorMailbox r) msg\<rparr>
      else if t = Learn then
        r\<lparr>learnerMailbox := offer (msgChanSize r) (learnerMailbox r) msg\<rparr>
      else r)"

record 'v LatticeAgreement =
  Router :: "'v MessageRouter"
  ProposerOf :: "'v Proposer"
  AcceptorOf :: "'v Acceptor"
  LearnerOf :: "'v Learner"

definition NewLatticeAgreement ::
    "NodeId \<Rightarrow> (NodeId, string) gomap \<Rightarrow> 'v \<Rightarrow> bool \<Rightarrow> nat \<Rightarrow> 'v LatticeAgreement" where
  "NewLatticeAgreement nodeId ps bottom onLearn cap =
     \<lparr>Router = NewMessageRouter cap,
      ProposerOf = NewProposer nodeId bottom ps,
      AcceptorOf = NewAcceptor bottom nodeId,
      LearnerOf = NewLearner nodeId bottom onLearn\<rparr>"

definition run_proposer ::
    "'v Lattice \<Rightarrow> 'v Proposer \<Rightarrow> 'v Message \<Rightarrow> go_panic + 'v Proposer \<times> 'v effect list" where
  "run_proposer L p msg =
     (let t = Type (Payload msg) in
      if t = Ack then Proposer_HandleAck L p msg
      else if t = Nack then Proposer_HandleNack L p msg
      else Inr (p, []))"

definition run_role ::
    "'v Lattice \<Rightarrow> 'v LatticeAgreement \<Rightarrow> role \<Rightarrow> (go_panic + 'v LatticeAgreement \<times> 'v effect list) option" where
  "run_role L la role =
     (if goroutines (Router la) role = 0 then None else
      case role of
        ProposerRole \<Rightarrow>
          (case proposerMailbox (Router la) of
             [] \<Rightarrow> None
           | msg # ms \<Rightarrow>
               Some (case run_proposer L (ProposerOf la) msg of
                       Inl e \<Rightarrow> Inl e
                     | Inr (p, es) \<Rightarrow>
                         Inr (la\<lparr>Router := (Router la)\<lparr>proposerMailbox := ms\<rparr>, ProposerOf := p\<rparr>, es)))
      | AcceptorRole \<Rightarrow>
          (case acceptorMailbox (Router la) of
             [] \<Rightarrow> None
           | msg # ms \<Rightarrow>
               Some (case Acceptor_HandlePropose L (AcceptorOf la) msg of
                       (a, es) \<Rightarrow>
                         Inr (la\<lparr>Router := (Router la)\<lparr>acceptorMailbox := ms\<rparr>, AcceptorOf := a\<rparr>, es)))
      | LearnerRole \<Rightarrow>
          (case learnerMailbox (Router la) of
             [] \<Rightarrow> None
           | msg # ms \<Rightarrow>
               Some (case Learner_HandleLearn L (LearnerOf la) msg of
                       Inl e \<Rightarrow> Inl e
                     | Inr (l, es) \<Rightarrow>
                         Inr (la\<lparr>Router := (Router la)\<lparr>learnerMailbox := ms\<rparr>, LearnerOf := l\<rparr>, es))))"

definition Router_Start :: "'v MessageRouter \<Rightarrow> 'v MessageRouter" where
  "Router_Start r = r\<lparr>goroutines := (\<lambda>x. goroutines r x + 1)\<rparr>"

definition Router_CloseDone :: "'v MessageRouter \<Rightarrow> go_panic + 'v MessageRouter" where
  "Router_CloseDone r = (if doneClosed r then Inl CloseOfClosedChannel else Inr (r\<lparr>doneClosed := True\<rparr>))"

definition exit_role :: "'v MessageRouter \<Rightarrow> role \<Rightarrow> 'v MessageRouter option" where
  "exit_role r x =
     (if doneClosed r \<and> goroutines r x > 0
      then Some (r\<lparr>goroutines := (goroutines r)(x := goroutines r x - 1)\<rparr>) else None)"

definition Router_StopReturns :: "'v MessageRouter \<Rightarrow> bool" where
  "Router_StopReturns r \<longleftrightarrow>
     doneClosed r \<and> goroutines r ProposerRole + goroutines r AcceptorRole + goroutines r LearnerRole = 0"

definition LatticeAgreement_Start :: "'v LatticeAgreement \<Rightarrow> 'v LatticeAgreement" where
  "LatticeAgreement_Start la = la\<lparr>Router := Router_Start (Router la)\<rparr>"

definition LatticeAgreement_CloseDone :: "'v LatticeAgreement \<Rightarrow> go_panic + 'v LatticeAgreement" where
  "LatticeAgreement_CloseDone la =
     map_sum id (\<lambda>r. la\<lparr>Router := r\<rparr>) (Router_CloseDone (Router la))"

text \<open>The forwarding methods of \<open>LatticeAgreement\<close>.\<close>

definition LatticeAgreement_HandlePropose ::
    "'v Lattice \<Rightarrow> 'v LatticeAgreement \<Rightarrow> 'v Message \<Rightarrow> 'v LatticeAgreement \<times> 'v effect list" where
  "LatticeAgreement_HandlePropose L la msg =
     (case Acceptor_HandlePropose L (AcceptorOf la) msg of (a, es) \<Rightarrow> (la\<lparr>AcceptorOf := a\<rparr>, es))"

definition LatticeAgreement_HandleAck ::
    "'v Lattice \<Rightarrow> 'v LatticeAgreement \<Rightarrow> 'v Message \<Rightarrow> go_panic + 'v LatticeAgreement \<times> 'v effect list" where
  "LatticeAgreement_HandleAck L la msg =
     map_sum id (\<lambda>(p, es). (la\<lparr>ProposerOf := p\<rparr>, es)) (Proposer_HandleAck L (ProposerOf la) msg)"

definition LatticeAgreement_HandleNack ::
    "'v Lattice \<Rightarrow> 'v LatticeAgreement \<Rightarrow> 'v Message \<Rightarrow> go_panic + 'v LatticeAgreement \<times> 'v effect list" where
  "LatticeAgreement_HandleNack L la msg =
     map_sum id (\<lambda>(p, es). (la\<lparr>ProposerOf := p\<rparr>, es)) (Proposer_HandleNack L (ProposerOf la) msg)"

definition LatticeAgreement_HandleLearn ::
    "'v Lattice \<Rightarrow> 'v LatticeAgreement \<Rightarrow> 'v Message \<Rightarrow> go_panic + 'v LatticeAgreement \<times> 'v effect list" where
  "LatticeAgreement_HandleLearn L la msg =
     map_sum id (\<lambda>(l, es). (la\<lparr>LearnerOf := l\<rparr>, es)) (Learner_HandleLearn L (LearnerOf la) msg)"

definition mailboxes :: "'v MessageRouter \<Rightarrow> 'v Message set" where
  "mailboxes r = set (proposerMailbox r) \<union> set (acceptorMailbox r) \<union> set (learnerMailbox r)"

definition router_typed :: "'v MessageRouter \<Rightarrow> bool" where
  "router_typed r \<longleftrightarrow>
     (\<forall>m \<in> set (proposerMailbox r). Type (Payload m) = Ack \<or> Type (Payload m) = Nack) \<and>
     (\<forall>m \<in> set (acceptorMailbox r). Type (Payload m) = Propose) \<and>
     (\<forall>m \<in> set (learnerMailbox r). Type (Payload m) = Learn)"

lemma router_typed_incoming: "router_typed r \<Longrightarrow> router_typed (HandleIncomingMessage r m)"
  by (auto simp: router_typed_def HandleIncomingMessage_def Let_def offer_def)

lemma router_typed_new [simp]: "router_typed (NewMessageRouter cap)"
  by (simp add: router_typed_def NewMessageRouter_def)

lemma mailboxes_new [simp]: "mailboxes (NewMessageRouter cap) = {}"
  by (simp add: mailboxes_def NewMessageRouter_def)

lemma Router_Start_simps [simp]:
  "router_typed (Router_Start r) = router_typed r" "mailboxes (Router_Start r) = mailboxes r"
  by (simp_all add: Router_Start_def router_typed_def mailboxes_def)

lemma run_role_router:
  assumes "run_role L la role = Some (Inr (la', es))"
  shows "mailboxes (Router la') \<subseteq> mailboxes (Router la)"
    and "router_typed (Router la) \<Longrightarrow> router_typed (Router la')"
  using assms
  by (auto simp: run_role_def mailboxes_def router_typed_def
      split: if_splits role.splits list.splits sum.splits prod.splits)

section \<open>Dispatch over a sequence of messages\<close>

definition handle_all :: "'v MessageRouter \<Rightarrow> 'v Message list \<Rightarrow> 'v MessageRouter" where
  "handle_all r ms = fold (\<lambda>m r. HandleIncomingMessage r m) ms r"

lemma offer_take:
  "offer cap (take cap xs) m = take cap (xs @ [m])"
  by (auto simp: offer_def)

lemma handle_all_snoc: "handle_all r (ms @ [m]) = HandleIncomingMessage (handle_all r ms) m"
  by (simp add: handle_all_def)

fun exit_roles :: "'v MessageRouter \<Rightarrow> role list \<Rightarrow> 'v MessageRouter option" where
  "exit_roles r [] = Some r"
| "exit_roles r (x # xs) = (case exit_role r x of None \<Rightarrow> None | Some r' \<Rightarrow> exit_roles r' xs)"

lemma exit_roles_replicate:
  "doneClosed r \<Longrightarrow> goroutines r x = n \<Longrightarrow>
   exit_roles r (replicate n x @ xs) = exit_roles (r\<lparr>goroutines := (goroutines r)(x := 0)\<rparr>) xs"
proof (induction n arbitrary: r)
  case 0
  then have "(goroutines r)(x := 0) = goroutines r" by auto
  then show ?case by simp
next
  case (Suc n)
  let ?r = "r\<lparr>goroutines := (goroutines r)(x := n)\<rparr>"
  have "exit_roles ?r (replicate n x @ xs) = exit_roles (?r\<lparr>goroutines := (goroutines ?r)(x := 0)\<rparr>) xs"
    by (rule Suc.IH) (simp_all add: Suc.prems)
  then show ?case using Suc.prems by (simp add: exit_role_def) (simp add: fun_upd_def)
qed

lemma exit_roles_replicate_all:
  "doneClosed r \<Longrightarrow> goroutines r x = n \<Longrightarrow>
   exit_roles r (replicate n x) = Some (r\<lparr>goroutines := (goroutines r)(x := 0)\<rparr>)"
  using exit_roles_replicate [of r x n "[]"] by simp

section \<open>Properties\<close>

text \<open>
  Each mailbox holds, in arrival order, exactly the first \<open>MsgChanSize\<close> messages of
  its own kind: \<open>ACK\<close> and \<open>NACK\<close> for the proposer, \<open>PROPOSE\<close> for the acceptor,
  \<open>LEARN\<close> for the learner. Later ones and messages of an unknown type are dropped.
\<close>

theorem router_mailboxes_fifo:
  "proposerMailbox (handle_all (NewMessageRouter cap) ms) =
     take cap (filter (\<lambda>m. Type (Payload m) = Ack \<or> Type (Payload m) = Nack) ms) \<and>
   acceptorMailbox (handle_all (NewMessageRouter cap) ms) =
     take cap (filter (\<lambda>m. Type (Payload m) = Propose) ms) \<and>
   learnerMailbox (handle_all (NewMessageRouter cap) ms) =
     take cap (filter (\<lambda>m. Type (Payload m) = Learn) ms)"
proof (induction ms rule: rev_induct)
  case Nil
  show ?case by (simp add: handle_all_def NewMessageRouter_def)
next
  case (snoc m ms)
  have "msgChanSize (handle_all (NewMessageRouter cap) ms) = cap"
    by (induction ms rule: rev_induct)
      (auto simp: handle_all_snoc HandleIncomingMessage_def Let_def, simp add: handle_all_def NewMessageRouter_def)
  with snoc show ?case
    by (auto simp: handle_all_snoc HandleIncomingMessage_def Let_def offer_take)
qed

text \<open>
  Shutdown. Closing \<open>done\<close> lets every goroutine return, after which \<open>Stop\<close> returns;
  in that state no role takes a message any more. A second \<open>Stop\<close> panics.
\<close>

theorem router_stop_quiesces:
  assumes "LatticeAgreement_CloseDone la = Inr la'"
  shows "LatticeAgreement_CloseDone la' = Inl CloseOfClosedChannel \<and>
    (\<exists>xs r. length xs = (\<Sum>x \<leftarrow> [ProposerRole, AcceptorRole, LearnerRole]. goroutines (Router la) x) \<and>
      exit_roles (Router la') xs = Some r \<and> Router_StopReturns r \<and>
      run_role L (la'\<lparr>Router := r\<rparr>) x = None)"
proof -
  have la': "doneClosed (Router la')" "goroutines (Router la') = goroutines (Router la)"
    using assms by (auto simp: LatticeAgreement_CloseDone_def Router_CloseDone_def split: if_splits)
  let ?r = "Router la'"
  let ?n = "goroutines ?r"
  let ?xs = "replicate (?n ProposerRole) ProposerRole @ replicate (?n AcceptorRole) AcceptorRole
    @ replicate (?n LearnerRole) LearnerRole"
  let ?fin = "?r\<lparr>goroutines := ?n(ProposerRole := 0, AcceptorRole := 0, LearnerRole := 0)\<rparr>"
  have "exit_roles ?r ?xs = Some ?fin"
    using la' by (simp add: exit_roles_replicate exit_roles_replicate_all)
  moreover have "Router_StopReturns ?fin" using la' by (simp add: Router_StopReturns_def)
  moreover have "run_role L (la'\<lparr>Router := ?fin\<rparr>) x = None" by (cases x) (simp_all add: run_role_def)
  moreover have "LatticeAgreement_CloseDone la' = Inl CloseOfClosedChannel"
    using la' by (simp add: LatticeAgreement_CloseDone_def Router_CloseDone_def)
  ultimately show ?thesis
    by (intro conjI exI [of _ ?xs] exI [of _ ?fin]) (simp_all add: la')
qed

theorem router_stop_quiesces_witness:
  "let la = LatticeAgreement_Start (NewLatticeAgreement ''N1'' [] (NewCounterMap []) True 1)
   in \<exists>la' xs r. LatticeAgreement_CloseDone la = Inr la' \<and> length xs = 3 \<and>
        exit_roles (Router la') xs = Some r \<and> Router_StopReturns r"
proof -
  let ?la = "LatticeAgreement_Start (NewLatticeAgreement ''N1'' [] (NewCounterMap []) True 1)"
  have closed: "LatticeAgreement_CloseDone ?la = Inr (?la\<lparr>Router := (Router ?la)\<lparr>doneClosed := True\<rparr>\<rparr>)"
    by (simp add: LatticeAgreement_CloseDone_def Router_CloseDone_def LatticeAgreement_Start_def
        Router_Start_def NewLatticeAgreement_def NewMessageRouter_def)
  have "(\<Sum>x \<leftarrow> [ProposerRole, AcceptorRole, LearnerRole]. goroutines (Router ?la) x) = 3"
    by (simp add: LatticeAgreement_Start_def Router_Start_def NewLatticeAgreement_def NewMessageRouter_def)
  with router_stop_quiesces [OF closed, of CounterMap_Lattice ProposerRole] closed
  show ?thesis unfolding Let_def by metis
qed

end
