(* ===== verification/Quorum.thy ===== *)
theory Quorum
  imports GCounter
begin

text \<open>
  Quorums: what the protocol needs of the replies it counts is that two quorums share a member.
  \<open>quorumSize = len(peers)/2 + 1\<close> of \<open>proposer.go\<close> gives it for sets of distinct peers.
\<close>

definition quorum_of :: "NodeId set \<Rightarrow> nat" where
  "quorum_of I = card I div 2 + 1"

definition majority :: "NodeId set \<Rightarrow> NodeId set \<Rightarrow> bool" where
  "majority I Q \<longleftrightarrow> Q \<subseteq> I \<and> quorum_of I \<le> card Q"

locale quorum_system =
  fixes quorum :: "'n set \<Rightarrow> bool"
  assumes meet: "quorum Q \<Longrightarrow> quorum R \<Longrightarrow> \<exists>a. a \<in> Q \<and> a \<in> R"
begin

text \<open>
  If each member of a quorum once held \<open>v\<close>, each member of another once held \<open>w\<close>, and the values
  a member held form a chain unless it is \<open>faulty\<close>, then \<open>v\<close> and \<open>w\<close> are comparable or every
  shared member is faulty.
\<close>

lemma chain_comparable:
  assumes "\<And>a. a \<in> Q \<Longrightarrow> v \<in> held a" "\<And>a. a \<in> R \<Longrightarrow> w \<in> held a"
    and chain: "\<And>a x y. a \<notin> faulty \<Longrightarrow> x \<in> held a \<Longrightarrow> y \<in> held a \<Longrightarrow> x \<le> y \<or> y \<le> x"
  shows "v \<le> w \<or> w \<le> v \<or> Q \<inter> R \<subseteq> faulty"
  using assms by blast

end

lemma majorities_meet:
  assumes "finite I" "majority I Q" "majority I R"
  shows "\<exists>a. a \<in> Q \<and> a \<in> R"
proof (rule ccontr)
  assume "\<nexists>a. a \<in> Q \<and> a \<in> R"
  then have "card (Q \<union> R) = card Q + card R"
    using assms by (intro card_Un_disjoint) (auto simp: majority_def intro: finite_subset)
  moreover have "card (Q \<union> R) \<le> card I"
    using assms by (intro card_mono) (auto simp: majority_def)
  ultimately show False
    using assms by (auto simp: majority_def quorum_of_def)
qed

interpretation peers_quorum: quorum_system "majority (set ids)" for ids
  by unfold_locales (rule majorities_meet, simp_all)

end
