(* ===== verification/Cluster.thy ===== *)
theory Cluster
  imports LatticeAgreement CounterMap Quorum
begin

text \<open>
  The lattice agreement protocol as a whole: one \<open>LatticeAgreement\<close> per peer and the messages
  between them. A message that was sent and not yet handed to the receiver's router is an entry of
  \<open>net\<close>; the network may deliver entries in any order (each incoming message is dispatched in
  its own goroutine) and may lose them. One event is one atomic section of the code: a call of
  \<open>Propose\<close>, one dispatch of \<open>HandleIncomingMessage\<close>, or one message taken by a role.

  \<open>acked\<close>, \<open>ackers\<close>, \<open>decided\<close> and \<open>proposals\<close> are history variables: no
  event reads them. They record the values each acceptor acknowledged, the senders of the replies
  a proposer counted in its current round, the values a proposer broadcast as \<open>LEARN\<close> with
  the senders it counted, and the values given to \<open>Propose\<close>.
\<close>

record 'v cluster =
  nodes :: "NodeId \<Rightarrow> 'v LatticeAgreement"
  net :: "(NodeId \<times> 'v Message) list"
  callbacks :: "(NodeId \<times> 'v) list"
  acked :: "NodeId \<Rightarrow> 'v list"
  ackers :: "NodeId \<Rightarrow> NodeId list"
  decided :: "('v \<times> NodeId list) list"
  proposals :: "'v list"

definition wire_message :: "('v \<Rightarrow> 'v) \<Rightarrow> 'v Message \<Rightarrow> 'v Message" where
  "wire_message wire m =
     m\<lparr>Payload := (Payload m)\<lparr>Value := map_option wire (Value (Payload m))\<rparr>\<rparr>"

fun sends :: "('v \<Rightarrow> 'v) \<Rightarrow> NodeId list \<Rightarrow> 'v effect \<Rightarrow> (NodeId \<times> 'v Message) list" where
  "sends wire ids (Broadcast m) = map (\<lambda>d. (d, wire_message wire m)) ids"
| "sends wire ids (BroadcastToOthers m sender) =
     map (\<lambda>d. (d, wire_message wire m)) (filter (\<lambda>d. d \<noteq> sender) ids)"
| "sends wire ids (Send d m) = (if d \<in> set ids then [(d, wire_message wire m)] else [])"
| "sends wire ids (OnLearn v) = []"

fun learn_calls :: "'v effect \<Rightarrow> 'v list" where
  "learn_calls (OnLearn v) = [v]"
| "learn_calls _ = []"

fun acked_values :: "'v effect \<Rightarrow> 'v list" where
  "acked_values (Send d m) =
     (if Type (Payload m) = Ack then (case Value (Payload m) of Some v \<Rightarrow> [v] | None \<Rightarrow> []) else [])"
| "acked_values _ = []"

fun decided_values :: "'v effect \<Rightarrow> 'v list" where
  "decided_values (Broadcast m) =
     (if Type (Payload m) = Learn then (case Value (Payload m) of Some v \<Rightarrow> [v] | None \<Rightarrow> []) else [])"
| "decided_values _ = []"

definition counted :: "bool list \<Rightarrow> bool list \<Rightarrow> NodeId list \<Rightarrow> NodeId \<Rightarrow> NodeId list" where
  "counted olds news as sender =
     (if news = olds then as else if news = [] then [] else as @ [sender])"

definition drop_nth :: "nat \<Rightarrow> 'a list \<Rightarrow> 'a list" where
  "drop_nth k xs = take k xs @ drop (Suc k) xs"

datatype 'v event =
    EPropose NodeId 'v
  | EDeliver nat
  | ELose nat
  | ERun NodeId role

definition emit :: "('v \<Rightarrow> 'v) \<Rightarrow> NodeId list \<Rightarrow> NodeId \<Rightarrow> 'v effect list \<Rightarrow> 'v cluster \<Rightarrow> 'v cluster" where
  "emit wire ids i es s =
     s\<lparr>net := net s @ concat (map (sends wire ids) es),
       callbacks := callbacks s @ map (\<lambda>v. (i, v)) (concat (map learn_calls es))\<rparr>"

definition propose_event ::
    "'v Lattice \<Rightarrow> ('v \<Rightarrow> 'v) \<Rightarrow> NodeId list \<Rightarrow> 'v cluster \<Rightarrow> NodeId \<Rightarrow> 'v \<Rightarrow> 'v cluster" where
  "propose_event L wire ids s i v =
     (case Proposer_Propose L (ProposerOf (nodes s i)) v of
        (p, es) \<Rightarrow>
          emit wire ids i es
            (s\<lparr>nodes := (nodes s)(i := (nodes s i)\<lparr>ProposerOf := p\<rparr>),
               ackers := (ackers s)(i := []),
               proposals := proposals s @ [v]\<rparr>))"

definition deliver_event :: "'v cluster \<Rightarrow> nat \<Rightarrow> 'v cluster" where
  "deliver_event s k =
     (case net s ! k of
        (d, m) \<Rightarrow>
          s\<lparr>nodes := (nodes s)(d := (nodes s d)\<lparr>Router := HandleIncomingMessage (Router (nodes s d)) m\<rparr>),
            net := drop_nth k (net s)\<rparr>)"

definition run_event ::
    "'v Lattice \<Rightarrow> ('v \<Rightarrow> 'v) \<Rightarrow> NodeId list \<Rightarrow> 'v cluster \<Rightarrow> NodeId \<Rightarrow> role \<Rightarrow> 'v cluster option" where
  "run_event L wire ids s i role =
     (case run_role L (nodes s i) role of
        Some (Inr (la, es)) \<Rightarrow>
          (let as = (if role = ProposerRole
                     then counted (acksReceived (ProposerOf (nodes s i))) (acksReceived (ProposerOf la))
                            (ackers s i) (Sender (hd (proposerMailbox (Router (nodes s i)))))
                     else ackers s i)
           in Some (emit wire ids i es
                (s\<lparr>nodes := (nodes s)(i := la),
                   acked := (acked s)(i := acked s i @ concat (map acked_values es)),
                   ackers := (ackers s)(i := as),
                   decided := decided s @ map (\<lambda>v. (v, as)) (concat (map decided_values es))\<rparr>)))
      | _ \<Rightarrow> None)"

fun cluster_step ::
    "'v Lattice \<Rightarrow> ('v \<Rightarrow> 'v) \<Rightarrow> NodeId list \<Rightarrow> 'v cluster \<Rightarrow> 'v event \<Rightarrow> 'v cluster option" where
  "cluster_step L wire ids s (EPropose i v) =
     (if i \<in> set ids then Some (propose_event L wire ids s i v) else None)"
| "cluster_step L wire ids s (EDeliver k) =
     (if k < length (net s) then Some (deliver_event s k) else None)"
| "cluster_step L wire ids s (ELose k) =
     (if k < length (net s) then Some (s\<lparr>net := drop_nth k (net s)\<rparr>) else None)"
| "cluster_step L wire ids s (ERun i role) =
     (if i \<in> set ids then run_event L wire ids s i role else None)"

fun cluster_run ::
    "'v Lattice \<Rightarrow> ('v \<Rightarrow> 'v) \<Rightarrow> NodeId list \<Rightarrow> 'v cluster \<Rightarrow> 'v event list \<Rightarrow> 'v cluster option" where
  "cluster_run L wire ids s [] = Some s"
| "cluster_run L wire ids s (e # es) =
     (case cluster_step L wire ids s e of
        None \<Rightarrow> None
      | Some s' \<Rightarrow> cluster_run L wire ids s' es)"

definition init_cluster :: "(NodeId, string) gomap \<Rightarrow> 'v \<Rightarrow> nat \<Rightarrow> 'v cluster" where
  "init_cluster ps bottom cap =
     \<lparr>nodes = (\<lambda>i. LatticeAgreement_Start (NewLatticeAgreement i ps bottom True cap)),
      net = [], callbacks = [], acked = (\<lambda>_. []), ackers = (\<lambda>_. []), decided = [], proposals = []\<rparr>"

section \<open>Reachable states\<close>

text \<open>
  The values the engine proposes satisfy \<open>okv\<close>; everything else is up to the network and the
  scheduler.
\<close>

fun event_ok :: "('v \<Rightarrow> bool) \<Rightarrow> 'v event \<Rightarrow> bool" where
  "event_ok okv (EPropose i v) = okv v"
| "event_ok okv _ = True"

inductive cluster_reach ::
    "'v Lattice \<Rightarrow> ('v \<Rightarrow> 'v) \<Rightarrow> NodeId list \<Rightarrow> ('v \<Rightarrow> bool) \<Rightarrow> 'v cluster \<Rightarrow> 'v cluster \<Rightarrow> bool"
  for L wire ids okv s0 where
  reach_start: "cluster_reach L wire ids okv s0 s0"
| reach_step: "cluster_reach L wire ids okv s0 s \<Longrightarrow> event_ok okv e \<Longrightarrow>
     cluster_step L wire ids s e = Some t \<Longrightarrow> cluster_reach L wire ids okv s0 t"

lemma cluster_run_reach:
  "cluster_reach L wire ids okv s0 s \<Longrightarrow> list_all (event_ok okv) es \<Longrightarrow>
   cluster_run L wire ids s es = Some t \<Longrightarrow> cluster_reach L wire ids okv s0 t"
proof (induction es arbitrary: s)
  case (Cons e es)
  then show ?case
    by (auto split: option.splits intro: reach_step)
qed simp

section \<open>What a single section does\<close>

lemma wire_message_simps [simp]:
  "Sender (wire_message w m) = Sender m" "Type (Payload (wire_message w m)) = Type (Payload m)"
  "Value (Payload (wire_message w m)) = map_option w (Value (Payload m))"
  by (simp_all add: wire_message_def)

lemma mailboxes_incoming: "mailboxes (HandleIncomingMessage r m) \<subseteq> insert m (mailboxes r)"
  by (auto simp: HandleIncomingMessage_def Let_def offer_def mailboxes_def)

lemma set_drop_nth: "set (drop_nth k xs) \<subseteq> set xs"
  by (auto simp: drop_nth_def dest: in_set_takeD in_set_dropD)

lemma checkAndHandleQuorum_cases:
  assumes "checkAndHandleQuorum p = (p', es)"
  obtains (idle) "p' = p" "es = []" "quorumReached p \<or> length (acksReceived p) < quorumSize p"
  | (clean) "\<not> quorumReached p" "quorumSize p \<le> length (acksReceived p)"
      "\<forall>a \<in> set (acksReceived p). a" "p' = p\<lparr>quorumReached := True\<rparr>"
      "es = [Broadcast \<lparr>Sender = prop_nodeId p, Payload = command Learn (proposedValue p)\<rparr>]"
  | (dirty) "\<not> quorumReached p" "quorumSize p \<le> length (acksReceived p)"
      "False \<in> set (acksReceived p)"
      "p' = p\<lparr>proposedValue := bufferedValue p, acksReceived := [], quorumReached := False\<rparr>"
      "es = [Broadcast \<lparr>Sender = prop_nodeId p, Payload = command Propose (bufferedValue p)\<rparr>]"
  using assms
  by (fastforce simp: checkAndHandleQuorum_def Let_def noNacks_iff split: if_splits)

section \<open>The invariant\<close>

context wire_lattice
begin

text \<open>
  \<open>R\<close> are the nodes that were restarted: their acceptors have forgotten what they acknowledged.
  \<open>A\<close> are the acknowledged values per acceptor, \<open>D\<close> the decided values, \<open>B\<close> the join of
  all proposals and \<open>I\<close> the peers.
\<close>

definition value_inv where
  "value_inv B v \<longleftrightarrow> ok v \<and> rep v \<le> B"

definition known_decision where
  "known_decision D v \<longleftrightarrow> rep v = bot \<or> (\<exists>d \<in> set D. rep (fst d) = rep v)"

definition has_acked where
  "has_acked A a v \<longleftrightarrow> rep v \<in> rep ` set (A a)"

definition msg_inv where
  "msg_inv A D B I m \<longleftrightarrow>
     (\<exists>v. Value (Payload m) = Some v \<and> value_inv B v \<and>
       (Type (Payload m) = Ack \<longrightarrow> Sender m \<in> I \<and> has_acked A (Sender m) v) \<and>
       (Type (Payload m) = Learn \<longrightarrow> known_decision D v))"

definition acceptor_inv where
  "acceptor_inv f us B i a \<longleftrightarrow>
     acc_nodeId a = i \<and> value_inv B (acceptedValue a) \<and>
     (f \<longrightarrow> (\<forall>u \<in> set us. ok u \<and> rep u \<le> rep (acceptedValue a)) \<and>
       sorted_wrt (\<lambda>u w. rep u \<le> rep w) us)"

definition proposer_inv where
  "proposer_inv A B I i as p \<longleftrightarrow>
     prop_nodeId p = i \<and> quorumSize p = quorum_of I \<and>
     value_inv B (proposedValue p) \<and> value_inv B (bufferedValue p) \<and>
     rep (proposedValue p) \<le> rep (bufferedValue p) \<and>
     length as = length (acksReceived p) \<and>
     (\<forall>(a, b) \<in> set (zip as (acksReceived p)). b \<longrightarrow> a \<in> I \<and> has_acked A a (proposedValue p))"

definition learner_inv where
  "learner_inv D B i l \<longleftrightarrow>
     lrn_nodeId l = i \<and> value_inv B (learnedValue l) \<and> known_decision D (learnedValue l)"

definition decision_inv where
  "decision_inv A I d \<longleftrightarrow>
     ok (fst d) \<and> quorum_of I \<le> length (snd d) \<and> set (snd d) \<subseteq> I \<and>
     (\<forall>a \<in> set (snd d). has_acked A a (fst d))"

definition bound where
  "bound s = fold sup (map rep (proposals s)) bot"

definition cluster_inv where
  "cluster_inv R I s \<longleftrightarrow>
     (\<forall>i. acceptor_inv (i \<notin> R) (acked s i) (bound s) i (AcceptorOf (nodes s i)) \<and>
          proposer_inv (acked s) (bound s) I i (ackers s i) (ProposerOf (nodes s i)) \<and>
          learner_inv (decided s) (bound s) i (LearnerOf (nodes s i)) \<and>
          router_typed (Router (nodes s i)) \<and>
          (\<forall>m \<in> mailboxes (Router (nodes s i)). msg_inv (acked s) (decided s) (bound s) I m)) \<and>
     (\<forall>x \<in> set (net s). fst x \<in> I \<and> msg_inv (acked s) (decided s) (bound s) I (snd x)) \<and>
     (\<forall>x \<in> set (callbacks s). value_inv (bound s) (snd x) \<and> known_decision (decided s) (snd x)) \<and>
     (\<forall>d \<in> set (decided s). decision_inv (acked s) I d)"

lemmas inv_defs = value_inv_def known_decision_def has_acked_def msg_inv_def acceptor_inv_def
  proposer_inv_def learner_inv_def decision_inv_def

lemma cluster_invD:
  assumes "cluster_inv R I s"
  shows "acceptor_inv (i \<notin> R) (acked s i) (bound s) i (AcceptorOf (nodes s i))"
    and "proposer_inv (acked s) (bound s) I i (ackers s i) (ProposerOf (nodes s i))"
    and "learner_inv (decided s) (bound s) i (LearnerOf (nodes s i))"
    and "m \<in> mailboxes (Router (nodes s i)) \<Longrightarrow> msg_inv (acked s) (decided s) (bound s) I m"
    and "x \<in> set (net s) \<Longrightarrow> fst x \<in> I \<and> msg_inv (acked s) (decided s) (bound s) I (snd x)"
    and "c \<in> set (callbacks s) \<Longrightarrow> value_inv (bound s) (snd c) \<and> known_decision (decided s) (snd c)"
    and "d \<in> set (decided s) \<Longrightarrow> decision_inv (acked s) I d"
    and "router_typed (Router (nodes s i))"
  using assms unfolding cluster_inv_def by blast+

lemma value_inv_mono: "value_inv B v \<Longrightarrow> B \<le> B' \<Longrightarrow> value_inv B' v"
  by (auto simp: value_inv_def)

lemma known_decision_mono: "known_decision D v \<Longrightarrow> set D \<subseteq> set D' \<Longrightarrow> known_decision D' v"
  by (auto simp: known_decision_def)

lemma has_acked_mono: "has_acked A a v \<Longrightarrow> (\<And>x. set (A x) \<subseteq> set (A' x)) \<Longrightarrow> has_acked A' a v"
  by (auto simp: has_acked_def)

lemma msg_inv_mono:
  "msg_inv A D B I m \<Longrightarrow> (\<And>x. set (A x) \<subseteq> set (A' x)) \<Longrightarrow> set D \<subseteq> set D' \<Longrightarrow> B \<le> B' \<Longrightarrow>
   msg_inv A' D' B' I m"
  by (auto simp: msg_inv_def intro: value_inv_mono known_decision_mono has_acked_mono)

lemma acceptor_inv_mono: "acceptor_inv f us B i a \<Longrightarrow> B \<le> B' \<Longrightarrow> acceptor_inv f us B' i a"
  by (auto simp: acceptor_inv_def intro: value_inv_mono)

lemma proposer_inv_mono:
  "proposer_inv A B I i as p \<Longrightarrow> (\<And>x. set (A x) \<subseteq> set (A' x)) \<Longrightarrow> B \<le> B' \<Longrightarrow>
   proposer_inv A' B' I i as p"
  by (fastforce simp: proposer_inv_def intro: value_inv_mono has_acked_mono)

lemma learner_inv_mono:
  "learner_inv D B i l \<Longrightarrow> set D \<subseteq> set D' \<Longrightarrow> B \<le> B' \<Longrightarrow> learner_inv D' B' i l"
  by (auto simp: learner_inv_def intro: value_inv_mono known_decision_mono)

lemma decision_inv_mono:
  "decision_inv A I d \<Longrightarrow> (\<And>x. set (A x) \<subseteq> set (A' x)) \<Longrightarrow> decision_inv A' I d"
  by (fastforce simp: decision_inv_def intro: has_acked_mono)

lemmas inv_monos = msg_inv_mono acceptor_inv_mono proposer_inv_mono learner_inv_mono
  decision_inv_mono value_inv_mono known_decision_mono

fun effect_inv where
  "effect_inv A D B I (Broadcast m) = msg_inv A D B I m"
| "effect_inv A D B I (BroadcastToOthers m d) = msg_inv A D B I m"
| "effect_inv A D B I (Send d m) = msg_inv A D B I m"
| "effect_inv A D B I (OnLearn v) = (value_inv B v \<and> known_decision D v)"

lemma wire_inv:
  assumes "value_inv B v"
  shows "value_inv B (wire v)" "has_acked A a (wire v) = has_acked A a v"
    "known_decision D (wire v) = known_decision D v"
  using assms by (simp_all add: value_inv_def has_acked_def known_decision_def ok_wire rep_wire)

lemma msg_inv_wire: "msg_inv A D B I m \<Longrightarrow> msg_inv A D B I (wire_message wire m)"
  unfolding msg_inv_def by (elim exE conjE) (simp add: wire_inv)

lemma sends_inv:
  "effect_inv A D B (set ids) e \<Longrightarrow> x \<in> set (sends wire ids e) \<Longrightarrow>
   fst x \<in> set ids \<and> msg_inv A D B (set ids) (snd x)"
  by (cases e) (auto simp: msg_inv_wire split: if_splits)

lemma learn_calls_inv:
  "effect_inv A D B I e \<Longrightarrow> v \<in> set (learn_calls e) \<Longrightarrow> value_inv B v \<and> known_decision D v"
  by (cases e) auto

text \<open>
  A section changes one node and the history; the invariant needs checking only at that node, for
  the effects it emits and for the decisions it adds.
\<close>

lemma emit_net_inv:
  assumes "\<And>x. x \<in> set (net u) \<Longrightarrow> fst x \<in> set ids \<and> msg_inv A D B (set ids) (snd x)"
    and "\<And>e. e \<in> set es \<Longrightarrow> effect_inv A D B (set ids) e" "x \<in> set (net (emit wire ids i es u))"
  shows "fst x \<in> set ids \<and> msg_inv A D B (set ids) (snd x)"
proof (cases "x \<in> set (net u)")
  case False
  then obtain e where "e \<in> set es" "x \<in> set (sends wire ids e)" using assms(3) by (auto simp: emit_def)
  then show ?thesis using sends_inv [OF assms(2)] by simp
qed (rule assms(1))

lemma emit_callbacks_inv:
  assumes "\<And>x. x \<in> set (callbacks u) \<Longrightarrow> value_inv B (snd x) \<and> known_decision D (snd x)"
    and "\<And>e. e \<in> set es \<Longrightarrow> effect_inv A D B I e" "x \<in> set (callbacks (emit wire ids i es u))"
  shows "value_inv B (snd x) \<and> known_decision D (snd x)"
proof (cases "x \<in> set (callbacks u)")
  case False
  then obtain e where "e \<in> set es" "snd x \<in> set (learn_calls e)" using assms(3) by (auto simp: emit_def)
  then show ?thesis using learn_calls_inv [OF assms(2)] by simp
qed (rule assms(1))

lemma cluster_inv_local:
  assumes inv: "cluster_inv R (set ids) s"
    and t: "t = emit wire ids i es
        (s\<lparr>nodes := (nodes s)(i := la), acked := (acked s)(i := us), ackers := (ackers s)(i := as),
          decided := D, proposals := ps\<rparr>)"
    and grow: "set (acked s i) \<subseteq> set us" "set (decided s) \<subseteq> set D" "bound s \<le> bound t"
    and acc: "acceptor_inv (i \<notin> R) us (bound t) i (AcceptorOf la)"
    and pro: "proposer_inv (acked t) (bound t) (set ids) i as (ProposerOf la)"
    and lrn: "learner_inv D (bound t) i (LearnerOf la)"
    and box: "mailboxes (Router la) \<subseteq> mailboxes (Router (nodes s i))" "router_typed (Router la)"
    and eff: "\<And>e. e \<in> set es \<Longrightarrow> effect_inv (acked t) D (bound t) (set ids) e"
    and dec: "\<And>d. d \<in> set D \<Longrightarrow> d \<in> set (decided s) \<or> decision_inv (acked t) (set ids) d"
  shows "cluster_inv R (set ids) t"
proof -
  have A: "set (acked s x) \<subseteq> set (acked t x)" for x
    using grow(1) by (simp add: t emit_def)
  have fields: "nodes t = (nodes s)(i := la)" "acked t = (acked s)(i := us)"
    "ackers t = (ackers s)(i := as)" "decided t = D"
    by (simp_all add: t emit_def)
  have D: "set (decided s) \<subseteq> set (decided t)" using grow(2) fields by simp
  note pro_mono = proposer_inv_mono [where A = "acked s" and A' = "acked t", OF _ A grow(3)]
  note msg_mono = msg_inv_mono [where A = "acked s" and A' = "acked t", OF _ A D grow(3)]
  note dec_mono = decision_inv_mono [where A = "acked s" and A' = "acked t", OF _ A]
  have "acceptor_inv (j \<notin> R) (acked t j) (bound t) j (AcceptorOf (nodes t j))" for j
    using acceptor_inv_mono [OF cluster_invD(1) [OF inv] grow(3)] acc by (simp add: fields)
  moreover have "proposer_inv (acked t) (bound t) (set ids) j (ackers t j) (ProposerOf (nodes t j))" for j
    using pro_mono [OF cluster_invD(2) [OF inv]] pro by (simp add: fields(1,3))
  moreover have "learner_inv (decided t) (bound t) j (LearnerOf (nodes t j))" for j
    using learner_inv_mono [OF cluster_invD(3) [OF inv] D grow(3)] lrn by (simp add: fields(1,4))
  moreover have "router_typed (Router (nodes t j))" for j
    using cluster_invD(8) [OF inv] box(2) by (simp add: fields(1))
  moreover have "msg_inv (acked t) (decided t) (bound t) (set ids) m"
    if "m \<in> mailboxes (Router (nodes t j))" for m j
  proof -
    have "m \<in> mailboxes (Router (nodes s j))"
      using that box(1) by (cases "j = i") (auto simp: fields)
    then show ?thesis
      by (intro msg_mono cluster_invD(4) [OF inv])
  qed
  moreover have "fst x \<in> set ids \<and> msg_inv (acked t) (decided t) (bound t) (set ids) (snd x)" if "x \<in> set (net t)" for x
    using cluster_invD(5) [OF inv] msg_mono
    by (intro emit_net_inv [OF _ _ that [unfolded t]]) (auto simp: fields(4) eff)
  moreover have "value_inv (bound t) (snd x) \<and> known_decision (decided t) (snd x)" if "x \<in> set (callbacks t)" for x
    using cluster_invD(6) [OF inv] value_inv_mono [OF _ grow(3)] known_decision_mono [OF _ D]
    by (intro emit_callbacks_inv [OF _ _ that [unfolded t], of _ _ "acked t" "set ids"]) (auto simp: fields(4) eff)
  moreover have "decision_inv (acked t) (set ids) d" if "d \<in> set (decided t)" for d
    using that dec [of d] dec_mono [OF cluster_invD(7) [OF inv, of d]] by (auto simp: fields(4))
  ultimately show ?thesis
    unfolding cluster_inv_def by blast
qed

section \<open>Each section keeps the invariant\<close>

lemma propose_event_inv:
  assumes inv: "cluster_inv R (set ids) s" and v: "ok v"
  shows "cluster_inv R (set ids) (propose_event L wire ids s i v)"
proof -
  let ?p = "ProposerOf (nodes s i)"
  obtain p es where p: "Proposer_Propose L ?p v = (p, es)" by force
  let ?la = "(nodes s i)\<lparr>ProposerOf := p\<rparr>"
  define t where "t = propose_event L wire ids s i v"
  have t: "t = emit wire ids i es
      (s\<lparr>nodes := (nodes s)(i := ?la), acked := (acked s)(i := acked s i), ackers := (ackers s)(i := []),
        decided := decided s, proposals := proposals s @ [v]\<rparr>)"
    by (simp add: t_def propose_event_def p)
  have bound: "bound t = sup (rep v) (bound s)" and acked: "acked t = acked s"
    by (simp_all add: bound_def t emit_def)
  have pro: "proposer_inv (acked s) (bound s) (set ids) i (ackers s i) ?p"
    by (rule cluster_invD(2) [OF inv])
  have new: "proposer_inv (acked s) (bound t) (set ids) i [] p"
    "effect_inv (acked s) (decided s) (bound t) (set ids) e" if "e \<in> set es" for e
    using p pro v that
    by (auto simp: Proposer_Propose_def Let_def inv_defs wire_laws bound intro: le_supI1 le_supI2)
  have "es \<noteq> []" using p by (auto simp: Proposer_Propose_def Let_def)
  then have new1: "proposer_inv (acked s) (bound t) (set ids) i [] p"
    using new(1) by (cases es) auto
  have "cluster_inv R (set ids) t"
    using acceptor_inv_mono [OF cluster_invD(1) [OF inv]] learner_inv_mono [OF cluster_invD(3) [OF inv]]
      cluster_invD(8) [OF inv] new(2) new1
    by (intro cluster_inv_local [OF inv t]) (simp_all add: bound acked)
  then show ?thesis by (simp add: t_def)
qed

lemma deliver_event_inv:
  assumes inv: "cluster_inv R I s" and k: "k < length (net s)"
  shows "cluster_inv R I (deliver_event s k)"
proof -
  obtain d m where dm: "net s ! k = (d, m)" by force
  let ?t = "deliver_event s k"
  have fields: "nodes ?t = (nodes s)(d := (nodes s d)\<lparr>Router := HandleIncomingMessage (Router (nodes s d)) m\<rparr>)"
    "net ?t = drop_nth k (net s)" "callbacks ?t = callbacks s" "acked ?t = acked s"
    "ackers ?t = ackers s" "decided ?t = decided s" "bound ?t = bound s"
    by (simp_all add: deliver_event_def dm bound_def)
  have "(d, m) \<in> set (net s)" using k dm by (metis nth_mem)
  then have m: "msg_inv (acked s) (decided s) (bound s) I m"
    using cluster_invD(5) [OF inv] by fastforce
  have "msg_inv (acked s) (decided s) (bound s) I m'"
    if "m' \<in> mailboxes (Router (nodes ?t i))" for m' i
    using that m mailboxes_incoming [of "Router (nodes s d)" m] cluster_invD(4) [OF inv, of m']
    by (auto simp: fields split: if_splits)
  then show ?thesis
    using cluster_invD(1-3,5-8) [OF inv] set_drop_nth [of k "net s"]
      router_typed_incoming [OF cluster_invD(8) [OF inv]]
    unfolding cluster_inv_def fields(2-7) by (auto simp: fields(1))
qed

lemma lose_event_inv:
  "cluster_inv R I s \<Longrightarrow> cluster_inv R I (s\<lparr>net := drop_nth k (net s)\<rparr>)"
  using set_drop_nth [of k "net s"] by (auto simp: cluster_inv_def bound_def)

text \<open>The proposer's side of a counted reply.\<close>

lemma checkAndHandleQuorum_inv:
  assumes p: "proposer_inv A B I i as p" and run: "checkAndHandleQuorum p = (p', es)"
    and as': "as' = (if acksReceived p' = [] then [] else as)"
    and D': "D' = D @ map (\<lambda>v. (v, as')) (concat (map decided_values es))"
  shows "proposer_inv A B I i as' p'"
    and "\<forall>e \<in> set es. effect_inv A D' B I e"
    and "\<forall>d \<in> set D'. d \<in> set D \<or> decision_inv A I d"
    and "concat (map acked_values es) = []"
proof -
  have len: "length as = length (acksReceived p)" and q: "quorumSize p = quorum_of I"
    using p by (simp_all add: proposer_inv_def)
  have conc: "proposer_inv A B I i as' p' \<and> (\<forall>e \<in> set es. effect_inv A D' B I e) \<and>
     (\<forall>d \<in> set D'. d \<in> set D \<or> decision_inv A I d) \<and> concat (map acked_values es) = []"
    using run
  proof (cases rule: checkAndHandleQuorum_cases)
    case idle
    with p as' D' len show ?thesis by auto
  next
    case clean
    have as'_eq: "as' = as" using as' clean len by auto
    have "a \<in> I \<and> has_acked A a (proposedValue p)" if a: "a \<in> set as" for a
    proof -
      obtain b where "(a, b) \<in> set (zip as (acksReceived p))"
        using a len by (metis in_set_impl_in_set_zip1)
      moreover then have b using clean(3) by (auto dest: set_zip_rightD)
      ultimately show ?thesis using p by (auto simp: proposer_inv_def)
    qed
    then have "decision_inv A I (proposedValue p, as)"
      using p clean(2) len q by (auto simp: decision_inv_def proposer_inv_def value_inv_def)
    moreover have "proposer_inv A B I i as p'"
      using p clean(4) by (simp add: proposer_inv_def)
    ultimately show ?thesis
      using p D' clean(5) as'_eq
      by (auto simp: msg_inv_def known_decision_def proposer_inv_def)
  next
    case dirty
    then show ?thesis
      using p as' D' by (auto simp: msg_inv_def proposer_inv_def)
  qed
  then show "proposer_inv A B I i as' p'" "\<forall>e \<in> set es. effect_inv A D' B I e"
    "\<forall>d \<in> set D'. d \<in> set D \<or> decision_inv A I d" "concat (map acked_values es) = []"
    by blast+
qed

lemma proposer_inv_count:
  assumes "proposer_inv A B I i as p" "b \<longrightarrow> a \<in> I \<and> has_acked A a (proposedValue p)"
    and "value_inv B w" "rep (proposedValue p) \<le> rep w"
  shows "proposer_inv A B I i (as @ [a]) (p\<lparr>acksReceived := acksReceived p @ [b], bufferedValue := w\<rparr>)"
  using assms by (auto simp: proposer_inv_def)

text \<open>A reply is counted with its sender; then the quorum is checked.\<close>

lemma counted_quorum_inv:
  assumes c: "checkAndHandleQuorum (p\<lparr>acksReceived := acksReceived p @ [b], bufferedValue := w\<rparr>) = (p', es)"
    and q: "proposer_inv A B I i (as @ [a]) (p\<lparr>acksReceived := acksReceived p @ [b], bufferedValue := w\<rparr>)"
    and as': "as' = counted (acksReceived p) (acksReceived p') as a" and len: "length as = length (acksReceived p)"
    and D': "D' = D @ map (\<lambda>v. (v, as')) (concat (map decided_values es))"
  shows "proposer_inv A B I i as' p' \<and> (\<forall>e \<in> set es. effect_inv A D' B I e) \<and>
     (\<forall>d \<in> set D'. d \<in> set D \<or> decision_inv A I d) \<and> concat (map acked_values es) = []"
proof -
  have "acksReceived p' = [] \<or> acksReceived p' = acksReceived p @ [b]"
    using c by (cases rule: checkAndHandleQuorum_cases) auto
  then have "as' = (if acksReceived p' = [] then [] else as @ [a])"
    using as' len by (auto simp: counted_def)
  then show ?thesis using checkAndHandleQuorum_inv [OF q c _ D'] by blast
qed

lemma run_proposer_cases:
  assumes "run_proposer L p m = Inr (p', es)" "Value (Payload m) = Some v"
  obtains (ignored) "p' = p" "es = []"
  | (ack) "Type (Payload m) = Ack" "Equals L v (proposedValue p)"
      "checkAndHandleQuorum (p\<lparr>acksReceived := acksReceived p @ [True], bufferedValue := bufferedValue p\<rparr>) = (p', es)"
  | (nack) "IsIn L (proposedValue p) v"
      "checkAndHandleQuorum (p\<lparr>acksReceived := acksReceived p @ [False],
              bufferedValue := Join L (bufferedValue p) v\<rparr>) = (p', es)"
  using assms
  by (auto simp: run_proposer_def Proposer_HandleAck_def Proposer_HandleNack_def Let_def split: if_splits)

lemma run_proposer_inv:
  assumes p: "proposer_inv A B I i as p" and m: "msg_inv A D B I m"
    and run: "run_proposer L p m = Inr (p', es)"
    and as': "as' = counted (acksReceived p) (acksReceived p') as (Sender m)"
    and D': "D' = D @ map (\<lambda>v. (v, as')) (concat (map decided_values es))"
  shows "proposer_inv A B I i as' p' \<and> (\<forall>e \<in> set es. effect_inv A D' B I e) \<and>
     (\<forall>d \<in> set D'. d \<in> set D \<or> decision_inv A I d) \<and> concat (map acked_values es) = []"
proof -
  obtain v where v: "Value (Payload m) = Some v" "value_inv B v"
    and sender: "Type (Payload m) = Ack \<Longrightarrow> Sender m \<in> I \<and> has_acked A (Sender m) v"
    using m by (auto simp: msg_inv_def)
  have okp: "ok (proposedValue p)" "ok (bufferedValue p)" "ok v" "value_inv B (bufferedValue p)"
    and len: "length as = length (acksReceived p)"
    and le: "rep (proposedValue p) \<le> rep (bufferedValue p)"
    using p v by (auto simp: proposer_inv_def value_inv_def)
  from run v(1) show ?thesis
  proof (cases rule: run_proposer_cases)
    case ignored
    with p as' D' show ?thesis by (simp add: counted_def)
  next
    case ack
    have same: "rep v = rep (proposedValue p)" using ack(2) okp by (simp add: wire_laws)
    have "proposer_inv A B I i (as @ [Sender m])
        (p\<lparr>acksReceived := acksReceived p @ [True], bufferedValue := bufferedValue p\<rparr>)"
      using same sender [OF ack(1)] okp(4) le by (intro proposer_inv_count [OF p]) (auto simp: has_acked_def)
    from counted_quorum_inv [OF ack(3) this as' len D'] show ?thesis .
  next
    case nack
    have "value_inv B (Join L (bufferedValue p) v)" "rep (proposedValue p) \<le> rep (Join L (bufferedValue p) v)"
      using okp v(2) le by (auto simp: value_inv_def wire_laws intro: le_supI1)
    then show ?thesis
      by (intro counted_quorum_inv [OF nack(2) _ as' len D'] proposer_inv_count [OF p]) auto
  qed
qed

lemma run_acceptor_inv:
  assumes a: "acceptor_inv f (A i) B i a" and m: "msg_inv A D B I m" and i: "i \<in> I"
    and run: "Acceptor_HandlePropose L a m = (a', es)"
    and A': "A' = A(i := A i @ concat (map acked_values es))"
  shows "acceptor_inv f (A' i) B i a' \<and> (\<forall>e \<in> set es. effect_inv A' D B I e) \<and>
     concat (map decided_values es) = []"
proof -
  obtain v where v: "Value (Payload m) = Some v" "ok v" "rep v \<le> B"
    using m by (auto simp: msg_inv_def value_inv_def)
  have a0: "ok (acceptedValue a)" "rep (acceptedValue a) \<le> B" "acc_nodeId a = i"
    using a by (auto simp: acceptor_inv_def value_inv_def)
  note new = HandlePropose_accepted [OF a0(1) v(1,2) run]
  have B: "value_inv B (acceptedValue a')"
    using new v a0 by (simp add: value_inv_def)
  from HandlePropose_reply [OF a0(1) v(1,2) run] show ?thesis
  proof (elim disjE conjE)
    assume le: "rep (acceptedValue a) \<le> rep v" and acc: "acceptedValue a' = v"
      and es: "es = [Send (Sender m) \<lparr>Sender = acc_nodeId a, Payload = command Ack v\<rparr>]"
    have "rep u \<le> rep v" if "f" "u \<in> set (A i)" for u
      using a that le by (auto simp: acceptor_inv_def intro: order_trans)
    then have "acceptor_inv f (A' i) B i a'"
      using a A' es acc new(3) v B by (auto simp: acceptor_inv_def sorted_wrt_append)
    moreover have "has_acked A' i v" by (simp add: has_acked_def A' es)
    ultimately show ?thesis
      using es i v a0(3) by (simp add: msg_inv_def value_inv_def)
  next
    assume es: "es = [Send (Sender m) \<lparr>Sender = acc_nodeId a, Payload = command Nack (acceptedValue a')\<rparr>]"
    have "acceptor_inv f (A' i) B i a'"
      using a A' es new B by (auto simp: acceptor_inv_def intro: le_supI1)
    then show ?thesis using es B by (simp add: msg_inv_def)
  qed
qed

lemma run_learner_inv:
  assumes l: "learner_inv D B i l" and m: "msg_inv A D B I m" "Type (Payload m) = Learn"
    and run: "Learner_HandleLearn L l m = Inr (l', es)"
  shows "learner_inv D B i l' \<and> (\<forall>e \<in> set es. effect_inv A D B I e) \<and>
     concat (map decided_values es) = [] \<and> concat (map acked_values es) = []"
proof -
  obtain v where v: "Value (Payload m) = Some v" "value_inv B v" "known_decision D v"
    using m by (auto simp: msg_inv_def)
  show ?thesis
    using l v run
    by (auto simp: Learner_HandleLearn_def Let_def learner_inv_def msg_inv_def split: if_splits)
qed

text \<open>
  What has to hold at node \<open>i\<close> after one of its roles took a message: \<open>as\<close>, \<open>us\<close> and
  \<open>D\<close> are the new history entries.
\<close>

definition role_result where
  "role_result R I s i as us D la es \<longleftrightarrow>
     acceptor_inv (i \<notin> R) us (bound s) i (AcceptorOf la) \<and>
     proposer_inv ((acked s)(i := us)) (bound s) I i as (ProposerOf la) \<and>
     learner_inv D (bound s) i (LearnerOf la) \<and>
     (\<forall>e \<in> set es. effect_inv ((acked s)(i := us)) D (bound s) I e) \<and>
     (\<forall>d \<in> set D. d \<in> set (decided s) \<or> decision_inv ((acked s)(i := us)) I d)"

lemma proposer_role_result:
  assumes inv: "cluster_inv R I s"
    and run: "run_role L (nodes s i) ProposerRole = Some (Inr (la, es))"
    and as: "as = counted (acksReceived (ProposerOf (nodes s i))) (acksReceived (ProposerOf la))
              (ackers s i) (Sender (hd (proposerMailbox (Router (nodes s i)))))"
    and D: "D = decided s @ map (\<lambda>v. (v, as)) (concat (map decided_values es))"
  shows "role_result R I s i as (acked s i @ concat (map acked_values es)) D la es"
proof -
  let ?la = "nodes s i"
  obtain m ms p where q: "proposerMailbox (Router ?la) = m # ms"
    and h: "run_proposer L (ProposerOf ?la) m = Inr (p, es)"
    and la: "la = ?la\<lparr>Router := (Router ?la)\<lparr>proposerMailbox := ms\<rparr>, ProposerOf := p\<rparr>"
    using run by (auto simp: run_role_def split: if_splits list.splits sum.splits)
  have as': "as = counted (acksReceived (ProposerOf ?la)) (acksReceived p) (ackers s i) (Sender m)"
    using la q by (simp add: as)
  have "msg_inv (acked s) (decided s) (bound s) I m"
    by (rule cluster_invD(4) [OF inv, of _ i]) (simp add: mailboxes_def q)
  from run_proposer_inv [OF cluster_invD(2) [OF inv] this h as' D]
  have r: "proposer_inv (acked s) (bound s) I i as p"
    "\<forall>e \<in> set es. effect_inv (acked s) D (bound s) I e"
    "\<forall>d \<in> set D. d \<in> set (decided s) \<or> decision_inv (acked s) I d"
    "concat (map acked_values es) = []"
    by blast+
  have "set (decided s) \<subseteq> set D" by (simp add: D)
  then show ?thesis
    using la cluster_invD(1) [OF inv, of i] learner_inv_mono [OF cluster_invD(3) [OF inv, of i]]
    by (simp add: role_result_def r)
qed

lemma acceptor_role_result:
  assumes inv: "cluster_inv R I s" and i: "i \<in> I"
    and run: "run_role L (nodes s i) AcceptorRole = Some (Inr (la, es))"
    and D: "D = decided s @ map (\<lambda>v. (v, ackers s i)) (concat (map decided_values es))"
  shows "role_result R I s i (ackers s i) (acked s i @ concat (map acked_values es)) D la es"
proof -
  let ?la = "nodes s i" and ?us = "acked s i @ concat (map acked_values es)"
  obtain m ms a where q: "acceptorMailbox (Router ?la) = m # ms"
    and h: "Acceptor_HandlePropose L (AcceptorOf ?la) m = (a, es)"
    and la: "la = ?la\<lparr>Router := (Router ?la)\<lparr>acceptorMailbox := ms\<rparr>, AcceptorOf := a\<rparr>"
    using run by (auto simp: run_role_def split: if_splits list.splits prod.splits)
  have "msg_inv (acked s) (decided s) (bound s) I m"
    by (rule cluster_invD(4) [OF inv, of _ i]) (simp add: mailboxes_def q)
  from run_acceptor_inv [OF cluster_invD(1) [OF inv] this i h refl]
  have r: "acceptor_inv (i \<notin> R) ?us (bound s) i a"
    "\<forall>e \<in> set es. effect_inv ((acked s)(i := ?us)) (decided s) (bound s) I e"
    "concat (map decided_values es) = []"
    by auto
  have "proposer_inv ((acked s)(i := ?us)) (bound s) I i (ackers s i) (ProposerOf ?la)"
    by (rule proposer_inv_mono [OF cluster_invD(2) [OF inv]]) auto
  then show ?thesis
    using la cluster_invD(3) [OF inv, of i] by (simp add: role_result_def r D)
qed

lemma learner_role_result:
  assumes inv: "cluster_inv R I s"
    and run: "run_role L (nodes s i) LearnerRole = Some (Inr (la, es))"
    and D: "D = decided s @ map (\<lambda>v. (v, ackers s i)) (concat (map decided_values es))"
  shows "role_result R I s i (ackers s i) (acked s i @ concat (map acked_values es)) D la es"
proof -
  let ?la = "nodes s i"
  obtain m ms l where q: "learnerMailbox (Router ?la) = m # ms"
    and h: "Learner_HandleLearn L (LearnerOf ?la) m = Inr (l, es)"
    and la: "la = ?la\<lparr>Router := (Router ?la)\<lparr>learnerMailbox := ms\<rparr>, LearnerOf := l\<rparr>"
    using run by (auto simp: run_role_def split: if_splits list.splits sum.splits)
  have "msg_inv (acked s) (decided s) (bound s) I m"
    by (rule cluster_invD(4) [OF inv, of _ i]) (simp add: mailboxes_def q)
  moreover have "Type (Payload m) = Learn"
    using cluster_invD(8) [OF inv, of i] q by (simp add: router_typed_def)
  ultimately have r: "learner_inv (decided s) (bound s) i l"
    "\<forall>e \<in> set es. effect_inv (acked s) (decided s) (bound s) I e"
    "concat (map decided_values es) = []" "concat (map acked_values es) = []"
    using run_learner_inv [OF cluster_invD(3) [OF inv] _ _ h] by blast+
  show ?thesis
    using la cluster_invD(1,2) [OF inv, of i] by (simp add: role_result_def r D)
qed

lemma run_event_inv:
  assumes inv: "cluster_inv R (set ids) s" and i: "i \<in> set ids"
    and run: "run_event L wire ids s i role = Some t"
  shows "cluster_inv R (set ids) t"
proof -
  obtain la es where rr: "run_role L (nodes s i) role = Some (Inr (la, es))"
    using run by (auto simp: run_event_def split: option.splits sum.splits)
  define as where "as = (if role = ProposerRole
       then counted (acksReceived (ProposerOf (nodes s i))) (acksReceived (ProposerOf la))
              (ackers s i) (Sender (hd (proposerMailbox (Router (nodes s i))))) else ackers s i)"
  let ?us = "acked s i @ concat (map acked_values es)"
  let ?D = "decided s @ map (\<lambda>v. (v, as)) (concat (map decided_values es))"
  have t: "t = emit wire ids i es
      (s\<lparr>nodes := (nodes s)(i := la), acked := (acked s)(i := ?us), ackers := (ackers s)(i := as),
        decided := ?D, proposals := proposals s\<rparr>)"
    using run rr by (simp add: run_event_def Let_def as_def)
  have bt: "bound t = bound s" and at: "acked t = (acked s)(i := ?us)"
    by (simp_all add: t bound_def emit_def)
  have "role_result R (set ids) s i as ?us ?D la es"
    using rr proposer_role_result [OF inv] acceptor_role_result [OF inv i] learner_role_result [OF inv]
    by (cases role) (simp_all add: as_def)
  then show ?thesis
    using run_role_router [OF rr] cluster_invD(8) [OF inv, of i]
    by (intro cluster_inv_local [OF inv t]) (auto simp: bt at role_result_def)
qed

section \<open>Reachable states satisfy the invariant\<close>

lemma init_cluster_inv:
  assumes "gm_ok ps" "set ids = gm_dom ps" "ok b" "rep b = bot"
  shows "cluster_inv R (set ids) (init_cluster ps b cap)"
proof -
  have "length ps = card (set ids)" using assms by (simp add: gm_length)
  then show ?thesis
    using assms
    by (simp add: cluster_inv_def init_cluster_def LatticeAgreement_Start_def
        NewLatticeAgreement_def NewProposer_def inv_defs quorum_of_def)
qed

lemma cluster_step_inv:
  assumes "cluster_inv R (set ids) s" "event_ok ok e" "cluster_step L wire ids s e = Some t"
  shows "cluster_inv R (set ids) t"
  using assms
  by (cases e) (auto split: if_splits intro: propose_event_inv deliver_event_inv lose_event_inv
      run_event_inv)

lemma cluster_reach_inv:
  assumes "cluster_reach L wire ids ok s0 s" "cluster_inv R (set ids) s0"
  shows "cluster_inv R (set ids) s"
  using assms by (induction rule: cluster_reach.induct) (auto intro: cluster_step_inv)

section \<open>Consequences\<close>

lemma acked_chain:
  assumes "cluster_inv R I s" "a \<notin> R" "u \<in> set (acked s a)" "w \<in> set (acked s a)"
  shows "rep u \<le> rep w \<or> rep w \<le> rep u"
proof -
  have "sorted_wrt (\<lambda>u w. rep u \<le> rep w) (acked s a)"
    using cluster_invD(1) [OF assms(1), of a] assms(2) by (simp add: acceptor_inv_def)
  then show ?thesis
    using assms(3,4) by (metis in_set_conv_nth linorder_neqE_nat order_refl sorted_wrt_iff_nth_less)
qed

lemma decision_majority:
  assumes "decision_inv A I d" "distinct (snd d)"
  shows "majority I (set (snd d))"
  using assms by (simp add: decision_inv_def majority_def distinct_card)

lemma decided_comparable_or_restarted:
  assumes inv: "cluster_inv R (set ids) s" and d: "d \<in> set (decided s)" and e: "e \<in> set (decided s)"
  shows "IsIn L (fst d) (fst e) \<or> IsIn L (fst e) (fst d) \<or> set (snd d) \<inter> set (snd e) \<subseteq> R"
proof -
  note di = cluster_invD(7) [OF inv d] and ei = cluster_invD(7) [OF inv e]
  have "rep (fst d) \<le> rep (fst e) \<or> rep (fst e) \<le> rep (fst d) \<or> set (snd d) \<inter> set (snd e) \<subseteq> R"
    by (rule peers_quorum.chain_comparable [where held = "\<lambda>a. rep ` set (acked s a)"])
      (use di ei acked_chain [OF inv] in \<open>auto simp: decision_inv_def has_acked_def\<close>)
  then show ?thesis
    using di ei by (simp add: decision_inv_def wire_laws)
qed

lemma decided_comparable:
  assumes inv: "cluster_inv {} (set ids) s"
    and d: "d \<in> set (decided s)" "distinct (snd d)"
    and e: "e \<in> set (decided s)" "distinct (snd e)"
  shows "IsIn L (fst d) (fst e) \<or> IsIn L (fst e) (fst d)"
proof -
  have "majority (set ids) (set (snd d))" "majority (set ids) (set (snd e))"
    by (rule decision_majority [OF cluster_invD(7) [OF inv]], fact d e, fact d e)+
  then obtain a where "a \<in> set (snd d)" "a \<in> set (snd e)" using peers_quorum.meet by blast
  then show ?thesis using decided_comparable_or_restarted [OF inv d(1) e(1)] by blast
qed

lemma role_never_panics:
  assumes inv: "cluster_inv R I s"
  shows "run_role L (nodes s i) role \<noteq> Some (Inl e)"
proof -
  have "\<exists>v. Value (Payload m) = Some v" if "m \<in> mailboxes (Router (nodes s i))" for m
    using cluster_invD(4) [OF inv that] by (auto simp: msg_inv_def)
  then show ?thesis
    by (fastforce simp: run_role_def run_proposer_def Proposer_HandleAck_def Proposer_HandleNack_def
        Learner_HandleLearn_def Let_def mailboxes_def
        split: role.splits list.splits if_splits option.splits prod.splits)
qed

lemma learned_decided:
  assumes "cluster_inv R I s"
  shows "rep (learnedValue (LearnerOf (nodes s i))) = bot \<or>
    (\<exists>d \<in> set (decided s). rep (fst d) = rep (learnedValue (LearnerOf (nodes s i))))"
  using cluster_invD(3) [OF assms] by (simp add: learner_inv_def known_decision_def)

lemma learned_bounded:
  assumes "cluster_inv R I s"
  shows "rep (learnedValue (LearnerOf (nodes s i))) \<le> fold sup (map rep (proposals s)) bot"
  using cluster_invD(3) [OF assms, of i] by (simp add: learner_inv_def value_inv_def bound_def)

lemma HandleLearn_grows:
  assumes "Learner_HandleLearn L l m = Inr (l', es)" "ok (learnedValue l)"
    and "\<And>v. Value (Payload m) = Some v \<Longrightarrow> ok v"
  shows "rep (learnedValue l) \<le> rep (learnedValue l')"
  using assms
  by (auto simp: Learner_HandleLearn_def Let_def wire_laws split: option.splits if_splits)

lemma run_role_grows:
  assumes inv: "cluster_inv R I s" and run: "run_role L (nodes s i) role = Some (Inr (la, es))"
  shows "rep (learnedValue (LearnerOf (nodes s i))) \<le> rep (learnedValue (LearnerOf la)) \<and>
    rep (acceptedValue (AcceptorOf (nodes s i))) \<le> rep (acceptedValue (AcceptorOf la))"
proof -
  let ?la = "nodes s i"
  have okl: "ok (learnedValue (LearnerOf ?la))" and oka: "ok (acceptedValue (AcceptorOf ?la))"
    using cluster_invD(1,3) [OF inv, of i] by (auto simp: learner_inv_def acceptor_inv_def value_inv_def)
  have mail: "\<exists>v. Value (Payload m) = Some v \<and> ok v" if "m \<in> mailboxes (Router ?la)" for m
    using cluster_invD(4) [OF inv that] by (auto simp: msg_inv_def value_inv_def)
  show ?thesis
  proof (cases role)
    case ProposerRole
    then show ?thesis
      using run by (auto simp: run_role_def split: if_splits list.splits sum.splits)
  next
    case AcceptorRole
    then obtain m ms a where q: "acceptorMailbox (Router ?la) = m # ms"
      and h: "Acceptor_HandlePropose L (AcceptorOf ?la) m = (a, es)"
      and la: "la = ?la\<lparr>Router := (Router ?la)\<lparr>acceptorMailbox := ms\<rparr>, AcceptorOf := a\<rparr>"
      using run by (auto simp: run_role_def split: if_splits list.splits prod.splits)
    obtain v where v: "Value (Payload m) = Some v" "ok v"
      using mail [of m] q by (auto simp: mailboxes_def)
    then show ?thesis using HandlePropose_accepted(2) [OF oka v h] la by simp
  next
    case LearnerRole
    then obtain m ms l where q: "learnerMailbox (Router ?la) = m # ms"
      and h: "Learner_HandleLearn L (LearnerOf ?la) m = Inr (l, es)"
      and la: "la = ?la\<lparr>Router := (Router ?la)\<lparr>learnerMailbox := ms\<rparr>, LearnerOf := l\<rparr>"
      using run by (auto simp: run_role_def split: if_splits list.splits sum.splits)
    show ?thesis
      using HandleLearn_grows [OF h okl] mail [of m] q la by (auto simp: mailboxes_def)
  qed
qed

lemma cluster_step_grows:
  assumes inv: "cluster_inv R I s" and step: "cluster_step L wire ids s e = Some t"
  shows "rep (learnedValue (LearnerOf (nodes s i))) \<le> rep (learnedValue (LearnerOf (nodes t i))) \<and>
    rep (acceptedValue (AcceptorOf (nodes s i))) \<le> rep (acceptedValue (AcceptorOf (nodes t i)))"
proof (cases e)
  case (EPropose j v)
  with step show ?thesis
    by (auto simp: propose_event_def emit_def split: if_splits prod.splits)
next
  case (EDeliver k)
  with step show ?thesis
    by (auto simp: deliver_event_def split: if_splits prod.splits)
next
  case (ELose k)
  with step show ?thesis by (auto split: if_splits)
next
  case (ERun j role)
  then obtain la es where rr: "run_role L (nodes s j) role = Some (Inr (la, es))"
    and t: "nodes t = (nodes s)(j := la)"
    using step by (auto simp: run_event_def Let_def emit_def split: if_splits option.splits sum.splits)
  show ?thesis using run_role_grows [OF inv rr] by (simp add: t)
qed

end

end
