(* ===== verification/Agreement.thy ===== *)
theory Agreement
  imports Cluster
begin

text \<open>
  Properties of the whole protocol on counter maps: the locale lemmas of \<open>Cluster\<close> through the
  interpretation of \<open>wire_lattice\<close> by \<open>CounterMap\<close>, with the statements written out.
\<close>

definition suffren_reach :: "(NodeId, string) gomap \<Rightarrow> nat \<Rightarrow> CounterMap cluster \<Rightarrow> bool" where
  "suffren_reach ps cap s \<longleftrightarrow>
     cluster_reach CounterMap_Lattice CounterMap_transfer (map fst ps) (CounterMap_ok (gm_dom ps))
       (init_cluster ps (NewCounterMap (map fst ps)) cap) s"

definition suffren_run :: "(NodeId, string) gomap \<Rightarrow> nat \<Rightarrow> CounterMap event list \<Rightarrow> CounterMap cluster option" where
  "suffren_run ps cap es =
     cluster_run CounterMap_Lattice CounterMap_transfer (map fst ps)
       (init_cluster ps (NewCounterMap (map fst ps)) cap) es"

lemma suffren_reach_inv:
  "gm_ok ps \<Longrightarrow> suffren_reach ps cap s \<Longrightarrow>
   wire_lattice.cluster_inv (CounterMap_ok (gm_dom ps)) CounterMap_rep {} (gm_dom ps) s"
  unfolding suffren_reach_def
  using countermap_wire.cluster_reach_inv [where ids = "map fst ps" and N = "gm_dom ps"]
    countermap_wire.init_cluster_inv [where ps = ps and ids = "map fst ps" and N = "gm_dom ps"
      and b = "NewCounterMap (map fst ps)"]
  by (simp add: gm_dom_def)

lemma suffren_run_reach:
  "suffren_run ps cap es = Some s \<Longrightarrow> list_all (event_ok (CounterMap_ok (gm_dom ps))) es \<Longrightarrow>
   suffren_reach ps cap s"
  unfolding suffren_run_def suffren_reach_def
  by (rule cluster_run_reach [OF reach_start])

section \<open>Example runs\<close>

definition peers3 :: "(NodeId, string) gomap" where
  "peers3 = [(''N1'', ''a''), (''N2'', ''b''), (''N3'', ''c'')]"

definition count_of :: "NodeId \<Rightarrow> CounterMap" where
  "count_of n = CounterMap_IncrementKey (NewCounterMap (map fst peers3)) ''k'' n 1"

text \<open>One proposal by \<open>N1\<close>, acknowledged by \<open>N1\<close> and \<open>N2\<close>.\<close>

definition plain_run :: "CounterMap event list" where
  "plain_run =
     [EPropose ''N1'' (count_of ''N1''), EDeliver 0, EDeliver 0,
      ERun ''N1'' AcceptorRole, ERun ''N2'' AcceptorRole, EDeliver 1, EDeliver 1,
      ERun ''N1'' ProposerRole, ERun ''N1'' ProposerRole]"

text \<open>
  \<open>N1\<close> proposes the same value twice (two reads in a row do that) before any reply comes
  back; its own acceptor acknowledges both. Then \<open>N3\<close> proposes and reaches \<open>N2\<close> and itself.
\<close>

definition double_ack_run :: "CounterMap event list" where
  "double_ack_run =
     [EPropose ''N1'' (count_of ''N1''), EPropose ''N1'' (count_of ''N1''),
      EDeliver 0, EDeliver 2, ERun ''N1'' AcceptorRole, ERun ''N1'' AcceptorRole,
      EDeliver 4, EDeliver 4, ERun ''N1'' ProposerRole, ERun ''N1'' ProposerRole,
      EPropose ''N3'' (count_of ''N3''), EDeliver 8, EDeliver 8,
      ERun ''N2'' AcceptorRole, ERun ''N3'' AcceptorRole, EDeliver 8, EDeliver 8,
      ERun ''N3'' ProposerRole, ERun ''N3'' ProposerRole]"

text \<open>
  After the plain run \<open>N2\<close> proposes its own count, is refused by both acceptors, merges what
  they hold, proposes again, decides, and learns.
\<close>

definition contended_run :: "CounterMap event list" where
  "contended_run = plain_run @
     [EPropose ''N2'' (count_of ''N2''), EDeliver 4, EDeliver 4,
      ERun ''N1'' AcceptorRole, ERun ''N2'' AcceptorRole, EDeliver 5, EDeliver 5,
      ERun ''N2'' ProposerRole, ERun ''N2'' ProposerRole, EDeliver 5, EDeliver 5,
      ERun ''N1'' AcceptorRole, ERun ''N2'' AcceptorRole, EDeliver 6, EDeliver 6,
      ERun ''N2'' ProposerRole, ERun ''N2'' ProposerRole, EDeliver 7, ERun ''N2'' LearnerRole]"

definition count_both :: CounterMap where
  "count_both = CounterMap_IncrementKey (count_of ''N1'') ''k'' ''N2'' 1"

lemma contended_run_result:
  "map_option (\<lambda>s. (decided s, learnedValue (LearnerOf (nodes s ''N2'')), callbacks s))
      (suffren_run peers3 8 contended_run) =
     Some ([(count_of ''N1'', [''N1'', ''N2'']), (count_both, [''N1'', ''N2''])],
           CounterMap_transfer count_both, [(''N2'', CounterMap_transfer count_both)])"
  by code_simp

lemma double_ack_run_result:
  "map_option decided (suffren_run peers3 8 double_ack_run) =
     Some [(count_of ''N1'', [''N1'', ''N1'']), (count_of ''N3'', [''N2'', ''N3''])]"
  by code_simp

lemma example_events_ok:
  "list_all (event_ok (CounterMap_ok (gm_dom peers3))) contended_run"
  "list_all (event_ok (CounterMap_ok (gm_dom peers3))) double_ack_run"
  by code_simp+

lemma peers3_ok: "gm_ok peers3"
  by code_simp

lemma example_run_reach:
  assumes "map_option f (suffren_run peers3 cap es) = Some x"
    and "list_all (event_ok (CounterMap_ok (gm_dom peers3))) es"
  shows "\<exists>s. suffren_reach peers3 cap s \<and> f s = x"
  using assms suffren_run_reach [of peers3 cap es] by auto

lemma contended_state:
  obtains s where "suffren_reach peers3 8 s"
    "decided s = [(count_of ''N1'', [''N1'', ''N2'']), (count_both, [''N1'', ''N2''])]"
    "learnedValue (LearnerOf (nodes s ''N2'')) = CounterMap_transfer count_both"
    "callbacks s = [(''N2'', CounterMap_transfer count_both)]"
  using example_run_reach [OF contended_run_result example_events_ok(1)] by auto

section \<open>Properties\<close>

lemma decided_facts:
  assumes "gm_ok ps" "suffren_reach ps cap s" "d \<in> set (decided s)"
  shows "CounterMap_ok (gm_dom ps) (fst d)"
  using countermap_wire.cluster_invD(7) [OF suffren_reach_inv [OF assms(1,2)] assms(3)]
  by (simp add: countermap_wire.decision_inv_def)

text \<open>
  C11: agreement. In every reachable state of the cluster, under any scheduling, reordering and
  loss of messages, two values that proposers broadcast as \<open>LEARN\<close> are comparable, provided
  the replies each of the two proposers counted came from different acceptors.
\<close>

theorem learned_values_comparable:
  assumes "gm_ok ps" "suffren_reach ps cap s"
    and "d \<in> set (decided s)" "distinct (snd d)" "e \<in> set (decided s)" "distinct (snd e)"
  shows "CounterMap_IsIn (fst d) (fst e) \<or> CounterMap_IsIn (fst e) (fst d)"
  using countermap_wire.decided_comparable [of "gm_dom ps" "map fst ps" s d e]
    suffren_reach_inv [OF assms(1,2)] assms(3-6)
  by (simp add: CounterMap_Lattice_def gm_dom_def)

theorem learned_values_comparable_witness:
  "\<exists>s d e. suffren_reach peers3 8 s \<and> d \<in> set (decided s) \<and> e \<in> set (decided s) \<and>
     distinct (snd d) \<and> distinct (snd e) \<and> \<not> CounterMap_Equals (fst d) (fst e) \<and>
     (CounterMap_IsIn (fst d) (fst e) \<or> CounterMap_IsIn (fst e) (fst d))"
proof -
  obtain s where s: "suffren_reach peers3 8 s"
    "decided s = [(count_of ''N1'', [''N1'', ''N2'']), (count_both, [''N1'', ''N2''])]"
    using contended_state by blast
  let ?d = "(count_of ''N1'', [''N1'', ''N2''])" and ?e = "(count_both, [''N1'', ''N2''])"
  have de: "?d \<in> set (decided s)" "distinct (snd ?d)" "?e \<in> set (decided s)" "distinct (snd ?e)"
    using s by simp_all
  have ne: "\<not> CounterMap_Equals (fst ?d) (fst ?e)" by code_simp
  from learned_values_comparable [OF peers3_ok s(1) de]
  show ?thesis using s(1) de ne by blast
qed

text \<open>
  C12: the proviso of agreement cannot be dropped for the code as it is. The proposer counts
  replies, not acceptors: when it proposes the same value twice, one acceptor's two
  acknowledgements make a quorum of a three-node cluster, and two incomparable values are
  broadcast as learned.
\<close>

theorem repeated_proposal_breaks_agreement:
  "\<exists>s d e. suffren_reach peers3 8 s \<and> d \<in> set (decided s) \<and> e \<in> set (decided s) \<and>
     set (snd d) = {''N1''} \<and>
     \<not> CounterMap_IsIn (fst d) (fst e) \<and> \<not> CounterMap_IsIn (fst e) (fst d)"
proof -
  obtain s where s: "suffren_reach peers3 8 s"
    "decided s = [(count_of ''N1'', [''N1'', ''N1'']), (count_of ''N3'', [''N2'', ''N3''])]"
    using example_run_reach [OF double_ack_run_result example_events_ok(2)] by blast
  have "\<not> CounterMap_IsIn (count_of ''N1'') (count_of ''N3'')"
    "\<not> CounterMap_IsIn (count_of ''N3'') (count_of ''N1'')"
    by code_simp+
  then show ?thesis
    by (intro exI [of _ s] exI [of _ "(count_of ''N1'', [''N1'', ''N1''])"]
        exI [of _ "(count_of ''N3'', [''N2'', ''N3''])"]) (simp add: s)
qed

lemma fold_sup_point:
  fixes f :: "string \<Rightarrow> (NodeId \<Rightarrow> nat) option"
  assumes "f \<le> fold sup fs bot" "f k = Some c"
  shows "\<exists>g \<in> set fs. \<exists>c'. g k = Some c' \<and> c n \<le> c' n"
  using assms
proof (induction fs arbitrary: f c rule: rev_induct)
  case Nil
  then show ?case
    using le_funD [OF Nil.prems(1), of k] by (simp add: bot_option_def)
next
  case (snoc g fs)
  let ?r = "fold sup fs bot"
  have le: "f k \<le> sup (g k) (?r k)" 
  proof -
    have "f \<le> sup g ?r" using snoc.prems(1) by (simp only: fold_append fold.simps comp_apply id_apply)
    then have "f k \<le> (sup g ?r) k" by (rule le_funD)
    then show ?thesis by (simp only: sup_fun_def)
  qed
  show ?case
  proof (cases "\<exists>c'. g k = Some c' \<and> c n \<le> c' n")
    case False
    then obtain r where r: "?r k = Some r" "c n \<le> r n"
      using le snoc.prems(2) by (cases "g k"; cases "?r k") (auto simp: le_fun_def sup_nat_def max_def
          split: if_splits dest: spec [of _ n])
    have "\<exists>h \<in> set fs. \<exists>c'. h k = Some c' \<and> r n \<le> c' n"
      by (rule snoc.IH [OF order_refl r(1)])
    then show ?thesis using r(2) by (auto intro: order_trans)
  qed simp
qed

lemma counts_below_proposals:
  assumes "CounterMap_rep v \<le> fold sup (map CounterMap_rep ps) bot" "0 < CounterMap_count v key n"
  shows "\<exists>p \<in> set ps. CounterMap_count v key n \<le> CounterMap_count p key n"
proof -
  obtain c where c: "CounterMap_rep v key = Some c" "CounterMap_count v key n = c n"
    using assms(2) by (auto simp: CounterMap_count_def split: option.splits)
  from fold_sup_point [OF assms(1) c(1), of n] show ?thesis
    unfolding c(2) by (force simp: CounterMap_count_def)
qed

text \<open>
  C13: validity. Every per-node count in a node's learned value was proposed: it is at most the
  count some call of \<open>Propose\<close> carried for that key and node. The protocol invents nothing.
\<close>

theorem learned_counts_were_proposed:
  assumes "gm_ok ps" "suffren_reach ps cap s"
    and "0 < CounterMap_count (learnedValue (LearnerOf (nodes s i))) key n"
  shows "\<exists>p \<in> set (proposals s).
    CounterMap_count (learnedValue (LearnerOf (nodes s i))) key n \<le> CounterMap_count p key n"
  by (rule counts_below_proposals [OF countermap_wire.learned_bounded [OF suffren_reach_inv [OF assms(1,2)]] assms(3)])

theorem learned_counts_were_proposed_witness:
  "\<exists>s. suffren_reach peers3 8 s \<and>
     0 < CounterMap_count (learnedValue (LearnerOf (nodes s ''N2''))) ''k'' ''N1'' \<and>
     (\<exists>p \<in> set (proposals s).
        CounterMap_count (learnedValue (LearnerOf (nodes s ''N2''))) ''k'' ''N1''
          \<le> CounterMap_count p ''k'' ''N1'')"
proof -
  obtain s where s: "suffren_reach peers3 8 s"
    "learnedValue (LearnerOf (nodes s ''N2'')) = CounterMap_transfer count_both"
    using contended_state by blast
  have pos: "0 < CounterMap_count (learnedValue (LearnerOf (nodes s ''N2''))) ''k'' ''N1''"
    unfolding s(2) by code_simp
  show ?thesis
    using learned_counts_were_proposed [OF peers3_ok s(1) pos] s(1) pos by blast
qed

text \<open>
  C14: whatever a learner holds or reports to the engine was decided: it is the bottom or has
  the counts of a value some proposer broadcast as \<open>LEARN\<close> after a full quorum of
  acknowledgements.
\<close>

theorem learners_report_decisions:
  assumes "gm_ok ps" "suffren_reach ps cap s"
    and "v = learnedValue (LearnerOf (nodes s i)) \<or> (i, v) \<in> set (callbacks s)"
  shows "CounterMap_rep v = bot \<or>
    (\<exists>d \<in> set (decided s). CounterMap_rep (fst d) = CounterMap_rep v \<and>
       length ps div 2 + 1 \<le> length (snd d) \<and> set (snd d) \<subseteq> gm_dom ps)"
proof -
  note inv = suffren_reach_inv [OF assms(1,2)]
  have "countermap_wire.known_decision (decided s) v"
    using countermap_wire.cluster_invD(3) [OF inv, of i] assms(3)
      countermap_wire.cluster_invD(6) [OF inv, of "(i, v)"]
    by (auto simp: countermap_wire.learner_inv_def)
  moreover have "quorum_of (gm_dom ps) \<le> length (snd d) \<and> set (snd d) \<subseteq> gm_dom ps"
    if "d \<in> set (decided s)" for d
    using countermap_wire.cluster_invD(7) [OF inv that] by (simp add: countermap_wire.decision_inv_def)
  ultimately show ?thesis
    using assms(1) by (auto simp: countermap_wire.known_decision_def quorum_of_def gm_length)
qed

theorem learners_report_decisions_witness:
  "\<exists>s v. suffren_reach peers3 8 s \<and> (''N2'', v) \<in> set (callbacks s) \<and> CounterMap_rep v \<noteq> bot \<and>
     (\<exists>d \<in> set (decided s). CounterMap_rep (fst d) = CounterMap_rep v \<and>
        length peers3 div 2 + 1 \<le> length (snd d) \<and> set (snd d) \<subseteq> gm_dom peers3)"
proof -
  let ?v = "CounterMap_transfer count_both"
  obtain s where s: "suffren_reach peers3 8 s" "callbacks s = [(''N2'', ?v)]"
    using contended_state by blast
  have "CounterMap_rep ?v ''k'' \<noteq> None" by code_simp
  then have nb: "CounterMap_rep ?v \<noteq> bot" by (auto simp: bot_fun_def bot_option_def)
  have mem: "(''N2'', ?v) \<in> set (callbacks s)" by (simp add: s)
  from learners_report_decisions [OF peers3_ok s(1) disjI2 [OF mem]] show ?thesis
    using nb s(1) mem by blast
qed

text \<open>
  C15: no event of a reachable cluster makes a role panic, and along every event the accepted
  and the learned value of every node only grow in the order of \<open>IsIn\<close>.
\<close>

theorem roles_never_panic_and_grow:
  assumes "gm_ok ps" "suffren_reach ps cap s"
  shows "run_role CounterMap_Lattice (nodes s i) role \<noteq> Some (Inl err) \<and>
    (cluster_step CounterMap_Lattice CounterMap_transfer (map fst ps) s e = Some t \<longrightarrow>
     CounterMap_rep (learnedValue (LearnerOf (nodes s i)))
       \<le> CounterMap_rep (learnedValue (LearnerOf (nodes t i))) \<and>
     CounterMap_rep (acceptedValue (AcceptorOf (nodes s i)))
       \<le> CounterMap_rep (acceptedValue (AcceptorOf (nodes t i))))"
  using countermap_wire.role_never_panics [OF suffren_reach_inv [OF assms]]
    countermap_wire.cluster_step_grows [OF suffren_reach_inv [OF assms]]
  by blast

theorem roles_never_panic_and_grow_witness:
  "\<exists>s t. suffren_reach peers3 8 s \<and>
     cluster_step CounterMap_Lattice CounterMap_transfer (map fst peers3) s (EPropose ''N1'' count_both) = Some t \<and>
     CounterMap_rep (learnedValue (LearnerOf (nodes s ''N2'')))
       \<le> CounterMap_rep (learnedValue (LearnerOf (nodes t ''N2'')))"
proof -
  obtain s where s: "suffren_reach peers3 8 s" using contended_state by blast
  have "''N1'' \<in> set (map fst peers3)" by code_simp
  then obtain t where t: "cluster_step CounterMap_Lattice CounterMap_transfer (map fst peers3) s
      (EPropose ''N1'' count_both) = Some t" by simp
  then show ?thesis using roles_never_panic_and_grow [OF peers3_ok s] s by blast
qed

end
