(* ===== verification/Service.thy ===== *)
theory Service
  imports Host Agreement
begin

text \<open>
  The whole service: on every node an engine with its callers (\<open>Host\<close>) on top of the lattice
  agreement of \<open>Cluster\<close>, wired as \<open>engine.New\<close> does: a flush or a \<open>sync\<close> calls
  \<open>Proposer.Propose\<close> of the node, and the learner's callback, which runs in a goroutine of its
  own, calls the engine's \<open>onLearn\<close>. \<open>fired\<close> are the callbacks (by position in
  \<open>callbacks\<close>) that have run; the others may still run, in any order.
\<close>

record system =
  agreement :: "CounterMap cluster"
  hosts :: "NodeId \<Rightarrow> host"
  fired :: "nat list"

datatype system_event =
    SHost NodeId host_event
  | SNet "CounterMap event"
  | SCallback nat

definition propose_all :: "NodeId list \<Rightarrow> NodeId \<Rightarrow> CounterMap list \<Rightarrow> CounterMap cluster \<Rightarrow> CounterMap cluster" where
  "propose_all ids i ps a =
     fold (\<lambda>p a. propose_event CounterMap_Lattice CounterMap_transfer ids a i p) ps a"

fun is_propose :: "'v event \<Rightarrow> bool" where
  "is_propose (EPropose i v) = True"
| "is_propose _ = False"

fun system_step :: "NodeId list \<Rightarrow> system \<Rightarrow> system_event \<Rightarrow> system option" where
  "system_step ids s (SHost i e) =
     (if i \<in> set ids then
        (case host_step (hosts s i) e of
           None \<Rightarrow> None
         | Some (h, ps) \<Rightarrow>
             Some (s\<lparr>hosts := (hosts s)(i := h), agreement := propose_all ids i ps (agreement s)\<rparr>))
      else None)"
| "system_step ids s (SNet e) =
     (if is_propose e then None else
        map_option (\<lambda>a. s\<lparr>agreement := a\<rparr>)
          (cluster_step CounterMap_Lattice CounterMap_transfer ids (agreement s) e))"
| "system_step ids s (SCallback k) =
     (if k < length (callbacks (agreement s)) \<and> k \<notin> set (fired s) then
        (case callbacks (agreement s) ! k of
           (i, v) \<Rightarrow> Some (s\<lparr>hosts := (hosts s)(i := host_learn (hosts s i) v), fired := k # fired s\<rparr>))
      else None)"

text \<open>Nodes that start from a new state: no file yet, or \<open>NoopStorage\<close>.\<close>

definition init_system :: "(NodeId, string) gomap \<Rightarrow> nat \<Rightarrow> int \<Rightarrow> system" where
  "init_system ps cap maxBatch =
     \<lparr>agreement = init_cluster ps (NewCounterMap (map fst ps)) cap,
      hosts = (\<lambda>i. new_host (NewEngine i ps maxBatch (\<lambda>ids. Inr (NewCounterMap ids) :: unit + CounterMap))),
      fired = []\<rparr>"

fun system_event_ok :: "system \<Rightarrow> system_event \<Rightarrow> bool" where
  "system_event_ok s (SHost i e) = host_event_ok (hosts s i) e"
| "system_event_ok s _ = True"

inductive system_reach :: "(NodeId, string) gomap \<Rightarrow> nat \<Rightarrow> int \<Rightarrow> system \<Rightarrow> bool"
  for ps cap maxBatch where
  sys_start: "system_reach ps cap maxBatch (init_system ps cap maxBatch)"
| sys_step: "system_reach ps cap maxBatch s \<Longrightarrow> system_event_ok s e \<Longrightarrow>
     system_step (map fst ps) s e = Some t \<Longrightarrow> system_reach ps cap maxBatch t"

text \<open>A sequence of events; \<open>None\<close> when one is not enabled or would wrap a number around.\<close>

fun system_run :: "NodeId list \<Rightarrow> system \<Rightarrow> system_event list \<Rightarrow> system option" where
  "system_run ids s [] = Some s"
| "system_run ids s (e # es) =
     (if system_event_ok s e then
        (case system_step ids s e of None \<Rightarrow> None | Some s' \<Rightarrow> system_run ids s' es)
      else None)"

lemma system_run_reach:
  "system_reach ps cap mb s \<Longrightarrow> system_run (map fst ps) s es = Some t \<Longrightarrow> system_reach ps cap mb t"
proof (induction es arbitrary: s)
  case (Cons e es)
  then show ?case by (auto split: option.splits if_splits intro: sys_step)
qed simp

section \<open>The service refines lattice agreement\<close>

text \<open>
  The lattice agreement inside a reachable service is a reachable cluster, and every host is in
  order with respect to the values decided there.
\<close>

definition decided_map :: "(NodeId, string) gomap \<Rightarrow> CounterMap cluster \<Rightarrow> CounterMap \<Rightarrow> bool" where
  "decided_map ps a d \<longleftrightarrow>
     CounterMap_ok (gm_dom ps) d \<and>
     (CounterMap_rep d = bot \<or> (\<exists>x \<in> set (decided a). CounterMap_rep (fst x) = CounterMap_rep d))"

definition system_inv :: "(NodeId, string) gomap \<Rightarrow> nat \<Rightarrow> system \<Rightarrow> bool" where
  "system_inv ps cap s \<longleftrightarrow>
     suffren_reach ps cap (agreement s) \<and>
     (\<forall>i \<in> gm_dom ps. engine_peers.host_ok (map fst ps) i (decided_map ps (agreement s)) (hosts s i))"

lemma propose_event_decided [simp]: "decided (propose_event L wire ids a i p) = decided a"
  by (simp add: propose_event_def emit_def split: prod.splits)

lemma propose_all_decided [simp]: "decided (propose_all ids i ps a) = decided a"
  by (induction ps arbitrary: a) (simp_all add: propose_all_def)

lemma cluster_step_decided:
  "cluster_step L wire ids a e = Some a' \<Longrightarrow> set (decided a) \<subseteq> set (decided a')"
  by (cases e) (auto simp: run_event_def deliver_event_def emit_def Let_def
      split: if_splits option.splits sum.splits prod.splits)

lemma decided_map_mono:
  "set (decided a) \<subseteq> set (decided a') \<Longrightarrow> decided_map ps a d \<Longrightarrow> decided_map ps a' d"
  by (auto simp: decided_map_def)

lemma propose_all_reach:
  assumes "suffren_reach ps cap a" "i \<in> gm_dom ps" "\<forall>p \<in> set qs. CounterMap_ok (gm_dom ps) p"
  shows "suffren_reach ps cap (propose_all (map fst ps) i qs a)"
  using assms
proof (induction qs arbitrary: a)
  case (Cons q qs)
  let ?a = "propose_event CounterMap_Lattice CounterMap_transfer (map fst ps) a i q"
  have st: "cluster_step CounterMap_Lattice CounterMap_transfer (map fst ps) a (EPropose i q) = Some ?a"
    using Cons.prems(2) by (simp add: gm_dom_def)
  have "suffren_reach ps cap ?a"
    using Cons.prems(1,3) unfolding suffren_reach_def by (intro reach_step [OF _ _ st]) simp_all
  from Cons.IH [OF this] Cons.prems show ?case by (simp add: propose_all_def)
qed (simp add: propose_all_def)

lemma init_system_inv: "system_inv ps cap (init_system ps cap mb)"
proof -
  have "engine_peers.host_ok (map fst ps) i D (new_host (NewEngine i ps mb (\<lambda>ids. Inr (NewCounterMap ids) :: unit + CounterMap)))"
    if "i \<in> gm_dom ps" for i D
    by (rule engine_peers.new_host_ok)
      (use that in \<open>simp_all add: NewEngine_def peer_map_def gm_dom_def\<close>)
  then show ?thesis
    by (simp add: system_inv_def init_system_def suffren_reach_def reach_start)
qed

lemma system_invD:
  assumes "system_inv ps cap s"
  shows "suffren_reach ps cap (agreement s)"
    "i \<in> gm_dom ps \<Longrightarrow> engine_peers.host_ok (map fst ps) i (decided_map ps (agreement s)) (hosts s i)"
  using assms by (auto simp: system_inv_def)

lemma host_event_inv:
  assumes inv: "system_inv ps cap s" and ok: "system_event_ok s (SHost i ev)"
    and st: "system_step (map fst ps) s (SHost i ev) = Some t"
  shows "system_inv ps cap t"
proof -
  have dom: "set (map fst ps) = gm_dom ps" by (simp add: gm_dom_def)
  then obtain h qs where i: "i \<in> gm_dom ps" and h: "host_step (hosts s i) ev = Some (h, qs)"
    and t: "t = s\<lparr>hosts := (hosts s)(i := h), agreement := propose_all (map fst ps) i qs (agreement s)\<rparr>"
    using st by (auto split: if_splits option.splits)
  have new: "engine_peers.host_ok (map fst ps) i (decided_map ps (agreement s)) h"
      "\<forall>q \<in> set qs. peer_map (map fst ps) i q"
    using engine_peers.host_step_ok [OF system_invD(2) [OF inv i] _ h] ok by auto
  have "suffren_reach ps cap (agreement t)"
    using propose_all_reach [OF system_invD(1) [OF inv] i, of qs] new(2) dom by (simp add: t peer_map_def)
  moreover have "decided_map ps (agreement t) = decided_map ps (agreement s)"
    by (rule ext) (simp add: t decided_map_def)
  ultimately show ?thesis using new(1) system_invD(2) [OF inv] by (simp add: system_inv_def t)
qed

lemma net_event_inv:
  assumes inv: "system_inv ps cap s" and st: "system_step (map fst ps) s (SNet ev) = Some t"
  shows "system_inv ps cap t"
proof -
  obtain a where a: "cluster_step CounterMap_Lattice CounterMap_transfer (map fst ps) (agreement s) ev = Some a"
    and t: "t = s\<lparr>agreement := a\<rparr>" and np: "\<not> is_propose ev"
    using st by (auto split: if_splits)
  have "event_ok (CounterMap_ok (gm_dom ps)) ev" using np by (cases ev) simp_all
  then have "suffren_reach ps cap a"
    using system_invD(1) [OF inv] a unfolding suffren_reach_def by (blast intro: reach_step)
  moreover have "engine_peers.host_ok (map fst ps) i (decided_map ps a) (hosts s i)" if "i \<in> gm_dom ps" for i
    by (rule engine_peers.host_ok_mono [OF system_invD(2) [OF inv that]])
      (rule decided_map_mono [OF cluster_step_decided [OF a]])
  ultimately show ?thesis by (simp add: system_inv_def t)
qed

lemma callback_event_inv:
  assumes ps: "gm_ok ps" and inv: "system_inv ps cap s"
    and st: "system_step (map fst ps) s (SCallback k) = Some t"
  shows "system_inv ps cap t"
proof -
  obtain i v where k: "(i, v) \<in> set (callbacks (agreement s))"
    and t: "t = s\<lparr>hosts := (hosts s)(i := host_learn (hosts s i) v), fired := k # fired s\<rparr>"
    using st by (auto split: if_splits prod.splits) (metis nth_mem)
  note reach = system_invD(1) [OF inv] and host = system_invD(2) [OF inv]
  have v: "CounterMap_ok (gm_dom ps) v" "decided_map ps (agreement s) v"
    using countermap_wire.cluster_invD(6) [OF suffren_reach_inv [OF ps reach] k]
    by (auto simp: decided_map_def countermap_wire.value_inv_def countermap_wire.known_decision_def)
  have "engine_peers.host_ok (map fst ps) i (decided_map ps (agreement s)) (host_learn (hosts s i) v)"
    if "i \<in> gm_dom ps"
    using engine_peers.host_learn_ok [OF host [OF that] _ v(2)] v(1) by (simp add: gm_dom_def)
  with host reach show ?thesis by (auto simp: system_inv_def t)
qed

lemma system_step_inv:
  assumes "gm_ok ps" "system_inv ps cap s" "system_event_ok s e" "system_step (map fst ps) s e = Some t"
  shows "system_inv ps cap t"
  using assms by (cases e) (auto simp del: system_step.simps system_event_ok.simps
    intro: host_event_inv net_event_inv callback_event_inv)

lemma system_reach_inv:
  assumes "gm_ok ps" "system_reach ps cap mb s"
  shows "system_inv ps cap s"
  using assms(2)
  by (induction rule: system_reach.induct)
    (use assms(1) in \<open>blast intro: init_system_inv system_step_inv\<close>)+

section \<open>Example run\<close>

definition peers2 :: "(NodeId, string) gomap" where
  "peers2 = [(''N1'', ''a''), (''N2'', ''b'')]"

definition init2 :: system where
  "init2 = init_system peers2 8 50"

text \<open>
  \<open>N1\<close> starts: its \<open>sync\<close> proposes the empty map, both nodes acknowledge it. Then
  \<open>N2\<close> starts: its \<open>sync\<close> is answered by the \<open>LEARN\<close> of \<open>N1\<close>, and its own
  proposal is acknowledged and broadcast as learned as well.
\<close>

definition start_run :: "system_event list" where
  "start_run =
     [SHost ''N1'' (HBegin SyncCall), SNet (EDeliver 0), SNet (EDeliver 0),
      SNet (ERun ''N1'' AcceptorRole), SNet (ERun ''N2'' AcceptorRole), SNet (EDeliver 0), SNet (EDeliver 0),
      SNet (ERun ''N1'' ProposerRole), SNet (ERun ''N1'' ProposerRole), SNet (EDeliver 0),
      SNet (ERun ''N1'' LearnerRole), SCallback 0, SHost ''N1'' (HWake 0 False), SHost ''N1'' (HReturn 0),
      SHost ''N2'' (HBegin SyncCall), SNet (EDeliver 0), SNet (ERun ''N2'' LearnerRole), SCallback 1,
      SHost ''N2'' (HWake 0 False), SHost ''N2'' (HReturn 0), SNet (EDeliver 0), SNet (EDeliver 0),
      SNet (ERun ''N1'' AcceptorRole), SNet (ERun ''N2'' AcceptorRole), SNet (EDeliver 0), SNet (EDeliver 0),
      SNet (ERun ''N2'' ProposerRole), SNet (ERun ''N2'' ProposerRole), SNet (ELose 0)]"

text \<open>A client of \<open>N1\<close> increments the key; both nodes acknowledge, \<open>N1\<close> learns.\<close>

definition increment_run :: "system_event list" where
  "increment_run =
     [SHost ''N1'' (HBegin (IncrementCall ''k'' 1)), SHost ''N1'' (HFlusher TickerCase), SHost ''N1'' HPropose,
      SNet (EDeliver 1), SNet (EDeliver 1), SNet (ERun ''N1'' AcceptorRole), SNet (ERun ''N2'' AcceptorRole),
      SNet (EDeliver 1), SNet (EDeliver 1), SNet (ERun ''N1'' ProposerRole), SNet (ERun ''N1'' ProposerRole),
      SNet (EDeliver 1), SNet (ERun ''N1'' LearnerRole), SCallback 2, SHost ''N1'' (HWake 1 False),
      SHost ''N1'' (HReturn 1)]"

text \<open>
  A client of \<open>N2\<close> reads the key; then the \<open>LEARN\<close> of the empty map that \<open>N2\<close> sent
  itself during its start arrives.
\<close>

definition read_run :: "system_event list" where
  "read_run =
     [SHost ''N2'' (HBegin (ValueCall ''k'')), SNet (EDeliver 0), SNet (ERun ''N2'' LearnerRole),
      SCallback 3, SHost ''N2'' (HWake 1 False), SHost ''N2'' (HReturn 1)]"

definition calls :: "system \<Rightarrow> NodeId \<Rightarrow> (call \<times> phase) list" where
  "calls s i = map (\<lambda>c. (callOf c, phaseOf c)) (clients (hosts s i))"

text \<open>The definitions the simplifier unfolds to run the service.\<close>

lemmas run_defs =
  init_system_def init_cluster_def new_host_def NewEngine_def
  NewLatticeAgreement_def LatticeAgreement_Start_def Router_Start_def NewMessageRouter_def
  NewProposer_def NewAcceptor_def NewLearner_def
  propose_all_def propose_event_def deliver_event_def run_event_def emit_def drop_nth_def
  wire_message_def CounterMap_transfer_def host_learn_def may_begin_def in_flight_def finish_call_def
  own_count_def onLearn_def sync_begin_def sync_end_def flush_def ValueForKey_begin_def
  IncrementKey_begin_def registerPendingLocked_def addOpToBatchLocked_def
  unregisterPending_def waitForLearn_def op_result_def set_live_def live_def
  Proposer_Propose_def Proposer_HandleAck_def Proposer_HandleNack_def checkAndHandleQuorum_def
  Acceptor_HandlePropose_def Learner_HandleLearn_def run_proposer_def run_role_def
  HandleIncomingMessage_def offer_def counted_def CounterMap_Lattice_def CounterMap_Join_def
  CounterMap_MergeInPlace_def CounterMap_IsIn_def CounterMap_Equals_def CounterMap_StrictlyIsIn_def
  CounterMap_Copy_def CounterMap_IncrementKey_def CounterMap_ValueForKey_def NewCounterMap_def
  CounterMap_Bottom_def GCounter_Copy_def GCounter_MergeInPlace_def GCounter_IsIn_def
  GCounter_Equals_def GCounter_Increment_def GCounter_Value_def NewGCounter_def
  gm_set_def gm_get_def gm_delete_def command_def Let_def

lemma stale_read_run:
  "\<exists>s t. system_run (map fst peers2) init2 (start_run @ increment_run) = Some s \<and>
     calls s ''N1'' = [(SyncCall, Returned (0, True)), (IncrementCall ''k'' 1, Returned (1, True))] \<and>
     calls s ''N2'' = [(SyncCall, Returned (0, True))] \<and>
     system_run (map fst peers2) s read_run = Some t \<and>
     map snd (decided (agreement t)) = [[''N1'', ''N2''], [''N1'', ''N2''], [''N1'', ''N2'']] \<and>
     calls t ''N1'' = calls s ''N1'' \<and>
     calls t ''N2'' = [(SyncCall, Returned (0, True)), (ValueCall ''k'', Returned (0, True))]"
  by (simp add: run_defs init2_def peers2_def start_run_def increment_run_def read_run_def calls_def)

lemma peers2_ok: "gm_ok peers2"
  by (simp add: peers2_def)

lemma increment_state:
  obtains s t where "system_reach peers2 8 50 s" "system_reach peers2 8 50 t"
    "calls s ''N1'' = [(SyncCall, Returned (0, True)), (IncrementCall ''k'' 1, Returned (1, True))]"
    "calls s ''N2'' = [(SyncCall, Returned (0, True))]"
    "system_run (map fst peers2) s read_run = Some t"
    "calls t ''N2'' = [(SyncCall, Returned (0, True)), (ValueCall ''k'', Returned (0, True))]"
    "calls t ''N1'' = calls s ''N1''"
    "map snd (decided (agreement t)) = [[''N1'', ''N2''], [''N1'', ''N2''], [''N1'', ''N2'']]"
proof -
  obtain s t where s: "system_run (map fst peers2) init2 (start_run @ increment_run) = Some s"
    and t: "system_run (map fst peers2) s read_run = Some t"
    and c: "calls s ''N1'' = [(SyncCall, Returned (0, True)), (IncrementCall ''k'' 1, Returned (1, True))]"
      "calls s ''N2'' = [(SyncCall, Returned (0, True))]"
      "calls t ''N2'' = [(SyncCall, Returned (0, True)), (ValueCall ''k'', Returned (0, True))]"
      "calls t ''N1'' = calls s ''N1''"
      "map snd (decided (agreement t)) = [[''N1'', ''N2''], [''N1'', ''N2''], [''N1'', ''N2'']]"
    using stale_read_run by (elim exE conjE) metis
  have rs: "system_reach peers2 8 50 s"
    using system_run_reach [OF sys_start] s by (simp add: init2_def)
  show thesis
    by (rule that [OF rs system_run_reach [OF rs t] c(1,2) t c(3-5)])
qed

lemma calls_client:
  "(a, p) \<in> set (calls s i) \<Longrightarrow> \<exists>c \<in> set (clients (hosts s i)). callOf c = a \<and> phaseOf c = p"
  by (auto simp: calls_def)

section \<open>Properties\<close>

text \<open>What a completed call of a client has seen, for the properties below.\<close>

lemma completed_call:
  assumes ps: "gm_ok ps" and reach: "system_reach ps cap mb s" and i: "i \<in> gm_dom ps"
    and c: "c \<in> set (clients (hosts s i))" "phaseOf c = Returned (x, True)" "\<not> is_sync (callOf c)"
  obtains d where "decided_map ps (agreement s) d" "CounterMap_rep (snapshotOf c) \<le> CounterMap_rep d"
    "call_result (callOf c) (Some d) = (x, True)" "own_increment i c"
proof -
  have h: "engine_peers.host_ok (map fst ps) i (decided_map ps (agreement s)) (hosts s i)"
    using system_reach_inv [OF ps reach] i by (simp add: system_inv_def)
  have "client_ok (decided_map ps (agreement s)) (engineOf (hosts s i)) c"
    by (rule engine_peers.host_okD(6) [OF h c(1)])
  then obtain d v where d: "decided_map ps (agreement s) d" "CounterMap_rep (snapshotOf c) \<le> CounterMap_rep d"
      "CounterMap_wf v" "CounterMap_rep v = CounterMap_rep d" "(x, True) = call_result (callOf c) (Some v)"
    using c(2,3) by (auto simp: client_ok_def answered_def)
  have "CounterMap_wf d" using d(1) by (auto simp: decided_map_def intro: CounterMap_ok_wf)
  then have "call_result (callOf c) (Some d) = call_result (callOf c) (Some v)"
    using CounterMap_ValueForKey_rep [OF d(3)] d(4)
    by (cases "callOf c") (auto simp: op_result_def)
  then show ?thesis
    using that [OF d(1,2)] d(5) engine_peers.host_okD(9) [OF h c(1)] by simp
qed

lemma decided_map_result:
  assumes "gm_ok ps" "suffren_reach ps cap a" "decided_map ps a d" "CounterMap_rep d \<noteq> bot"
  obtains e where "e \<in> set (decided a)" "CounterMap_rep (fst e) = CounterMap_rep d"
    "CounterMap_ValueForKey (fst e) = CounterMap_ValueForKey d"
proof -
  obtain e where e: "e \<in> set (decided a)" "CounterMap_rep (fst e) = CounterMap_rep d"
    using assms(3,4) by (auto simp: decided_map_def)
  have wf: "CounterMap_wf (fst e)" "CounterMap_wf d"
    using decided_facts [OF assms(1,2) e(1)] assms(3) by (auto simp: decided_map_def intro: CounterMap_ok_wf)
  then have "CounterMap_ValueForKey (fst e) = CounterMap_ValueForKey d"
    using CounterMap_ValueForKey_rep e(2) by blast
  with e show thesis by (rule that)
qed

lemma decided_maps_chain:
  assumes ps: "gm_ok ps" and agr: "suffren_reach ps cap a"
    and dist: "\<forall>d \<in> set (decided a). distinct (snd d)"
    and d: "decided_map ps a d" and e: "decided_map ps a e"
  shows "CounterMap_rep d \<le> CounterMap_rep e \<or> CounterMap_rep e \<le> CounterMap_rep d"
proof (cases "CounterMap_rep d = bot \<or> CounterMap_rep e = bot")
  case False
  then obtain d' e' where d': "d' \<in> set (decided a)" "CounterMap_rep (fst d') = CounterMap_rep d"
      and e': "e' \<in> set (decided a)" "CounterMap_rep (fst e') = CounterMap_rep e"
    using d e by (auto simp: decided_map_def)
  have "CounterMap_IsIn (fst d') (fst e') \<or> CounterMap_IsIn (fst e') (fst d')"
    using countermap_wire.decided_comparable [of "gm_dom ps" "map fst ps" a d' e'] dist d'(1) e'(1)
      suffren_reach_inv [OF ps agr] by (simp add: CounterMap_Lattice_def gm_dom_def)
  then show ?thesis
    using CounterMap_ok_wf [OF decided_facts [OF ps agr d'(1)]] CounterMap_ok_wf [OF decided_facts [OF ps agr e'(1)]]
      d'(2) e'(2) by (simp add: CounterMap_IsIn_iff)
qed auto

text \<open>
  C1: an acknowledged increment is durable. When \<open>IncrementKey(key, v)\<close> has returned
  \<open>(x, true)\<close> on node \<open>i\<close>, under any scheduling of clients, flushes, messages and
  callbacks, some proposer has decided, with a full quorum of replies from peers, a value in
  which the count of \<open>i\<close> for the key is at least \<open>v\<close>, that contains the node's local
  state right after the increment, and whose total for the key is the returned \<open>x\<close>.
\<close>

theorem acknowledged_increment_is_decided:
  assumes ps: "gm_ok ps" and reach: "system_reach ps cap mb s" and i: "i \<in> gm_dom ps"
    and c: "c \<in> set (clients (hosts s i))" "callOf c = IncrementCall key v" "phaseOf c = Returned (x, True)"
  shows "\<exists>d \<in> set (decided (agreement s)).
    unat v \<le> CounterMap_count (fst d) key i \<and> CounterMap_ValueForKey (fst d) key = x \<and>
    CounterMap_rep (snapshotOf c) \<le> CounterMap_rep (fst d) \<and>
    length ps div 2 + 1 \<le> length (snd d) \<and> set (snd d) \<subseteq> gm_dom ps"
proof -
  have agr: "suffren_reach ps cap (agreement s)"
    using system_reach_inv [OF ps reach] by (simp add: system_inv_def)
  obtain d where d: "decided_map ps (agreement s) d" "CounterMap_rep (snapshotOf c) \<le> CounterMap_rep d"
      "CounterMap_ValueForKey d key = x" "own_increment i c"
    using completed_call [OF ps reach i c(1,3)] c(2) by (auto simp: op_result_def)
  obtain f where f: "CounterMap_rep (snapshotOf c) key = Some f" "unat v \<le> f i"
    using d(4) c(2) by (auto simp: own_increment_def)
  then obtain g where g: "CounterMap_rep d key = Some g" "unat v \<le> g i"
    using le_funD [OF d(2), of key] by (cases "CounterMap_rep d key") (auto simp: le_fun_def intro: order_trans)
  then have "CounterMap_rep d \<noteq> bot" by (auto simp: bot_fun_def bot_option_def)
  from decided_map_result [OF ps agr d(1) this] obtain e where
    e: "e \<in> set (decided (agreement s))" "CounterMap_rep (fst e) = CounterMap_rep d"
       "CounterMap_ValueForKey (fst e) = CounterMap_ValueForKey d" by blast
  have "quorum_of (gm_dom ps) \<le> length (snd e)" "set (snd e) \<subseteq> gm_dom ps"
    using countermap_wire.cluster_invD(7) [OF suffren_reach_inv [OF ps agr] e(1)]
    by (simp_all add: countermap_wire.decision_inv_def)
  then show ?thesis
    using e d g ps
    by (intro bexI [of _ e]) (auto simp: CounterMap_count_def quorum_of_def gm_length)
qed

theorem acknowledged_increment_is_decided_witness:
  "\<exists>s. system_reach peers2 8 50 s \<and>
     (IncrementCall ''k'' 1, Returned (1, True)) \<in> set (calls s ''N1'') \<and>
     (\<exists>d \<in> set (decided (agreement s)). 1 \<le> CounterMap_count (fst d) ''k'' ''N1'' \<and>
        CounterMap_ValueForKey (fst d) ''k'' = 1)"
proof -
  obtain s where s: "system_reach peers2 8 50 s"
    "calls s ''N1'' = [(SyncCall, Returned (0, True)), (IncrementCall ''k'' 1, Returned (1, True))]"
    using increment_state by blast
  then have mem: "(IncrementCall ''k'' 1, Returned (1, True)) \<in> set (calls s ''N1'')" by simp
  then obtain c where c: "c \<in> set (clients (hosts s ''N1''))" "callOf c = IncrementCall ''k'' 1"
      "phaseOf c = Returned (1, True)"
    using calls_client by blast
  have "''N1'' \<in> gm_dom peers2" by (simp add: peers2_def)
  from acknowledged_increment_is_decided [OF peers2_ok s(1) this c] show ?thesis
    using s(1) mem by auto
qed

text \<open>
  C2: completed calls agree. Two calls of clients that returned with success, on whatever nodes,
  each report the state of a decided value (or of the empty map), which contains the local state
  their node had when the call began. When the two decisions counted replies of different
  acceptors, one of the two values contains the other, so the reported totals are ordered the
  same way for every key.
\<close>

theorem completed_calls_comparable:
  assumes ps: "gm_ok ps" and reach: "system_reach ps cap mb s"
    and dist: "\<forall>d \<in> set (decided (agreement s)). distinct (snd d)"
    and c: "i \<in> gm_dom ps" "c \<in> set (clients (hosts s i))" "phaseOf c = Returned (x, True)"
      "\<not> is_sync (callOf c)"
    and c': "j \<in> gm_dom ps" "c' \<in> set (clients (hosts s j))" "phaseOf c' = Returned (y, True)"
      "\<not> is_sync (callOf c')"
  shows "\<exists>d e. decided_map ps (agreement s) d \<and> decided_map ps (agreement s) e \<and>
    call_result (callOf c) (Some d) = (x, True) \<and> call_result (callOf c') (Some e) = (y, True) \<and>
    CounterMap_rep (snapshotOf c) \<le> CounterMap_rep d \<and> CounterMap_rep (snapshotOf c') \<le> CounterMap_rep e \<and>
    (CounterMap_IsIn d e \<and> (\<forall>key. CounterMap_total d key \<le> CounterMap_total e key) \<or>
     CounterMap_IsIn e d \<and> (\<forall>key. CounterMap_total e key \<le> CounterMap_total d key))"
proof -
  have agr: "suffren_reach ps cap (agreement s)"
    using system_reach_inv [OF ps reach] by (simp add: system_inv_def)
  obtain d where d: "decided_map ps (agreement s) d" "CounterMap_rep (snapshotOf c) \<le> CounterMap_rep d"
      "call_result (callOf c) (Some d) = (x, True)"
    using completed_call [OF ps reach c] by blast
  obtain e where e: "decided_map ps (agreement s) e" "CounterMap_rep (snapshotOf c') \<le> CounterMap_rep e"
      "call_result (callOf c') (Some e) = (y, True)"
    using completed_call [OF ps reach c'] by blast
  have "CounterMap_rep d \<le> CounterMap_rep e \<or> CounterMap_rep e \<le> CounterMap_rep d"
    by (rule decided_maps_chain [OF ps agr dist d(1) e(1)])
  moreover have "CounterMap_wf d" "CounterMap_wf e"
    using d(1) e(1) by (auto simp: decided_map_def intro: CounterMap_ok_wf)
  ultimately show ?thesis
    using d e CounterMap_total_mono
    by (intro exI [of _ d] exI [of _ e]) (auto simp: CounterMap_IsIn_iff)
qed

theorem completed_calls_comparable_witness:
  "\<exists>t d e. system_reach peers2 8 50 t \<and>
     decided_map peers2 (agreement t) d \<and> decided_map peers2 (agreement t) e \<and>
     (IncrementCall ''k'' 1, Returned (1, True)) \<in> set (calls t ''N1'') \<and>
     (ValueCall ''k'', Returned (0, True)) \<in> set (calls t ''N2'') \<and>
     CounterMap_ValueForKey d ''k'' = 1 \<and> CounterMap_ValueForKey e ''k'' = 0 \<and>
     (CounterMap_IsIn d e \<or> CounterMap_IsIn e d)"
proof -
  obtain s t where t: "system_reach peers2 8 50 t"
    "calls t ''N2'' = [(SyncCall, Returned (0, True)), (ValueCall ''k'', Returned (0, True))]"
    "calls t ''N1'' = [(SyncCall, Returned (0, True)), (IncrementCall ''k'' 1, Returned (1, True))]"
    "map snd (decided (agreement t)) = [[''N1'', ''N2''], [''N1'', ''N2''], [''N1'', ''N2'']]"
    using increment_state by metis
  then have mem: "(IncrementCall ''k'' 1, Returned (1, True)) \<in> set (calls t ''N1'')"
      "(ValueCall ''k'', Returned (0, True)) \<in> set (calls t ''N2'')" by simp_all
  obtain c where c: "c \<in> set (clients (hosts t ''N1''))" "callOf c = IncrementCall ''k'' 1"
      "phaseOf c = Returned (1, True)" using calls_client [OF mem(1)] by blast
  obtain c' where c': "c' \<in> set (clients (hosts t ''N2''))" "callOf c' = ValueCall ''k''"
      "phaseOf c' = Returned (0, True)" using calls_client [OF mem(2)] by blast
  have "snd ` set (decided (agreement t)) = {[''N1'', ''N2'']}"
    using arg_cong [OF t(4), of set] by simp
  then have "snd d = [''N1'', ''N2'']" if "d \<in> set (decided (agreement t))" for d
    using that by (metis image_eqI singletonD)
  then have dist: "\<forall>d \<in> set (decided (agreement t)). distinct (snd d)" by simp
  have dom: "''N1'' \<in> gm_dom peers2" "''N2'' \<in> gm_dom peers2" by (simp_all add: peers2_def)
  from completed_calls_comparable [OF peers2_ok t(1) dist dom(1) c(1,3) _ dom(2) c'(1,3)]
  show ?thesis using t(1) mem c(2) c'(2) by (auto simp: op_result_def)
qed

text \<open>
  C17: reads are not linearisable. A reachable service in which \<open>N1\<close> has already returned
  \<open>(1, true)\<close> for an increment of a key, acknowledged by every acceptor, and no read is running
  on \<open>N2\<close>; from there a quorum read of that key on \<open>N2\<close> returns \<open>(0, true)\<close>: it is
  answered by the late \<open>LEARN\<close> of an older value.
\<close>

theorem quorum_read_can_be_stale:
  "\<exists>s t. system_reach peers2 8 50 s \<and>
     (IncrementCall ''k'' 1, Returned (1, True)) \<in> set (calls s ''N1'') \<and>
     ValueCall ''k'' \<notin> fst ` set (calls s ''N2'') \<and>
     system_run (map fst peers2) s read_run = Some t \<and>
     (ValueCall ''k'', Returned (0, True)) \<in> set (calls t ''N2'')"
proof -
  obtain s t where "system_reach peers2 8 50 s"
    "calls s ''N1'' = [(SyncCall, Returned (0, True)), (IncrementCall ''k'' 1, Returned (1, True))]"
    "calls s ''N2'' = [(SyncCall, Returned (0, True))]"
    "system_run (map fst peers2) s read_run = Some t"
    "calls t ''N2'' = [(SyncCall, Returned (0, True)), (ValueCall ''k'', Returned (0, True))]"
    using increment_state by blast
  then show ?thesis by (intro exI [of _ s] exI [of _ t]) simp
qed

end
