(* ===== verification/Quota.thy ===== *)
theory Quota
  imports Service
begin

text \<open>
  The purpose of the service: a limit holds for all nodes together. Each node's own count in the
  counter map accumulates everything its callers ever requested, so a decided value that contains
  a caller's snapshot contains all earlier requests of that node as well; decided values are
  comparable, so the largest one a granted call has seen contains all granted requests.
\<close>

fun requested_by :: "string \<Rightarrow> call \<Rightarrow> nat" where
  "requested_by key (IncrementCall k v) = (if k = key then unat v else 0)"
| "requested_by key _ = 0"

definition requested :: "string \<Rightarrow> client list \<Rightarrow> nat" where
  "requested key cs = sum_list (map (\<lambda>c. requested_by key (callOf c)) cs)"

text \<open>A caller is granted its request when the quorum answered with a total up to the limit.\<close>

fun is_granted :: "uint64 \<Rightarrow> phase \<Rightarrow> bool" where
  "is_granted lim (Returned (x, ok)) \<longleftrightarrow> ok \<and> x \<le> lim"
| "is_granted lim _ \<longleftrightarrow> False"

definition granted_total :: "string \<Rightarrow> uint64 \<Rightarrow> client list \<Rightarrow> nat" where
  "granted_total key lim cs = requested key (filter (\<lambda>c. is_granted lim (phaseOf c)) cs)"

lemma requested_simps [simp]:
  "requested key [] = 0" "requested key (c # cs) = requested_by key (callOf c) + requested key cs"
  "requested key (cs @ ds) = requested key cs + requested key ds"
  by (simp_all add: requested_def)

lemma granted_total_le: "granted_total key lim cs \<le> requested key cs"
  by (induction cs) (auto simp: granted_total_def)

lemma requested_callOf: "map callOf cs = map callOf ds \<Longrightarrow> requested key cs = requested key ds"
proof -
  have "requested key xs = sum_list (map (requested_by key) (map callOf xs))" for xs
    by (simp add: requested_def comp_def)
  then show "map callOf cs = map callOf ds \<Longrightarrow> ?thesis" by (simp only:)
qed

section \<open>A node's own count accumulates its requests\<close>

definition counts_kept :: "NodeId \<Rightarrow> host \<Rightarrow> bool" where
  "counts_kept n h \<longleftrightarrow>
     (\<forall>key. requested key (clients h) \<le> CounterMap_count (live (engineOf h)) key n) \<and>
     (\<forall>k < length (clients h). \<forall>key.
        requested key (take (Suc k) (clients h)) \<le> CounterMap_count (snapshotOf (clients h ! k)) key n) \<and>
     (\<forall>k < length (clients h). in_flight (clients h ! k) \<and> is_sync (callOf (clients h ! k)) \<longrightarrow>
        Suc k = length (clients h))"

lemma counts_keptD:
  assumes "counts_kept n h"
  shows "requested key (clients h) \<le> CounterMap_count (live (engineOf h)) key n"
    "k < length (clients h) \<Longrightarrow>
       requested key (take (Suc k) (clients h)) \<le> CounterMap_count (snapshotOf (clients h ! k)) key n"
    "k < length (clients h) \<Longrightarrow> in_flight (clients h ! k) \<Longrightarrow> is_sync (callOf (clients h ! k)) \<Longrightarrow>
       Suc k = length (clients h)"
  using assms by (auto simp: counts_kept_def)

lemma CounterMap_count_mono:
  "CounterMap_rep a \<le> CounterMap_rep b \<Longrightarrow> CounterMap_count a key n \<le> CounterMap_count b key n"
  by (drule le_funD [of _ _ key]) (auto simp: CounterMap_count_def le_fun_def split: option.splits)

text \<open>Changing the phase of a caller that does not come back into flight.\<close>

lemma counts_kept_phase:
  assumes "counts_kept n h" "k < length (clients h)"
    and h': "clients h' = (clients h)[k := (clients h ! k)\<lparr>phaseOf := p\<rparr>]"
    and fl: "in_flight ((clients h ! k)\<lparr>phaseOf := p\<rparr>) \<Longrightarrow> in_flight (clients h ! k)"
    and live: "\<And>key. requested key (clients h) \<le> CounterMap_count (live (engineOf h')) key n"
  shows "counts_kept n h'"
proof -
  have same: "requested key (take m (clients h')) = requested key (take m (clients h))" for m key
  proof (rule requested_callOf)
    have "map callOf (clients h') = map callOf (clients h)"
      using assms(2) by (simp add: h' map_update list_update_same_conv)
    then show "map callOf (take m (clients h')) = map callOf (take m (clients h))"
      by (metis take_map)
  qed
  have "requested key (clients h') = requested key (clients h)" for key
    using same [of _ "length (clients h)"] by (simp add: h')
  then show ?thesis
    using assms(1,2) live fl unfolding counts_kept_def same
    by (simp add: h' nth_list_update)
qed

context engine_values
begin

lemma begin_call_counts:
  assumes ok: "engine_ok V s" "engineId s = n"
    and num: "case a of IncrementCall key v \<Rightarrow> CounterMap_count (live s) key n + unat v < 2 ^ 64 | _ \<Rightarrow> True"
    and b: "begin_call s a = (s', op, done, ps)"
  shows "CounterMap_count (live s') key n = CounterMap_count (live s) key n + requested_by key a"
proof (cases a)
  case (IncrementCall k v)
  have "live s' = CounterMap_IncrementKey (live s) k n v"
    using b ok engine_okD(1) [OF ok(1)] IncrementCall
    by (auto simp: IncrementKey_begin_def registerPendingLocked_def addOpToBatchLocked_def live_def Let_def)
  then show ?thesis
    using num IncrementCall
    by (auto simp: CounterMap_count_def CounterMap_IncrementKey_rep bot_nat_def split: option.splits)
next
  case (ValueCall k)
  then show ?thesis
    using b by (auto simp: ValueForKey_begin_def registerPendingLocked_def addOpToBatchLocked_def live_def Let_def)
next
  case SyncCall
  then show ?thesis
    using b engine_okD(1) [OF ok(1)] by (auto simp: sync_begin_def live_def Let_def nth_append)
qed

lemma begin_counts:
  assumes h: "host_ok D h" and ck: "counts_kept n h" and ev: "host_event_ok h (HBegin a)"
    and st: "host_step h (HBegin a) = Some (h', ps)"
  shows "counts_kept n h'"
proof -
  obtain s' op ch where b: "begin_call (engineOf h) a = (s', op, ch, ps)" and may: "may_begin h a"
    and h': "h' = h\<lparr>engineOf := s', clients := clients h @ [\<lparr>callOf = a, opOf = op, chanOf = ch,
      phaseOf = Waiting, snapshotOf = live s'\<rparr>]\<rparr>"
    using st by (auto split: if_splits prod.splits)
  have cnt: "CounterMap_count (live s') key n = CounterMap_count (live (engineOf h)) key n + requested_by key a" for key
    using begin_call_counts [OF host_okD(1,2) [OF h] _ b] ev host_okD(2) [OF h]
    by (auto simp: own_count_bound split: call.splits)
  have alone: "\<not> (in_flight c \<and> is_sync (callOf c))" if "c \<in> set (clients h)" for c
    using may that by (auto simp: may_begin_def)
  then show ?thesis
    using counts_keptD [OF ck] unfolding counts_kept_def
    by (auto simp: h' cnt nth_append less_Suc_eq)
qed

lemma return_counts:
  assumes h: "host_ok D h" and ck: "counts_kept n h" and st: "host_step h (HReturn k) = Some (h', ps)"
  shows "counts_kept n h'"
proof -
  define c where "c = clients h ! k"
  obtain r where k: "k < length (clients h)" and wk: "phaseOf c = Woken r"
    using st by (auto simp: c_def Let_def split: if_splits phase.splits)
  have h': "engineOf h' = finish_call (engineOf h) c r"
      "clients h' = (clients h)[k := (clients h ! k)\<lparr>phaseOf := Returned (call_result (callOf c) r)\<rparr>]"
    using st k wk by (auto simp: c_def Let_def)
  have mem: "c \<in> set (clients h)" using k by (simp add: c_def)
  have "requested key (clients h) \<le> CounterMap_count (live (engineOf h')) key n" for key
  proof (cases "is_sync (callOf c) \<and> r \<noteq> None")
    case True
    then obtain v where v: "r = Some v" by blast
    have "CounterMap_rep (snapshotOf c) \<le> CounterMap_rep v"
      using host_okD(6) [OF h mem] wk v by (auto simp: client_ok_def answered_def intro: order_trans)
    moreover have "Suc k = length (clients h)"
      using counts_keptD(3) [OF ck k] True wk by (simp add: c_def in_flight_def)
    ultimately have "requested key (clients h) \<le> CounterMap_count v key n"
      using counts_keptD(2) [OF ck k, of key] CounterMap_count_mono [of "snapshotOf c" v key n]
      by (simp add: c_def)
    then show ?thesis using True v by (simp add: h' finish_call_def sync_end_def live_def)
  next
    case False
    then have "live (engineOf h') = live (engineOf h)"
      by (auto simp: h' finish_call_def sync_end_def unregisterPending_def live_def)
    then show ?thesis using counts_keptD(1) [OF ck] by simp
  qed
  then show ?thesis by (rule counts_kept_phase [OF ck k h'(2), rotated]) simp
qed

lemma host_step_counts:
  assumes h: "host_ok D h" and ck: "counts_kept n h" and ev: "host_event_ok h e"
    and st: "host_step h e = Some (h', ps)"
  shows "counts_kept n h'"
proof (cases e)
  case (HBegin a)
  then show ?thesis using begin_counts assms by blast
next
  case (HReturn k)
  then show ?thesis using return_counts assms by blast
next
  case (HWake k t)
  then obtain s r where k: "k < length (clients h)" "phaseOf (clients h ! k) = Waiting"
      and w: "waitForLearn t (engineOf h) (chanOf (clients h ! k)) = Some (s, r)"
      and h': "h' = h\<lparr>engineOf := s, clients := (clients h)[k := (clients h ! k)\<lparr>phaseOf := Woken r\<rparr>]\<rparr>"
    using st by (auto split: if_splits option.splits)
  have "live s = live (engineOf h)" using w by (auto simp: waitForLearn_def live_def split: if_splits option.splits)
  then show ?thesis
    using counts_kept_phase [OF ck k(1), of h' "Woken r"] counts_keptD(1) [OF ck] k(2)
    by (simp add: h' in_flight_def)
qed (use ck st in \<open>auto simp: counts_kept_def flush_def Engine_Stop_def live_def elim!: flusher.elims
      split: if_splits option.splits sum.splits\<close>)

lemma host_learn_counts:
  assumes h: "host_ok D h" and ck: "counts_kept n h" and v: "Q v"
  shows "counts_kept n (host_learn h v)"
proof -
  let ?s = "engineOf h"
  have "live (onLearn ?s v) = live (merged ?s v)"
    by (simp add: onLearn_result [OF host_okD(1) [OF h]] live_def)
  then have "CounterMap_rep (live ?s) \<le> CounterMap_rep (live (onLearn ?s v))"
    using merged_grows(2) [OF host_okD(1) [OF h] v] by simp
  then have "CounterMap_count (live ?s) key n \<le> CounterMap_count (live (onLearn ?s v)) key n" for key
    by (rule CounterMap_count_mono)
  then show ?thesis
    using ck unfolding counts_kept_def by (auto simp: host_learn_def intro: order_trans)
qed

end

lemma system_counts_kept:
  assumes ps: "gm_ok ps" and "system_reach ps cap mb s" and i: "i \<in> gm_dom ps"
  shows "counts_kept i (hosts s i)"
  using assms(2)
proof (induction rule: system_reach.induct)
  case sys_start
  then show ?case by (simp add: init_system_def new_host_def counts_kept_def)
next
  case (sys_step s e t)
  have host: "engine_peers.host_ok (map fst ps) i (decided_map ps (agreement s)) (hosts s i)"
    and agr: "suffren_reach ps cap (agreement s)"
    using system_reach_inv [OF ps sys_step.hyps(1)] i by (auto simp: system_inv_def)
  show ?case
  proof (cases e)
    case (SHost j ev)
    then show ?thesis
      using sys_step.hyps(2,3) sys_step.IH engine_peers.host_step_counts [OF host sys_step.IH, of ev]
      by (cases "j = i") (auto split: if_splits option.splits)
  next
    case (SNet ev)
    then show ?thesis using sys_step by (auto split: if_splits)
  next
    case (SCallback k)
    then obtain j v where k: "(j, v) \<in> set (callbacks (agreement s))"
      and t: "t = s\<lparr>hosts := (hosts s)(j := host_learn (hosts s j) v), fired := k # fired s\<rparr>"
      using sys_step.hyps(3) by (auto split: if_splits prod.splits) (metis nth_mem)
    have "CounterMap_ok (gm_dom ps) v"
      using countermap_wire.cluster_invD(6) [OF suffren_reach_inv [OF ps agr] k]
      by (simp add: countermap_wire.value_inv_def)
    then have "counts_kept i (host_learn (hosts s i) v)"
      using engine_peers.host_learn_counts [OF host sys_step.IH] by (simp add: gm_dom_def)
    then show ?thesis using sys_step.IH by (cases "j = i") (simp_all add: t)
  qed
qed

section \<open>The limit\<close>

lemma last_granted:
  "0 < granted_total key lim cs \<Longrightarrow>
   \<exists>k < length cs. granted_total key lim cs \<le> requested key (take (Suc k) cs) \<and>
     is_granted lim (phaseOf (cs ! k)) \<and> (\<exists>v. callOf (cs ! k) = IncrementCall key v)"
proof (induction cs rule: rev_induct)
  case (snoc c cs)
  show ?case
  proof (cases "is_granted lim (phaseOf c) \<and> 0 < requested_by key (callOf c)")
    case True
    then have "\<exists>v. callOf c = IncrementCall key v" by (cases "callOf c") (auto split: if_splits)
    then show ?thesis
      using True granted_total_le [of key lim "cs @ [c]"] by (intro exI [of _ "length cs"]) simp
  next
    case False
    then have "granted_total key lim (cs @ [c]) = granted_total key lim cs"
      by (auto simp: granted_total_def)
    with snoc obtain k where "k < length cs" "granted_total key lim cs \<le> requested key (take (Suc k) cs)"
      "is_granted lim (phaseOf (cs ! k))" "\<exists>v. callOf (cs ! k) = IncrementCall key v" by auto
    with \<open>granted_total key lim (cs @ [c]) = _\<close> show ?thesis
      by (intro exI [of _ k]) (simp add: nth_append)
  qed
qed (simp add: granted_total_def)

lemma CounterMap_total_counts:
  assumes "CounterMap_ok N cm"
  shows "CounterMap_total cm key = (\<Sum>n \<in> N. CounterMap_count cm key n)"
proof (cases "map_of (Counters cm) key")
  case (Some g)
  then have "gm_dom (Counts g) = N" using assms by (simp add: CounterMap_ok_iff GCounter_ok_def)
  then show ?thesis
    using Some by (simp add: CounterMap_total_def CounterMap_count_def CounterMap_rep_def GCounter_total_def)
qed (simp add: CounterMap_total_def CounterMap_count_def CounterMap_rep_def)

lemma granted_node:
  assumes ps: "gm_ok ps" and reach: "system_reach ps cap mb s" and i: "i \<in> gm_dom ps"
    and pos: "0 < granted_total key lim (clients (hosts s i))"
  shows "\<exists>d. decided_map ps (agreement s) d \<and> CounterMap_ValueForKey d key \<le> lim \<and>
    granted_total key lim (clients (hosts s i)) \<le> CounterMap_count d key i"
proof -
  let ?cs = "clients (hosts s i)"
  obtain k v where k: "k < length ?cs" "granted_total key lim ?cs \<le> requested key (take (Suc k) ?cs)"
      "is_granted lim (phaseOf (?cs ! k))" "callOf (?cs ! k) = IncrementCall key v"
    using last_granted [OF pos] by blast
  obtain x where x: "phaseOf (?cs ! k) = Returned (x, True)" "x \<le> lim"
    using k(3) by (cases "phaseOf (?cs ! k)") auto
  obtain d where d: "decided_map ps (agreement s) d" "CounterMap_rep (snapshotOf (?cs ! k)) \<le> CounterMap_rep d"
      "call_result (callOf (?cs ! k)) (Some d) = (x, True)"
    using completed_call [OF ps reach i nth_mem [OF k(1)] x(1)] k(4) by auto
  have "granted_total key lim ?cs \<le> CounterMap_count d key i"
    using k(2) counts_keptD(2) [OF system_counts_kept [OF ps reach i] k(1), of key] CounterMap_count_mono [OF d(2), of key i]
    by linarith
  then show ?thesis using d x(2) k(4) by (auto simp: op_result_def)
qed

lemma decided_map_total:
  assumes "decided_map ps a d" "\<forall>e \<in> set (decided a). CounterMap_total (fst e) key < 2 ^ 64"
  shows "unat (CounterMap_ValueForKey d key) = CounterMap_total d key"
proof -
  have "CounterMap_total d key < 2 ^ 64"
  proof (cases "CounterMap_rep d = bot")
    case True
    then have "CounterMap_total d key \<le> CounterMap_total (CounterMap_Bottom d) key"
      by (intro CounterMap_total_mono) simp
    then show ?thesis by (simp add: CounterMap_total_def CounterMap_Bottom_def)
  next
    case False
    then obtain e where e: "e \<in> set (decided a)" "CounterMap_rep d \<le> CounterMap_rep (fst e)"
      using assms(1) by (auto simp: decided_map_def)
    then show ?thesis
      using CounterMap_total_mono [OF e(2), of key] assms(2) by (meson le_less_trans)
  qed
  moreover have "CounterMap_wf d" using assms(1) by (auto simp: decided_map_def intro: CounterMap_ok_wf)
  ultimately show ?thesis by (simp add: CounterMap_ValueForKey_total)
qed

lemma increment_run_decided:
  "\<exists>s. system_run (map fst peers2) init2 (start_run @ increment_run) = Some s \<and>
     granted_total ''k'' 5 (clients (hosts s ''N1'')) = 1 \<and>
     (\<forall>d \<in> set (decided (agreement s)). distinct (snd d) \<and> CounterMap_total (fst d) ''k'' < 2 ^ 64)"
  by (simp add: run_defs init2_def peers2_def start_run_def increment_run_def granted_total_def
      CounterMap_total_def GCounter_total_def GCounter_rep_def)



end
