(* ===== verification/Restart.thy ===== *)
theory Restart
  imports Agreement
begin

text \<open>
  Nodes that crash and start again, at the level of the protocol. \<open>engine.New\<close> gives the lattice
  agreement the bottom of the loaded state, so a restarted node has a proposer, an acceptor, a
  learner and mailboxes as on its first start, whatever its storage held; messages that were
  already sent stay in the network. \<open>R\<close> collects the nodes that were restarted.
\<close>

definition restart_event :: "(NodeId, string) gomap \<Rightarrow> 'v \<Rightarrow> nat \<Rightarrow> NodeId \<Rightarrow> 'v cluster \<Rightarrow> 'v cluster" where
  "restart_event ps bottom cap i s =
     s\<lparr>nodes := (nodes s)(i := LatticeAgreement_Start (NewLatticeAgreement i ps bottom True cap)),
       ackers := (ackers s)(i := [])\<rparr>"

inductive restart_reach :: "(NodeId, string) gomap \<Rightarrow> nat \<Rightarrow> NodeId set \<Rightarrow> CounterMap cluster \<Rightarrow> bool"
  for ps cap where
  rr_start: "restart_reach ps cap {} (init_cluster ps (NewCounterMap (map fst ps)) cap)"
| rr_step: "restart_reach ps cap R s \<Longrightarrow> event_ok (CounterMap_ok (gm_dom ps)) e \<Longrightarrow>
     cluster_step CounterMap_Lattice CounterMap_transfer (map fst ps) s e = Some t \<Longrightarrow> restart_reach ps cap R t"
| rr_restart: "restart_reach ps cap R s \<Longrightarrow> i \<in> gm_dom ps \<Longrightarrow>
     restart_reach ps cap (insert i R) (restart_event ps (CounterMap_Bottom loaded) cap i s)"

section \<open>What a restart keeps of the invariant\<close>

context wire_lattice
begin

lemma restart_fields [simp]:
  "net (restart_event ps b cap i s) = net s" "callbacks (restart_event ps b cap i s) = callbacks s"
  "acked (restart_event ps b cap i s) = acked s" "decided (restart_event ps b cap i s) = decided s"
  "proposals (restart_event ps b cap i s) = proposals s" "bound (restart_event ps b cap i s) = bound s"
  by (simp_all add: restart_event_def bound_def)

lemma restarted_node_inv:
  assumes "gm_ok ps" "I = gm_dom ps" "ok b" "rep b = bot"
    and la_def: "la = LatticeAgreement_Start (NewLatticeAgreement i ps b True cap)"
  shows "acceptor_inv False us B i (AcceptorOf la)" "proposer_inv A B I i [] (ProposerOf la)"
    "learner_inv D B i (LearnerOf la)" "router_typed (Router la)" "mailboxes (Router la) = {}"
proof -
  have "length ps = card I" using assms by (simp add: gm_length)
  then show "acceptor_inv False us B i (AcceptorOf la)" "proposer_inv A B I i [] (ProposerOf la)"
    "learner_inv D B i (LearnerOf la)" "router_typed (Router la)" "mailboxes (Router la) = {}"
    using assms
    by (simp_all add: la_def LatticeAgreement_Start_def NewLatticeAgreement_def NewProposer_def inv_defs quorum_of_def)
qed

lemma restart_event_inv:
  assumes inv: "cluster_inv R I s" and b: "gm_ok ps" "I = gm_dom ps" "ok b" "rep b = bot"
  shows "cluster_inv (insert i R) I (restart_event ps b cap i s)"
proof -
  let ?t = "restart_event ps b cap i s"
  note new = restarted_node_inv [OF b refl]
  have nodes: "nodes ?t = (nodes s)(i := LatticeAgreement_Start (NewLatticeAgreement i ps b True cap))"
    and ackers: "ackers ?t = (ackers s)(i := [])" by (simp_all add: restart_event_def)
  have node: "acceptor_inv (j \<notin> insert i R) (acked s j) (bound s) j (AcceptorOf (nodes ?t j)) \<and>
      proposer_inv (acked s) (bound s) I j (ackers ?t j) (ProposerOf (nodes ?t j)) \<and>
      learner_inv (decided s) (bound s) j (LearnerOf (nodes ?t j)) \<and> router_typed (Router (nodes ?t j)) \<and>
      (\<forall>m \<in> mailboxes (Router (nodes ?t j)). msg_inv (acked s) (decided s) (bound s) I m)" for j
  proof (cases "j = i")
    case True
    then show ?thesis using new by (simp add: nodes ackers)
  next
    case False
    then show ?thesis using cluster_invD(1-4,8) [OF inv] by (simp add: nodes ackers)
  qed
  then show ?thesis
    using cluster_invD(5-7) [OF inv] unfolding cluster_inv_def by simp
qed

end

lemma restart_reach_inv:
  assumes "restart_reach ps cap R s" "gm_ok ps"
  shows "wire_lattice.cluster_inv (CounterMap_ok (gm_dom ps)) CounterMap_rep R (gm_dom ps) s"
  using assms(1)
proof induction
  case rr_start
  show ?case by (rule suffren_reach_inv [OF assms(2), of cap]) (simp add: suffren_reach_def reach_start)
next
  case (rr_step R s e t)
  show ?case
    using countermap_wire.cluster_step_inv [where ids = "map fst ps" and N = "gm_dom ps" and e = e and s = s and t = t and R = R]
      rr_step by (simp add: gm_dom_def)
next
  case (rr_restart R s i loaded)
  then show ?case
    by (intro countermap_wire.restart_event_inv) (simp_all add: assms(2))
qed

lemma suffren_restart_reach: "suffren_reach ps cap s \<Longrightarrow> restart_reach ps cap {} s"
  unfolding suffren_reach_def
  by (induction rule: cluster_reach.induct) (auto intro: rr_start rr_step)

section \<open>An example run\<close>

text \<open>
  \<open>N1\<close> decides its count with itself and \<open>N2\<close>; \<open>N2\<close> restarts; then \<open>N3\<close> decides its own count
  with \<open>N2\<close> and itself.
\<close>

definition second_run :: "CounterMap event list" where
  "second_run =
     [EPropose ''N3'' (count_of ''N3''), EDeliver 5, EDeliver 5, ERun ''N2'' AcceptorRole, ERun ''N3'' AcceptorRole,
      EDeliver 5, EDeliver 5, ERun ''N3'' ProposerRole, ERun ''N3'' ProposerRole]"

definition split_run :: "CounterMap cluster option" where
  "split_run =
     (case suffren_run peers3 8 plain_run of
        None \<Rightarrow> None
      | Some s \<Rightarrow>
          cluster_run CounterMap_Lattice CounterMap_transfer (map fst peers3)
            (restart_event peers3 (CounterMap_Bottom (NewCounterMap (map fst peers3))) 8 ''N2'' s) second_run)"

lemma split_run_result:
  "map_option decided split_run =
     Some [(count_of ''N1'', [''N1'', ''N2'']), (count_of ''N3'', [''N2'', ''N3''])]"
  by code_simp

lemma restart_run_reach:
  "restart_reach ps cap R s \<Longrightarrow> list_all (event_ok (CounterMap_ok (gm_dom ps))) es \<Longrightarrow>
   cluster_run CounterMap_Lattice CounterMap_transfer (map fst ps) s es = Some t \<Longrightarrow> restart_reach ps cap R t"
proof (induction es arbitrary: s)
  case (Cons e es)
  then show ?case by (auto split: option.splits intro: rr_step)
qed simp

lemma split_run_reach: "split_run = Some t \<Longrightarrow> restart_reach peers3 8 {''N2''} t"
proof -
  assume t: "split_run = Some t"
  then obtain s where s: "suffren_run peers3 8 plain_run = Some s" by (auto simp: split_run_def split: option.splits)
  have ok: "list_all (event_ok (CounterMap_ok (gm_dom peers3))) plain_run"
      "list_all (event_ok (CounterMap_ok (gm_dom peers3))) second_run" "''N2'' \<in> gm_dom peers3" by code_simp+
  have "restart_reach peers3 8 {} s" by (rule suffren_restart_reach [OF suffren_run_reach [OF s ok(1)]])
  from restart_run_reach [OF rr_restart [OF this ok(3)] ok(2)] t s show ?thesis by (simp add: split_run_def)
qed

lemma split_state:
  obtains s where "restart_reach peers3 8 {''N2''} s"
    "decided s = [(count_of ''N1'', [''N1'', ''N2'']), (count_of ''N3'', [''N2'', ''N3''])]"
  using split_run_result split_run_reach by auto

lemma counts_incomparable:
  "\<not> CounterMap_IsIn (count_of ''N1'') (count_of ''N3'')" "\<not> CounterMap_IsIn (count_of ''N3'') (count_of ''N1'')"
  by code_simp+

section \<open>Properties\<close>



text \<open>
  One restart is enough to break agreement. With a single restarted node out of three, and each
  decision counted from two different acceptors, two incomparable values are broadcast as learned:
  the restarted node is in both quorums and has forgotten that it acknowledged the first one.
\<close>

theorem restart_breaks_agreement:
  "\<exists>s d e. restart_reach peers3 8 {''N2''} s \<and> d \<in> set (decided s) \<and> e \<in> set (decided s) \<and>
     distinct (snd d) \<and> distinct (snd e) \<and>
     \<not> CounterMap_IsIn (fst d) (fst e) \<and> \<not> CounterMap_IsIn (fst e) (fst d)"
proof -
  obtain s where s: "restart_reach peers3 8 {''N2''} s"
    "decided s = [(count_of ''N1'', [''N1'', ''N2'']), (count_of ''N3'', [''N2'', ''N3''])]" using split_state by blast
  then show ?thesis
    using counts_incomparable
    by (intro exI [of _ s] exI [of _ "(count_of ''N1'', [''N1'', ''N2''])"] exI [of _ "(count_of ''N3'', [''N2'', ''N3''])"])
      simp
qed



end
