(* ===== verification/GoText.thy ===== *)
theory GoText
  imports Go_Prelude
begin

text \<open>
  Text of the Go level. A \<open>string\<close> is a list of bytes. Numbers are printed in decimal
  (\<open>fmt\<close>, \<open>strconv\<close>) and read back by \<open>strconv.ParseUint\<close> and \<open>strconv.Atoi\<close>;
  \<open>utf8_width\<close> is what \<open>unicode/utf8\<close> accepts as the first character of a string;
  \<open>Split\<close>, \<open>SplitN\<close> and \<open>Fields\<close> are those of the package \<open>strings\<close>, \<open>SplitHostPort\<close> that of
  \<open>net\<close>.
\<close>

type_synonym error = string

definition code :: "char \<Rightarrow> nat" where
  "code c = of_char c"

section \<open>Printing numbers\<close>

definition digit :: "int \<Rightarrow> char" where
  "digit n = char_of (48 + n)"

function digits :: "int \<Rightarrow> string" where
  "digits n = (if n < 10 then [digit n] else digits (n div 10) @ [digit (n mod 10)])"
  by auto
termination
  by (relation "measure nat") auto

declare digits.simps [simp del]

definition pad :: "nat \<Rightarrow> int \<Rightarrow> string" where
  "pad w n =
     (if n < 0 then ''-'' else []) @
     (let ds = digits \<bar>n\<bar> in replicate (w - length ds) (CHR ''0'') @ ds)"

definition show_int :: "int \<Rightarrow> string" where
  "show_int n = pad 0 n"

section \<open>Reading numbers\<close>

datatype num_error = ErrSyntax | ErrRange

definition is_digit :: "char \<Rightarrow> bool" where
  "is_digit c \<longleftrightarrow> 48 \<le> code c \<and> code c \<le> 57"

definition digit_value :: "char \<Rightarrow> int" where
  "digit_value c = of_char c - 48"

text \<open>The loop of \<open>ParseUint\<close>: a character that is no digit is found before an overflow.\<close>

fun parse_loop :: "int \<Rightarrow> string \<Rightarrow> int \<Rightarrow> num_error + int" where
  "parse_loop bound [] acc = Inr acc"
| "parse_loop bound (c # s) acc =
     (if \<not> is_digit c then Inl ErrSyntax
      else if 10 * acc + digit_value c > bound then Inl ErrRange
      else parse_loop bound s (10 * acc + digit_value c))"

definition ParseUint :: "string \<Rightarrow> num_error + uint64" where
  "ParseUint s =
     (if s = [] then Inl ErrSyntax
      else case parse_loop (2 ^ 64 - 1) s 0 of Inl e \<Rightarrow> Inl e | Inr n \<Rightarrow> Inr (word_of_int n))"

text \<open>An \<open>int\<close> has 64 bits.\<close>

definition Atoi :: "string \<Rightarrow> num_error + int" where
  "Atoi s =
     (let (neg, t) = (case s of [] \<Rightarrow> (False, [])
                      | c # r \<Rightarrow> if c = CHR ''-'' then (True, r) else if c = CHR ''+'' then (False, r) else (False, s))
      in if t = [] then Inl ErrSyntax
         else case parse_loop (if neg then 2 ^ 63 else 2 ^ 63 - 1) t 0 of
                Inl e \<Rightarrow> Inl e | Inr n \<Rightarrow> Inr (if neg then - n else n))"

section \<open>UTF-8\<close>

text \<open>The width that the first byte announces, and the range of the second byte.\<close>

definition lead_byte :: "nat \<Rightarrow> nat \<times> nat \<times> nat" where
  "lead_byte x =
     (if x < 128 then (1, 0, 0)
      else if x < 194 then (0, 0, 0)
      else if x < 224 then (2, 128, 191)
      else if x = 224 then (3, 160, 191)
      else if x = 237 then (3, 128, 159)
      else if x < 240 then (3, 128, 191)
      else if x = 240 then (4, 144, 191)
      else if x < 244 then (4, 128, 191)
      else if x = 244 then (4, 128, 143)
      else (0, 0, 0))"

definition continuation :: "char \<Rightarrow> bool" where
  "continuation c \<longleftrightarrow> 128 \<le> code c \<and> code c \<le> 191"

fun utf8_width :: "string \<Rightarrow> nat" where
  "utf8_width [] = 0"
| "utf8_width (c # s) =
     (case lead_byte (code c) of (w, lo, hi) \<Rightarrow>
        if w \<le> 1 then w
        else case s of [] \<Rightarrow> 0
             | d # r \<Rightarrow> if lo \<le> code d \<and> code d \<le> hi \<and> w - 2 \<le> length r \<and> list_all continuation (take (w - 2) r)
                        then w else 0)"

function valid_utf8 :: "string \<Rightarrow> bool" where
  "valid_utf8 s =
     (if s = [] then True else if utf8_width s = 0 then False else valid_utf8 (drop (utf8_width s) s))"
  by auto
termination
  by (relation "measure length") auto

declare valid_utf8.simps [simp del]

definition utf8_encode :: "nat \<Rightarrow> string" where
  "utf8_encode r =
     (if r < 128 then [char_of r]
      else if r < 2048 then [char_of (192 + r div 64), char_of (128 + r mod 64)]
      else if r < 65536 then [char_of (224 + r div 4096), char_of (128 + r div 64 mod 64), char_of (128 + r mod 64)]
      else [char_of (240 + r div 262144), char_of (128 + r div 4096 mod 64), char_of (128 + r div 64 mod 64),
            char_of (128 + r mod 64)])"

section \<open>Splitting\<close>

fun Split :: "char \<Rightarrow> string \<Rightarrow> string list" where
  "Split sep [] = [[]]"
| "Split sep (c # s) =
     (if c = sep then [] # Split sep s
      else case Split sep s of [] \<Rightarrow> [[c]] | p # ps \<Rightarrow> (c # p) # ps)"

text \<open>\<open>strings.SplitN(s, sep, 2)\<close>.\<close>

definition SplitN2 :: "char \<Rightarrow> string \<Rightarrow> string list" where
  "SplitN2 sep s =
     (if sep \<in> set s then [takeWhile (\<lambda>c. c \<noteq> sep) s, tl (dropWhile (\<lambda>c. c \<noteq> sep) s)] else [s])"

text \<open>The number of bytes of the white space at the head of the string, 0 if there is none.\<close>

fun space_width :: "string \<Rightarrow> nat" where
  "space_width [] = 0"
| "space_width (c # s) =
     (let x = code c; y = (case s of [] \<Rightarrow> 0 | d # _ \<Rightarrow> code d); z = (case s of _ # e # _ \<Rightarrow> code e | _ \<Rightarrow> 0)
      in if x = 32 \<or> 9 \<le> x \<and> x \<le> 13 then 1
         else if x = 194 \<and> (y = 133 \<or> y = 160) then 2
         else if x = 225 \<and> y = 154 \<and> z = 128 \<or> x = 227 \<and> y = 128 \<and> z = 128 \<or>
                 x = 226 \<and> y = 128 \<and> (128 \<le> z \<and> z \<le> 138 \<or> z = 168 \<or> z = 169 \<or> z = 175) \<or>
                 x = 226 \<and> y = 129 \<and> z = 159 then 3
         else 0)"

function fields_loop :: "string \<Rightarrow> string \<Rightarrow> string list" where
  "fields_loop word [] = (if word = [] then [] else [word])"
| "fields_loop word (c # s) =
     (if space_width (c # s) = 0 then fields_loop (word @ [c]) s
      else (if word = [] then [] else [word]) @ fields_loop [] (drop (space_width (c # s)) (c # s)))"
  by pat_completeness auto
termination
  by (relation "measure (\<lambda>(w, s). length s)") auto

definition Fields :: "string \<Rightarrow> string list" where
  "Fields s = fields_loop [] s"

text \<open>\<open>strings.TrimSpace\<close>.\<close>

function skip_spaces :: "string \<Rightarrow> string" where
  "skip_spaces s = (if space_width s = 0 then s else skip_spaces (drop (space_width s) s))"
  by auto
termination
proof (relation "measure length")
  fix s :: string assume "space_width s \<noteq> 0"
  then show "(drop (space_width s) s, s) \<in> measure length" by (cases s) auto
qed simp

declare skip_spaces.simps [simp del]

fun trim_right :: "string \<Rightarrow> string" where
  "trim_right [] = []"
| "trim_right (c # s) = (if skip_spaces (c # s) = [] then [] else c # trim_right s)"

definition TrimSpace :: "string \<Rightarrow> string" where
  "TrimSpace s = trim_right (skip_spaces s)"

text \<open>\<open>strings.Contains\<close>.\<close>

fun Contains :: "string \<Rightarrow> string \<Rightarrow> bool" where
  "Contains [] sub = (sub = [])"
| "Contains (c # s) sub = (take (length sub) (c # s) = sub \<or> Contains s sub)"

section \<open>Addresses\<close>

text \<open>\<open>net.SplitHostPort\<close>: the port follows the last colon; a host with colons is in brackets.\<close>

fun first_index :: "char \<Rightarrow> string \<Rightarrow> nat option" where
  "first_index c [] = None"
| "first_index c (x # xs) = (if x = c then Some 0 else map_option Suc (first_index c xs))"

definition last_index :: "char \<Rightarrow> string \<Rightarrow> nat option" where
  "last_index c s = map_option (\<lambda>k. length s - 1 - k) (first_index c (rev s))"

definition no_more_brackets :: "nat \<Rightarrow> nat \<Rightarrow> string \<Rightarrow> string \<times> string \<Rightarrow> error + string \<times> string" where
  "no_more_brackets j k s hp =
     (if first_index (CHR ''['') (drop j s) \<noteq> None then Inl ''unexpected [ in address''
      else if first_index (CHR '']'') (drop k s) \<noteq> None then Inl ''unexpected ] in address''
      else Inr hp)"

definition SplitHostPort :: "string \<Rightarrow> error + string \<times> string" where
  "SplitHostPort s =
     (case last_index (CHR '':'') s of
        None \<Rightarrow> Inl ''missing port in address''
      | Some i \<Rightarrow>
          if s ! 0 = CHR ''['' then
            (case first_index (CHR '']'') s of
               None \<Rightarrow> Inl ''missing ] in address''
             | Some e \<Rightarrow>
                 if e + 1 = length s then Inl ''missing port in address''
                 else if e + 1 = i then no_more_brackets 1 (e + 1) s (take (e - 1) (drop 1 s), drop (i + 1) s)
                 else if s ! (e + 1) = CHR '':'' then Inl ''too many colons in address''
                 else Inl ''missing port in address'')
          else if first_index (CHR '':'') (take i s) \<noteq> None then Inl ''too many colons in address''
          else no_more_brackets 0 0 s (take i s, drop (i + 1) s))"

section \<open>Reading back what was printed\<close>

definition digits_value :: "string \<Rightarrow> int" where
  "digits_value ds = foldl (\<lambda>a c. 10 * a + digit_value c) 0 ds"

lemma digit_value_digit [simp]: "0 \<le> k \<Longrightarrow> k < 10 \<Longrightarrow> digit_value (digit k) = k"
  by (simp add: digit_def digit_value_def)

lemma is_digit_digit [simp]: "0 \<le> k \<Longrightarrow> k < 10 \<Longrightarrow> is_digit (digit k)"
proof -
  assume k: "0 \<le> k" "k < 10"
  have "int (code (digit k)) = 48 + k"
    using k of_nat_of_char [of "digit k", where 'a = int] by (simp add: code_def digit_def)
  then show ?thesis using k by (simp add: is_digit_def)
qed

lemma digits_value_digits: "0 \<le> n \<Longrightarrow> digits_value (digits n) = n"
proof (induction n rule: digits.induct)
  case (1 n)
  show ?case
  proof (cases "n < 10")
    case True
    then show ?thesis using 1 by (simp add: digits.simps [of n] digits_value_def)
  next
    case False
    have "digits_value (digits n) = 10 * digits_value (digits (n div 10)) + digit_value (digit (n mod 10))"
      using False by (simp add: digits.simps [of n] digits_value_def)
    then show ?thesis using 1 False by simp
  qed
qed

lemma digits_digits: "0 \<le> n \<Longrightarrow> list_all is_digit (digits n)"
proof (induction n rule: digits.induct)
  case (1 n)
  then show ?case by (cases "n < 10") (simp_all add: digits.simps [of n])
qed

lemma digits_nonempty [simp]: "digits n \<noteq> []"
  by (subst digits.simps) simp

lemma parse_loop_append:
  "parse_loop bound (s @ t) acc = (case parse_loop bound s acc of Inl e \<Rightarrow> Inl e | Inr a \<Rightarrow> parse_loop bound t a)"
  by (induction bound s acc rule: parse_loop.induct) simp_all

lemma parse_loop_digits: "0 \<le> n \<Longrightarrow> n \<le> bound \<Longrightarrow> parse_loop bound (digits n) 0 = Inr n"
proof (induction n rule: digits.induct)
  case (1 n)
  show ?case
  proof (cases "n < 10")
    case False
    have "n div 10 \<le> bound" using 1(2,3) by linarith
    then have "parse_loop bound (digits (n div 10)) 0 = Inr (n div 10)" using 1 False by simp
    then show ?thesis using 1(2,3) False by (simp add: digits.simps [of n] parse_loop_append)
  qed (use 1 in \<open>simp add: digits.simps [of n]\<close>)
qed

lemma ParseUint_digits: "ParseUint (digits (uint x)) = Inr x"
proof -
  have "uint x \<le> 2 ^ 64 - 1" using uint_lt2p [of x] by simp
  then show ?thesis by (simp add: ParseUint_def parse_loop_digits)
qed

lemma utf8_width_le: "utf8_width s \<le> length s"
  by (cases s) (auto simp: lead_byte_def split: list.splits)

lemma utf8_width_append: "0 < utf8_width s \<Longrightarrow> utf8_width (take (utf8_width s) s @ t) = utf8_width s"
proof (cases s)
  case (Cons c r)
  obtain w lo hi where l: "lead_byte (code c) = (w, lo, hi)" by (metis prod_cases3)
  assume pos: "0 < utf8_width s"
  then have w: "utf8_width s = w"
    using Cons l by (auto split: if_splits list.splits)
  show ?thesis
  proof (cases "w \<le> 1")
    case True
    then show ?thesis using Cons l w pos by (cases w) auto
  next
    case False
    then obtain d q where r: "r = d # q" using pos Cons l by (auto split: list.splits)
    then have f: "lo \<le> code d" "code d \<le> hi" "w - 2 \<le> length q" "list_all continuation (take (w - 2) q)"
      using pos Cons l False by (auto split: if_splits)
    obtain v where v: "w = Suc (Suc v)" using False by (metis One_nat_def Suc_le_D not_less_eq_eq)
    then have "take w s @ t = c # d # (take v q @ t)" using Cons r by simp
    then show ?thesis using l False f v w by simp
  qed
qed simp

section \<open>Splitting\<close>

lemma Split_nonempty: "Split sep s \<noteq> []"
  by (induction s) (auto split: list.splits)

lemma Split_prefix: "sep \<notin> set p \<Longrightarrow> Split sep (p @ sep # s) = p # Split sep s"
  by (induction p) auto

lemma Split_single: "sep \<notin> set p \<Longrightarrow> Split sep p = [p]"
  by (induction p) auto

lemma Split_no_sep: "\<forall>p \<in> set (Split sep s). sep \<notin> set p"
  by (induction sep s rule: Split.induct) (auto split: list.splits)

lemma Split_segments:
  "\<forall>p \<in> set ps. sep \<notin> set p \<Longrightarrow> Split sep (concat (map ((#) sep) ps)) = [] # ps"
proof (induction ps)
  case (Cons p ps)
  show ?case
  proof (cases ps)
    case Nil
    then show ?thesis using Cons.prems Split_single [of sep p] by simp
  next
    case (Cons q qs)
    then obtain t where t: "concat (map ((#) sep) ps) = sep # t" by simp
    then have "Split sep t = ps" using Cons.IH Cons.prems by simp
    then show ?thesis using Cons.prems t by (simp add: Split_prefix)
  qed
qed simp

section \<open>Splitting addresses\<close>

lemma first_index_None [simp]: "first_index c s = None \<longleftrightarrow> c \<notin> set s"
  by (induction s) auto

lemma first_index_append: "c \<notin> set p \<Longrightarrow> first_index c (p @ c # s) = Some (length p)"
  by (induction p) auto

lemma last_index_append: "c \<notin> set s \<Longrightarrow> last_index c (p @ c # s) = Some (length p)"
  using first_index_append [of c "rev s" "rev p"] by (simp add: last_index_def)

lemma SplitHostPort_plain:
  assumes "set host \<inter> {CHR '':'', CHR ''['', CHR '']''} = {}" "set port \<inter> {CHR '':'', CHR ''['', CHR '']''} = {}"
  shows "SplitHostPort (host @ CHR '':'' # port) = Inr (host, port)"
proof -
  have "(host @ CHR '':'' # port) ! 0 \<noteq> CHR ''[''" using assms(1) by (cases host) auto
  then show ?thesis using assms by (auto simp: SplitHostPort_def last_index_append no_more_brackets_def)
qed

lemma SplitHostPort_bracketed:
  assumes "set host \<inter> {CHR ''['', CHR '']''} = {}" "set port \<inter> {CHR '':'', CHR ''['', CHR '']''} = {}"
  shows "SplitHostPort (CHR ''['' # host @ CHR '']'' # CHR '':'' # port) = Inr (host, port)"
proof -
  let ?s = "CHR ''['' # host @ CHR '']'' # CHR '':'' # port"
  have "last_index (CHR '':'') ?s = Some (length host + 2)"
    using last_index_append [of "CHR '':''" port "CHR ''['' # host @ [CHR '']'']"] assms(2) by simp
  moreover have "first_index (CHR '']'') ?s = Some (length host + 1)"
    using first_index_append [of "CHR '']''" host] assms(1) by simp
  ultimately show ?thesis using assms by (auto simp: SplitHostPort_def no_more_brackets_def)
qed

lemma SplitHostPort_no_colon:
  assumes "CHR '':'' \<notin> set s"
  shows "SplitHostPort s = Inl ''missing port in address''"
proof -
  have "last_index (CHR '':'') s = None" using assms by (simp add: last_index_def)
  then show ?thesis by (simp add: SplitHostPort_def)
qed

end
