(* ===== verification/GoJson.thy ===== *)
theory GoJson
  imports GoText
begin

text \<open>
  Go's \<open>encoding/json\<close>, as far as the storage and the HTTP API use it: the compact text that
  \<open>Marshal\<close> writes, and the parser behind \<open>Unmarshal\<close> and \<open>Decoder.Decode\<close>. Strings are
  bytes; the encoder escapes control characters, quotes and \<open>< > &\<close> and replaces invalid UTF-8,
  the decoder handles all escapes, surrogates included. A number keeps its literal text.
\<close>

datatype json =
    JNull
  | JBool bool
  | JNum string
  | JStr string
  | JArr "json list"
  | JObj "(string \<times> json) list"

section \<open>Strings\<close>

definition hex :: "nat \<Rightarrow> char" where
  "hex n = (if n < 10 then char_of (48 + n) else char_of (87 + n))"

definition escape_u :: "nat \<Rightarrow> string" where
  "escape_u x = [CHR 0x5C, CHR ''u'', hex (x div 4096), hex (x div 256 mod 16), hex (x div 16 mod 16), hex (x mod 16)]"

text \<open>What the encoder writes for one ASCII character.\<close>

definition escape :: "char \<Rightarrow> string" where
  "escape c =
     (let x = code c
      in if x = 92 \<or> x = 34 then [CHR 0x5C, c]
         else if x = 8 then [CHR 0x5C, CHR ''b'']
         else if x = 12 then [CHR 0x5C, CHR ''f'']
         else if x = 10 then [CHR 0x5C, CHR ''n'']
         else if x = 13 then [CHR 0x5C, CHR ''r'']
         else if x = 9 then [CHR 0x5C, CHR ''t'']
         else if x < 32 \<or> x = 60 \<or> x = 62 \<or> x = 38 then escape_u x
         else [c])"

definition line_separator :: "string \<Rightarrow> bool" where
  "line_separator s \<longleftrightarrow> map code (take 3 s) = [226, 128, 168] \<or> map code (take 3 s) = [226, 128, 169]"

function quote_body :: "string \<Rightarrow> string" where
  "quote_body [] = []"
| "quote_body (c # s) =
     (if code c < 128 then escape c @ quote_body s
      else if utf8_width (c # s) = 0 then escape_u 65533 @ quote_body s
      else (if line_separator (c # s) then escape_u (8064 + code ((c # s) ! 2)) else take (utf8_width (c # s)) (c # s)) @
           quote_body (drop (utf8_width (c # s)) (c # s)))"
  by pat_completeness auto
termination
  by (relation "measure length") (auto simp del: utf8_width.simps)

definition quote :: "string \<Rightarrow> string" where
  "quote s = CHR 0x22 # quote_body s @ [CHR 0x22]"

definition unhex :: "char \<Rightarrow> nat option" where
  "unhex c =
     (let x = code c
      in if 48 \<le> x \<and> x \<le> 57 then Some (x - 48)
         else if 97 \<le> x \<and> x \<le> 102 then Some (x - 87)
         else if 65 \<le> x \<and> x \<le> 70 then Some (x - 55)
         else None)"

fun unhex4 :: "string \<Rightarrow> nat option" where
  "unhex4 (a # b # c # d # s) =
     (case (unhex a, unhex b, unhex c, unhex d) of
        (Some p, Some q, Some r, Some t) \<Rightarrow> Some (4096 * p + 256 * q + 16 * r + t)
      | _ \<Rightarrow> None)"
| "unhex4 _ = None"

text \<open>
  The text after \<open>\u\<close>: the character, and how many bytes were read. A high surrogate followed by
  an escaped low surrogate is one character; other surrogates are replaced by U+FFFD.
\<close>

definition unescape_u :: "string \<Rightarrow> (string \<times> nat) option" where
  "unescape_u s =
     (case unhex4 s of
        None \<Rightarrow> None
      | Some r \<Rightarrow>
          if r < 55296 \<or> 57343 < r then Some (utf8_encode r, 4)
          else (case (if take 2 (drop 4 s) = [CHR 0x5C, CHR ''u''] then unhex4 (drop 6 s) else None) of
                  Some r2 \<Rightarrow>
                    if r < 56320 \<and> 56320 \<le> r2 \<and> r2 \<le> 57343
                    then Some (utf8_encode (65536 + 1024 * (r - 55296) + (r2 - 56320)), 10)
                    else Some (utf8_encode 65533, 4)
                | None \<Rightarrow> Some (utf8_encode 65533, 4)))"

definition unescape_char :: "char \<Rightarrow> char option" where
  "unescape_char c =
     (let x = code c
      in if x = 34 \<or> x = 92 \<or> x = 47 then Some c
         else if x = 98 then Some (CHR 0x08)
         else if x = 102 then Some (CHR 0x0C)
         else if x = 110 then Some (CHR 0x0A)
         else if x = 114 then Some (CHR 0x0D)
         else if x = 116 then Some (CHR 0x09)
         else None)"

definition prepend :: "string \<Rightarrow> (string \<times> string) option \<Rightarrow> (string \<times> string) option" where
  "prepend out r = map_option (\<lambda>(t, rest). (out @ t, rest)) r"

text \<open>The characters of a string literal after its opening quote, and the text after it.\<close>

function parse_chars :: "string \<Rightarrow> (string \<times> string) option" where
  "parse_chars [] = None"
| "parse_chars (c # s) =
     (if code c = 34 then Some ([], s)
      else if code c = 92 then
        (case s of
           [] \<Rightarrow> None
         | e # r \<Rightarrow>
             if e = CHR ''u'' then
               (case unescape_u r of None \<Rightarrow> None | Some (out, n) \<Rightarrow> prepend out (parse_chars (drop n r)))
             else (case unescape_char e of None \<Rightarrow> None | Some x \<Rightarrow> prepend [x] (parse_chars r)))
      else if code c < 32 then None
      else if utf8_width (c # s) = 0 then prepend (utf8_encode 65533) (parse_chars s)
      else prepend (take (utf8_width (c # s)) (c # s)) (parse_chars (drop (utf8_width (c # s)) (c # s))))"
  by pat_completeness auto
termination
  by (relation "measure length") (auto simp del: utf8_width.simps)

section \<open>Values\<close>

definition is_space :: "char \<Rightarrow> bool" where
  "is_space c \<longleftrightarrow> code c = 32 \<or> code c = 9 \<or> code c = 10 \<or> code c = 13"

definition skip_space :: "string \<Rightarrow> string" where
  "skip_space s = dropWhile is_space s"

text \<open>A number literal: the part that is one, and the rest.\<close>

definition some_digits :: "string \<Rightarrow> (string \<times> string) option" where
  "some_digits s = (if takeWhile is_digit s = [] then None else Some (takeWhile is_digit s, dropWhile is_digit s))"

definition num_int :: "string \<Rightarrow> (string \<times> string) option" where
  "num_int s =
     (case s of [] \<Rightarrow> None | c # r \<Rightarrow> if c = CHR ''0'' then Some ([c], r) else some_digits s)"

definition num_frac :: "string \<Rightarrow> (string \<times> string) option" where
  "num_frac s =
     (case s of c # r \<Rightarrow> if c = CHR ''.'' then prepend [c] (some_digits r) else Some ([], s) | [] \<Rightarrow> Some ([], []))"

definition num_exp :: "string \<Rightarrow> (string \<times> string) option" where
  "num_exp s =
     (case s of
        c # r \<Rightarrow>
          if c = CHR ''e'' \<or> c = CHR ''E'' then
            (case r of
               g # r' \<Rightarrow> if g = CHR ''+'' \<or> g = CHR ''-'' then prepend [c, g] (some_digits r') else prepend [c] (some_digits r)
             | [] \<Rightarrow> None)
          else Some ([], s)
      | [] \<Rightarrow> Some ([], []))"

definition parse_number :: "string \<Rightarrow> (string \<times> string) option" where
  "parse_number s =
     (let (sign, s) = (case s of c # r \<Rightarrow> if c = CHR ''-'' then ([c], r) else ([], s) | [] \<Rightarrow> ([], []))
      in case num_int s of
           None \<Rightarrow> None
         | Some (i, s) \<Rightarrow>
             (case num_frac s of
                None \<Rightarrow> None
              | Some (f, s) \<Rightarrow> prepend (sign @ i @ f) (num_exp s)))"

text \<open>
  The parser: \<open>d\<close> is the nesting depth left (Go stops at 10000), \<open>fuel\<close> bounds the calls; every
  call consumes a character, so the length of the text is enough.
\<close>

fun parse_value :: "nat \<Rightarrow> nat \<Rightarrow> string \<Rightarrow> (json \<times> string) option"
  and parse_members :: "nat \<Rightarrow> nat \<Rightarrow> string \<Rightarrow> ((string \<times> json) list \<times> string) option"
  and parse_elements :: "nat \<Rightarrow> nat \<Rightarrow> string \<Rightarrow> (json list \<times> string) option" where
  "parse_value d 0 s = None"
| "parse_value d (Suc fuel) s =
     (case skip_space s of
        [] \<Rightarrow> None
      | c # r \<Rightarrow>
          if code c = 34 then map_option (\<lambda>(t, r). (JStr t, r)) (parse_chars r)
          else if code c = 123 then
            (if d = 0 then None
             else case skip_space r of
                    [] \<Rightarrow> None
                  | e # r' \<Rightarrow> if code e = 125 then Some (JObj [], r')
                              else map_option (\<lambda>(ms, r). (JObj ms, r)) (parse_members (d - 1) fuel (e # r')))
          else if code c = 91 then
            (if d = 0 then None
             else case skip_space r of
                    [] \<Rightarrow> None
                  | e # r' \<Rightarrow> if code e = 93 then Some (JArr [], r')
                              else map_option (\<lambda>(vs, r). (JArr vs, r)) (parse_elements (d - 1) fuel (e # r')))
          else if take 4 (c # r) = ''null'' then Some (JNull, drop 4 (c # r))
          else if take 4 (c # r) = ''true'' then Some (JBool True, drop 4 (c # r))
          else if take 5 (c # r) = ''false'' then Some (JBool False, drop 5 (c # r))
          else map_option (\<lambda>(n, r). (JNum n, r)) (parse_number (c # r)))"
| "parse_members d 0 s = None"
| "parse_members d (Suc fuel) s =
     (case skip_space s of
        [] \<Rightarrow> None
      | c # r \<Rightarrow>
          if code c \<noteq> 34 then None
          else case parse_chars r of
                 None \<Rightarrow> None
               | Some (k, r) \<Rightarrow>
                   (case skip_space r of
                      [] \<Rightarrow> None
                    | c # r \<Rightarrow>
                        if code c \<noteq> 58 then None
                        else case parse_value d fuel r of
                               None \<Rightarrow> None
                             | Some (v, r) \<Rightarrow>
                                 (case skip_space r of
                                    [] \<Rightarrow> None
                                  | c # r \<Rightarrow>
                                      if code c = 125 then Some ([(k, v)], r)
                                      else if code c = 44 then
                                        map_option (\<lambda>(ms, r). ((k, v) # ms, r)) (parse_members d fuel r)
                                      else None)))"
| "parse_elements d 0 s = None"
| "parse_elements d (Suc fuel) s =
     (case parse_value d fuel s of
        None \<Rightarrow> None
      | Some (v, r) \<Rightarrow>
          (case skip_space r of
             [] \<Rightarrow> None
           | c # r \<Rightarrow>
               if code c = 93 then Some ([v], r)
               else if code c = 44 then map_option (\<lambda>(vs, r). (v # vs, r)) (parse_elements d fuel r)
               else None))"

definition max_depth :: nat where
  "max_depth = 10000"

text \<open>\<open>Decode\<close> reads one value and leaves the rest of the stream; \<open>Unmarshal\<close> allows only space after it.\<close>

definition json_decode :: "string \<Rightarrow> json option" where
  "json_decode s = map_option fst (parse_value max_depth (Suc (length s)) s)"

definition json_unmarshal :: "string \<Rightarrow> json option" where
  "json_unmarshal s =
     (case parse_value max_depth (Suc (length s)) s of
        None \<Rightarrow> None
      | Some (v, r) \<Rightarrow> if skip_space r = [] then Some v else None)"

section \<open>Field names\<close>

text \<open>
  Field names are matched exactly or up to case; the long s (U+017F) and the Kelvin sign (U+212A)
  fold to ASCII letters.
\<close>

fun fold_name :: "string \<Rightarrow> string" where
  "fold_name [] = []"
| "fold_name (c # s) =
     (if 97 \<le> code c \<and> code c \<le> 122 then char_of (code c - 32) # fold_name s
      else if code c = 197 then
        (case s of d # r \<Rightarrow> if code d = 191 then CHR ''S'' # fold_name r else c # fold_name s | [] \<Rightarrow> [c])
      else if code c = 226 then
        (case s of d # e # r \<Rightarrow> if code d = 132 \<and> code e = 170 then CHR ''K'' # fold_name r else c # fold_name s
         | _ \<Rightarrow> c # fold_name s)
      else c # fold_name s)"

definition field_matches :: "string \<Rightarrow> string \<Rightarrow> bool" where
  "field_matches field name \<longleftrightarrow> name = field \<or> fold_name name = fold_name field"

section \<open>Printing\<close>

fun comma :: "string list \<Rightarrow> string" where
  "comma [] = []"
| "comma [s] = s"
| "comma (s # t # ss) = s @ '','' @ comma (t # ss)"

fun json_print :: "json \<Rightarrow> string" where
  "json_print JNull = ''null''"
| "json_print (JBool b) = (if b then ''true'' else ''false'')"
| "json_print (JNum n) = n"
| "json_print (JStr s) = quote s"
| "json_print (JArr vs) = ''['' @ comma (map json_print vs) @ '']''"
| "json_print (JObj ms) = ''{'' @ comma (map (\<lambda>(k, v). quote k @ '':'' @ json_print v) ms) @ ''}''"

section \<open>Strings read back\<close>

lemma char_of_code [simp]: "char_of (code c) = c"
  by (simp add: code_def)

lemma code_char_of: "n < 256 \<Longrightarrow> code (char_of n) = n"
  by (simp add: code_def)

lemma unhex_hex: "n < 16 \<Longrightarrow> unhex (hex n) = Some n"
  by (simp add: unhex_def hex_def code_char_of)

lemma unhex4_escape: "x < 65536 \<Longrightarrow> unhex4 (drop 2 (escape_u x) @ t) = Some x"
proof -
  assume "x < 65536"
  then have h: "x div 4096 < 16" by linarith
  have "4096 * (x div 4096) + 256 * (x div 256 mod 16) + 16 * (x div 16 mod 16) + x mod 16 = x"
  proof -
    have "x div 16 div 16 = x div 256" "x div 256 div 16 = x div 4096" by (simp_all add: div_mult2_eq [symmetric])
    then show ?thesis
      using mult_div_mod_eq [of 16 x] mult_div_mod_eq [of 16 "x div 16"] mult_div_mod_eq [of 16 "x div 256"] by linarith
  qed
  then show ?thesis using h by (simp add: escape_u_def unhex_hex)
qed

lemma parse_escape_u:
  assumes "x < 55296 \<or> 57343 < x" "x < 65536"
  shows "parse_chars (escape_u x @ t) = prepend (utf8_encode x) (parse_chars t)"
proof -
  obtain a b c d where e: "escape_u x = [CHR 0x5C, CHR ''u'', a, b, c, d]" by (simp add: escape_u_def)
  have "unhex4 (a # b # c # d # t) = Some x" using unhex4_escape [OF assms(2), of t] e by simp
  then have "unescape_u (a # b # c # d # t) = Some (utf8_encode x, 4)"
    using assms(1) by (auto simp: unescape_u_def)
  then show ?thesis by (simp add: e code_def)
qed

lemma parse_short_escape:
  assumes "code c = 8 \<or> code c = 12 \<or> code c = 10 \<or> code c = 13 \<or> code c = 9"
  shows "parse_chars (escape c @ t) = prepend [c] (parse_chars t)"
proof -
  have "(of_char c :: nat) = of_char (CHR 0x08) \<or> (of_char c :: nat) = of_char (CHR 0x0C) \<or>
      (of_char c :: nat) = of_char (CHR 0x0A) \<or> (of_char c :: nat) = of_char (CHR 0x0D) \<or> (of_char c :: nat) = of_char (CHR 0x09)"
    using assms by (simp add: code_def)
  then have "c = CHR 0x08 \<or> c = CHR 0x0C \<or> c = CHR 0x0A \<or> c = CHR 0x0D \<or> c = CHR 0x09" by (simp only: of_char_eq_iff)
  then show ?thesis by (auto simp: escape_def unescape_char_def code_def)
qed

lemma parse_escape:
  assumes "code c < 128"
  shows "parse_chars (escape c @ t) = prepend [c] (parse_chars t)"
proof -
  consider "code c = 92 \<or> code c = 34" | "code c = 8 \<or> code c = 12 \<or> code c = 10 \<or> code c = 13 \<or> code c = 9"
    | "code c \<notin> {92, 34, 8, 12, 10, 13, 9}" "code c < 32 \<or> code c = 60 \<or> code c = 62 \<or> code c = 38"
    | "code c \<notin> {92, 34, 8, 12, 10, 13, 9}" "32 \<le> code c" "code c \<noteq> 60" "code c \<noteq> 62" "code c \<noteq> 38"
    by fastforce
  then show ?thesis
  proof cases
    case 1
    have "c \<noteq> CHR ''u''" using 1 by (auto simp: code_def)
    then show ?thesis using 1 by (auto simp: escape_def unescape_char_def code_def [of "CHR 0x5C"])
  next
    case 2
    then show ?thesis by (rule parse_short_escape)
  next
    case 3
    then have "escape c = escape_u (code c)" by (simp add: escape_def Let_def)
    then show ?thesis using assms by (simp add: parse_escape_u utf8_encode_def)
  next
    case 4
    then show ?thesis using assms by (simp add: escape_def lead_byte_def)
  qed
qed

lemma valid_utf8_Cons:
  "valid_utf8 (c # s) \<longleftrightarrow> 0 < utf8_width (c # s) \<and> valid_utf8 (drop (utf8_width (c # s)) (c # s))"
  by (subst valid_utf8.simps) simp

lemma line_separator_encode:
  assumes "line_separator s"
  shows "utf8_encode (8064 + code (s ! 2)) = take 3 s" "utf8_width s = 3" "8064 + code (s ! 2) < 55296"
proof -
  have "length (take 3 s) = 3" using assms by (metis line_separator_def length_map length_Cons list.size(3) numeral_3_eq_3)
  then obtain a b c r where s: "s = a # b # c # r"
    by (cases s rule: remdups_adj.cases; cases "tl (tl s)") (auto simp: numeral_3_eq_3)
  then have x: "code a = 226" "code b = 128" "code c = 168 \<or> code c = 169"
    using assms by (auto simp: line_separator_def)
  then have "a = char_of (226::nat)" "b = char_of (128::nat)" by (metis char_of_code)+
  then show "utf8_encode (8064 + code (s ! 2)) = take 3 s"
    using x(3) char_of_code [of c] by (auto simp: s utf8_encode_def simp del: char_of_code)
  show "utf8_width s = 3" "8064 + code (s ! 2) < 55296"
    using x by (auto simp: s lead_byte_def continuation_def)
qed

lemma parse_multibyte:
  assumes "0 < utf8_width (c # s)" "128 \<le> code c"
  defines "w \<equiv> utf8_width (c # s)"
  shows "parse_chars (take w (c # s) @ t) = prepend (take w (c # s)) (parse_chars t)"
proof -
  obtain v where v: "w = Suc v" using assms(1) by (cases w) (auto simp: w_def simp del: utf8_width.simps)
  then have cons: "take w (c # s) @ t = c # (take v s @ t)" by simp
  have "utf8_width (c # (take v s @ t)) = w"
    using utf8_width_append [OF assms(1), of t] cons by (simp only: w_def)
  moreover have "length (take w (c # s)) = w" using utf8_width_le [of "c # s"] by (simp only: w_def length_take min_absorb2)
  ultimately show ?thesis
    using assms(2) v unfolding cons
    by (subst parse_chars.simps(2)) (simp del: utf8_width.simps add: take_Cons' drop_Cons')
qed

lemma parse_chars_quote: "valid_utf8 s \<Longrightarrow> parse_chars (quote_body s @ CHR 0x22 # rest) = Some (s, rest)"
proof (induction s rule: quote_body.induct)
  case 1
  show ?case by (simp add: code_def)
next
  case (2 c s)
  note v = 2(4) [unfolded valid_utf8_Cons]
  show ?case
  proof (cases "code c < 128")
    case True
    then have "utf8_width (c # s) = 1" by (simp add: lead_byte_def)
    then show ?thesis using 2(1) [OF True] v True by (simp add: parse_escape prepend_def del: utf8_width.simps)
  next
    case False
    let ?w = "utf8_width (c # s)"
    have ih: "parse_chars (quote_body (drop ?w (c # s)) @ CHR 0x22 # rest) = Some (drop ?w (c # s), rest)"
      using 2(3) [OF False] v by (simp del: utf8_width.simps)
    show ?thesis
    proof (cases "line_separator (c # s)")
      case True
      note l = line_separator_encode [OF True]
      have "parse_chars (escape_u (8064 + code ((c # s) ! 2)) @ quote_body (drop ?w (c # s)) @ CHR 0x22 # rest) =
          prepend (take 3 (c # s)) (Some (drop ?w (c # s), rest))"
        using parse_escape_u [of "8064 + code ((c # s) ! 2)"] l(1,3) ih by simp
      then show ?thesis using False True l(2) v by (simp add: prepend_def del: utf8_width.simps)
    next
      case no: False
      have "parse_chars (take ?w (c # s) @ quote_body (drop ?w (c # s)) @ CHR 0x22 # rest) =
          prepend (take ?w (c # s)) (Some (drop ?w (c # s), rest))"
        using parse_multibyte [of c s] v False ih by (simp del: utf8_width.simps)
      then show ?thesis using False no v by (simp add: prepend_def del: utf8_width.simps)
    qed
  qed
qed

section \<open>Values read back\<close>

text \<open>The values whose text is read back: valid strings, and numbers without sign and fraction.\<close>

definition uint_literal :: "string \<Rightarrow> bool" where
  "uint_literal n \<longleftrightarrow> n = ''0'' \<or> n \<noteq> [] \<and> list_all is_digit n \<and> hd n \<noteq> CHR ''0''"

fun json_ok :: "json \<Rightarrow> bool" where
  "json_ok (JNum n) = uint_literal n"
| "json_ok (JStr s) = valid_utf8 s"
| "json_ok (JArr vs) = list_all json_ok vs"
| "json_ok (JObj ms) = list_all (\<lambda>(k, v). valid_utf8 k \<and> json_ok v) ms"
| "json_ok _ = True"

fun depth :: "json \<Rightarrow> nat" where
  "depth (JArr vs) = Suc (foldr (\<lambda>v n. max (depth v) n) vs 0)"
| "depth (JObj ms) = Suc (foldr (\<lambda>(k, v) n. max (depth v) n) ms 0)"
| "depth _ = 0"

definition delimiter :: "string \<Rightarrow> bool" where
  "delimiter t \<longleftrightarrow>
     t = [] \<or> code (hd t) = 44 \<or> code (hd t) = 125 \<or> code (hd t) = 93 \<or> code (hd t) = 10"

definition member :: "string \<times> json \<Rightarrow> string" where
  "member m = (case m of (k, v) \<Rightarrow> quote k @ '':'' @ json_print v)"

lemma member_pair: "member (k, v) = quote k @ '':'' @ json_print v"
  by (simp add: member_def)

lemma json_print_JObj: "json_print (JObj ms) = ''{'' @ comma (map member ms) @ ''}''"
  by (simp add: member_def [abs_def])

lemma skip_space_Cons [simp]: "\<not> is_space c \<Longrightarrow> skip_space (c # s) = c # s"
  by (simp add: skip_space_def)

lemma delimiter_Cons:
  "delimiter (c # t) \<longleftrightarrow> code c = 44 \<or> code c = 125 \<or> code c = 93 \<or> code c = 10" "delimiter []"
  by (simp_all add: delimiter_def)

lemma delimiter_ends_number:
  assumes "delimiter t"
  shows "dropWhile is_digit t = t" "takeWhile is_digit t = []" "num_frac t = Some ([], t)" "num_exp t = Some ([], t)"
proof -
  have "\<not> is_digit c \<and> c \<noteq> CHR ''.'' \<and> c \<noteq> CHR ''e'' \<and> c \<noteq> CHR ''E''" if "t = c # r" for c r
  proof -
    have "code c = 44 \<or> code c = 125 \<or> code c = 93 \<or> code c = 10" using assms that by (simp add: delimiter_def)
    then show ?thesis by (auto simp: is_digit_def) (simp_all add: code_def)
  qed
  then show "dropWhile is_digit t = t" "takeWhile is_digit t = []" "num_frac t = Some ([], t)" "num_exp t = Some ([], t)"
    by (cases t; simp add: num_frac_def num_exp_def)+
qed

lemma parse_number_uint:
  assumes "uint_literal n" "delimiter t"
  shows "parse_number (n @ t) = Some (n, t)"
proof -
  obtain c r where n: "n = c # r" using assms(1) by (cases n) (auto simp: uint_literal_def)
  have dig: "list_all is_digit n" using assms(1) by (auto simp: uint_literal_def is_digit_def code_def)
  then have minus: "c \<noteq> CHR ''-''" by (auto simp: n is_digit_def code_def)
  have "takeWhile is_digit (n @ t) = n" "dropWhile is_digit (n @ t) = t"
    using dig delimiter_ends_number(1,2) [OF assms(2)] takeWhile_append2 [of n is_digit t] dropWhile_append2 [of n is_digit t]
    by (simp_all add: list_all_iff)
  then have "num_int (n @ t) = Some (n, t)"
    using assms(1) by (auto simp: num_int_def some_digits_def uint_literal_def n)
  then show ?thesis
    using minus delimiter_ends_number [OF assms(2)] by (simp add: parse_number_def n prepend_def)
qed

lemma quote_Cons: "quote s @ t = CHR 0x22 # quote_body s @ CHR 0x22 # t"
  by (simp add: quote_def)

lemma code_simps [simp]:
  "code (CHR 0x22) = 34" "code (CHR ''{'') = 123" "code (CHR ''}'') = 125" "code (CHR ''['') = 91"
  "code (CHR '']'') = 93" "code (CHR '','') = 44" "code (CHR '':'') = 58"
  by (simp_all add: code_def)

lemma not_space [simp]:
  "\<not> is_space (CHR 0x22)" "\<not> is_space (CHR ''{'')" "\<not> is_space (CHR ''}'')" "\<not> is_space (CHR ''['')"
  "\<not> is_space (CHR '']'')" "\<not> is_space (CHR '','')" "\<not> is_space (CHR '':'')"
  by (simp_all add: is_space_def)

lemma json_print_head:
  assumes "json_ok v"
  shows "\<exists>c r. json_print v = c # r \<and> \<not> is_space c \<and> code c \<noteq> 93"
proof (cases v)
  case (JNum n)
  then obtain c r where "n = c # r" "is_digit c"
    using assms by (cases n) (auto simp: uint_literal_def is_digit_def code_def)
  then show ?thesis using JNum by (auto simp: is_space_def is_digit_def)
qed (auto simp: quote_def is_space_def code_def)

lemma parse_members_print:
  assumes "ms \<noteq> []" "length (comma (map member ms)) < f"
    and "\<And>k v f t. (k, v) \<in> set ms \<Longrightarrow> length (json_print v) \<le> f \<Longrightarrow> delimiter t \<Longrightarrow>
      valid_utf8 k \<and> parse_value d f (json_print v @ t) = Some (v, t)"
  shows "parse_members d f (comma (map member ms) @ CHR ''}'' # t) = Some (ms, t)"
  using assms
proof (induction ms arbitrary: f)
  case (Cons m ms)
  note IH = Cons.IH and prems = Cons.prems
  obtain k v where m: "m = (k, v)" by force
  obtain g where f: "f = Suc g" using Cons.prems(2) by (cases f) auto
  have len: "length (json_print v) \<le> g"
    using Cons.prems(2) by (cases ms) (auto simp: m f member_def quote_def)
  have k: "valid_utf8 k" using Cons.prems(3) [of k v g "[]"] len by (simp add: m delimiter_Cons)
  have v: "parse_value d g (json_print v @ c # r) = Some (v, c # r)" if "code c = 44 \<or> code c = 125" for c r
    using Cons.prems(3) [of k v g "c # r"] len that by (auto simp: m delimiter_Cons)
  show ?case
  proof (cases ms)
    case Nil
    then show ?thesis using k v by (simp add: m f member_pair quote_Cons parse_chars_quote)
  next
    case (Cons m' ms')
    then have "comma (map member (m # ms)) = member m @ CHR '','' # comma (map member ms)" by simp
    moreover have "parse_members d g (comma (map member ms) @ CHR ''}'' # t) = Some (ms, t)"
    proof (rule IH)
      show "ms \<noteq> []" by (simp add: Cons)
      show "length (comma (map member ms)) < g" using prems(2) calculation by (simp add: f)
    qed (use prems(3) in auto)
    ultimately show ?thesis using k v by (simp add: m f member_pair quote_Cons parse_chars_quote)
  qed
qed simp

lemma parse_elements_print:
  assumes "vs \<noteq> []" "length (comma (map json_print vs)) < f"
    and "\<And>v f t. v \<in> set vs \<Longrightarrow> length (json_print v) \<le> f \<Longrightarrow> delimiter t \<Longrightarrow>
      parse_value d f (json_print v @ t) = Some (v, t)"
  shows "parse_elements d f (comma (map json_print vs) @ CHR '']'' # t) = Some (vs, t)"
  using assms
proof (induction vs arbitrary: f)
  case (Cons v vs)
  note IH = Cons.IH and prems = Cons.prems
  obtain g where f: "f = Suc g" using Cons.prems(2) by (cases f) auto
  have len: "length (json_print v) \<le> g" using Cons.prems(2) by (cases vs) (auto simp: f)
  have v: "parse_value d g (json_print v @ c # r) = Some (v, c # r)" if "code c = 44 \<or> code c = 93" for c r
    using Cons.prems(3) [of v g "c # r"] len that by (auto simp: delimiter_Cons)
  show ?case
  proof (cases vs)
    case Nil
    then show ?thesis using v by (simp add: f)
  next
    case (Cons v' vs')
    then have c: "comma (map json_print (v # vs)) = json_print v @ CHR '','' # comma (map json_print vs)" by simp
    moreover have "parse_elements d g (comma (map json_print vs) @ CHR '']'' # t) = Some (vs, t)"
    proof (rule IH)
      show "vs \<noteq> []" by (simp add: Cons)
      show "length (comma (map json_print vs)) < g" using prems(2) c by (simp add: f)
    qed (use prems(3) in auto)
    ultimately show ?thesis using v by (simp add: f)
  qed
qed simp

lemma depth_JObj: "depth (JObj ms) \<le> d \<Longrightarrow> (k, v) \<in> set ms \<Longrightarrow> depth v \<le> d - 1 \<and> d \<noteq> 0"
  by (induction ms) auto

lemma depth_JArr: "depth (JArr vs) \<le> d \<Longrightarrow> v \<in> set vs \<Longrightarrow> depth v \<le> d - 1 \<and> d \<noteq> 0"
  by (induction vs) auto

text \<open>What the parser sees after an opening brace or bracket.\<close>

lemma members_head: "ms \<noteq> [] \<Longrightarrow> \<exists>r. comma (map member ms) = CHR 0x22 # r"
proof (cases ms)
  case (Cons m us)
  then show ?thesis by (cases m; cases us) (simp_all add: member_pair quote_def)
qed simp

lemma elements_head:
  assumes "vs \<noteq> []" "list_all json_ok vs"
  shows "\<exists>c r. comma (map json_print vs) = c # r \<and> \<not> is_space c \<and> code c \<noteq> 93"
proof (cases vs)
  case (Cons v us)
  then show ?thesis using json_print_head [of v] assms(2) by (cases us) auto
qed (use assms in simp)

text \<open>The parser on what is printed, first for an array and an object whose parts are read back.\<close>

definition reads_back :: "json \<Rightarrow> bool" where
  "reads_back v \<longleftrightarrow> (\<forall>d f t. depth v \<le> d \<longrightarrow> length (json_print v) \<le> f \<longrightarrow> delimiter t \<longrightarrow>
     parse_value d f (json_print v @ t) = Some (v, t))"

lemma JArr_reads_back:
  assumes "list_all json_ok vs" "\<And>v. v \<in> set vs \<Longrightarrow> reads_back v"
  shows "reads_back (JArr vs)"
  unfolding reads_back_def
proof (intro allI impI)
  fix d f t assume prems: "depth (JArr vs) \<le> d" "length (json_print (JArr vs)) \<le> f" "delimiter t"
  then obtain g where f: "f = Suc g" by (cases f) auto
  show "parse_value d f (json_print (JArr vs) @ t) = Some (JArr vs, t)"
  proof (cases "vs = []")
    case False
    obtain c r where h: "comma (map json_print vs) = c # r" "\<not> is_space c" "code c \<noteq> 93"
      using elements_head [OF False assms(1)] by auto
    have "parse_elements (d - 1) g (comma (map json_print vs) @ CHR '']'' # t) = Some (vs, t)"
    proof (rule parse_elements_print [OF False])
      show "length (comma (map json_print vs)) < g" using prems(2) by (simp add: f)
    qed (use assms(2) depth_JArr [OF prems(1)] in \<open>auto simp: reads_back_def\<close>)
    moreover have "d \<noteq> 0" using prems(1) by auto
    ultimately show ?thesis using h by (simp add: f)
  qed (use prems in \<open>simp add: f\<close>)
qed

lemma JObj_reads_back:
  assumes "\<And>k v. (k, v) \<in> set ms \<Longrightarrow> valid_utf8 k \<and> reads_back v"
  shows "reads_back (JObj ms)"
  unfolding reads_back_def
proof (intro allI impI)
  fix d f t assume prems: "depth (JObj ms) \<le> d" "length (json_print (JObj ms)) \<le> f" "delimiter t"
  then obtain g where f: "f = Suc g" by (cases f) auto
  show "parse_value d f (json_print (JObj ms) @ t) = Some (JObj ms, t)"
  proof (cases "ms = []")
    case False
    obtain r where h: "comma (map member ms) = CHR 0x22 # r" using members_head [OF False] by blast
    have "parse_members (d - 1) g (comma (map member ms) @ CHR ''}'' # t) = Some (ms, t)"
    proof (rule parse_members_print [OF False])
      show "length (comma (map member ms)) < g" using prems(2) by (simp add: f json_print_JObj del: json_print.simps)
    qed (use assms depth_JObj [OF prems(1)] in \<open>auto simp: reads_back_def\<close>)
    moreover have "d \<noteq> 0" using prems(1) by auto
    ultimately show ?thesis using h by (simp add: f json_print_JObj del: json_print.simps)
  qed (use prems in \<open>simp add: f\<close>)
qed

lemma JNum_reads_back:
  assumes "json_ok (JNum n)"
  shows "reads_back (JNum n)"
  unfolding reads_back_def
proof (intro allI impI)
  fix d f t assume prems: "length (json_print (JNum n)) \<le> f" "delimiter t"
  obtain c r where n: "n = c # r" "is_digit c"
    using assms by (cases n) (auto simp: uint_literal_def is_digit_def code_def)
  obtain g where f: "f = Suc g" using prems(1) n by (cases f) auto
  have "c \<noteq> CHR ''n''" "c \<noteq> CHR ''t''" "c \<noteq> CHR ''f''" "\<not> is_space c" "code c \<noteq> 34" "code c \<noteq> 123" "code c \<noteq> 91"
    using n(2) by (auto simp: is_digit_def is_space_def code_def)
  then show "parse_value d f (json_print (JNum n) @ t) = Some (JNum n, t)"
    using parse_number_uint [of n t] assms prems(2) by (simp add: f n)
qed

lemma json_reads_back: "json_ok v \<Longrightarrow> reads_back v"
proof (induction v)
  case (JNum n)
  then show ?case by (rule JNum_reads_back)
next
  case (JStr s)
  have "parse_value d f (json_print (JStr s) @ t) = Some (JStr s, t)" if "length (quote s) \<le> f" for d f t
    using that JStr by (cases f; cases "quote s") (auto simp: quote_def quote_Cons parse_chars_quote)
  then show ?case by (simp add: reads_back_def)
next
  case (JArr vs)
  then show ?case by (auto simp: list_all_iff intro: JArr_reads_back)
next
  case (JObj ms)
  have "valid_utf8 k \<and> reads_back v" if m: "(k, v) \<in> set ms" for k v
    using JObj.IH [OF m] JObj.prems m by (auto simp: list_all_iff)
  then show ?case by (rule JObj_reads_back)
next
  case JNull
  show ?case unfolding reads_back_def
  proof (intro allI impI)
    fix d f t assume "length (json_print JNull) \<le> f"
    then show "parse_value d f (json_print JNull @ t) = Some (JNull, t)" by (cases f) (simp_all add: is_space_def code_def)
  qed
next
  case (JBool b)
  show ?case unfolding reads_back_def
  proof (intro allI impI)
    fix d f t assume "length (json_print (JBool b)) \<le> f"
    then show "parse_value d f (json_print (JBool b) @ t) = Some (JBool b, t)"
      by (cases f; cases b) (simp_all add: is_space_def code_def)
  qed
qed

lemma parse_value_print:
  "json_ok v \<Longrightarrow> depth v \<le> d \<Longrightarrow> length (json_print v) \<le> f \<Longrightarrow> delimiter t \<Longrightarrow>
   parse_value d f (json_print v @ t) = Some (v, t)"
  using json_reads_back by (simp add: reads_back_def)

lemma json_unmarshal_print:
  "json_ok v \<Longrightarrow> depth v \<le> max_depth \<Longrightarrow> json_unmarshal (json_print v) = Some v"
  using parse_value_print [of v max_depth "Suc (length (json_print v))" "[]"]
  by (simp add: json_unmarshal_def delimiter_Cons skip_space_def)

lemma json_read_line:
  assumes "json_ok v" "depth v \<le> max_depth"
  shows "json_unmarshal (json_print v @ [CHR 0x0A]) = Some v" "json_decode (json_print v) = Some v"
  using parse_value_print [OF assms, of "Suc (Suc (length (json_print v)))" "[CHR 0x0A]"]
    parse_value_print [OF assms, of "Suc (length (json_print v))" "[]"]
  by (simp_all add: json_unmarshal_def json_decode_def delimiter_Cons skip_space_def is_space_def code_def)

lemma digits_literal: "0 \<le> n \<Longrightarrow> uint_literal (digits n)"
proof -
  assume n: "0 \<le> n"
  have "hd (digits n) \<noteq> CHR ''0''" if "0 < n"
    using that
  proof (induction n rule: digits.induct)
    case (1 n)
    show ?case
    proof (cases "n < 10")
      case True
      have "of_char (digit n) = 48 + n" using True 1(2) by (simp add: digit_def)
      then have "digit n \<noteq> CHR ''0''" using 1(2) by auto
      then show ?thesis using True by (simp add: digits.simps [of n])
    next
      case False
      then show ?thesis using 1 by (simp add: digits.simps [of n] pos_imp_zdiv_pos_iff)
    qed
  qed
  moreover have "digits 0 = ''0''" by (simp add: digits.simps digit_def char_of_def)
  ultimately show ?thesis using n digits_digits [OF n] by (cases "n = 0") (auto simp: uint_literal_def)
qed

end
