(* ===== verification/Storage.thy ===== *)
theory Storage
  imports CounterMap GoJson "HOL-Library.Char_ord" "HOL-Library.List_Lexorder"
begin

text \<open>
  \<open>internal/storage\<close>: the snapshot of the counter map on disk. \<open>Save\<close> marshals to JSON, writes
  a temporary file, syncs it, renames it over the snapshot and syncs the directory; every system
  call may fail, and the machine may crash during each of them. \<open>Load\<close> reads the snapshot back.

  The file system keeps, beside the directory that processes see, the earlier versions of the
  directory that a crash may bring back (\<open>olderDirs\<close>), and for every inode whether its content has
  been synced: after a crash the content of an unsynced inode is arbitrary.
\<close>

section \<open>JSON of a counter map\<close>

definition marshal_counter :: "GCounter \<Rightarrow> json" where
  "marshal_counter g =
     JObj [(''Counts'', JObj (map (\<lambda>(n, c). (n, JNum (digits (uint c)))) (sort_key fst (Counts g))))]"

definition marshal_state :: "CounterMap \<Rightarrow> json" where
  "marshal_state cm =
     JObj [(''Counters'', JObj (map (\<lambda>(k, g). (k, marshal_counter g)) (sort_key fst (Counters cm))))]"

definition json_Marshal :: "CounterMap \<Rightarrow> string" where
  "json_Marshal cm = json_print (marshal_state cm)"

text \<open>
  Decoding into the structs. The outer \<open>None\<close> is an error of \<open>Unmarshal\<close> (a value of the wrong
  type); an inner \<open>None\<close> is a nil map or pointer, which \<open>null\<close> and missing fields give.
\<close>

fun decode_counts :: "(string \<times> json) list \<Rightarrow> (NodeId, uint64) gomap \<Rightarrow> (NodeId, uint64) gomap option" where
  "decode_counts [] m = Some m"
| "decode_counts ((n, v) # ms) m =
     (case v of
        JNull \<Rightarrow> decode_counts ms (gm_set n 0 m)
      | JNum lit \<Rightarrow> (case ParseUint lit of Inl e \<Rightarrow> None | Inr c \<Rightarrow> decode_counts ms (gm_set n c m))
      | _ \<Rightarrow> None)"

fun decode_gcounter :: "(string \<times> json) list \<Rightarrow> (NodeId, uint64) gomap option \<Rightarrow> (NodeId, uint64) gomap option option" where
  "decode_gcounter [] c = Some c"
| "decode_gcounter ((f, v) # ms) c =
     (if field_matches ''Counts'' f then
        (case v of
           JNull \<Rightarrow> decode_gcounter ms None
         | JObj cs \<Rightarrow> (case decode_counts cs (case c of None \<Rightarrow> [] | Some m \<Rightarrow> m) of
                         None \<Rightarrow> None | Some m \<Rightarrow> decode_gcounter ms (Some m))
         | _ \<Rightarrow> None)
      else decode_gcounter ms c)"

fun decode_counters :: "(string \<times> json) list \<Rightarrow> (string, GCounter option) gomap \<Rightarrow> (string, GCounter option) gomap option" where
  "decode_counters [] m = Some m"
| "decode_counters ((k, v) # ms) m =
     (case v of
        JNull \<Rightarrow> decode_counters ms (gm_set k None m)
      | JObj fs \<Rightarrow> (case decode_gcounter fs None of
                      None \<Rightarrow> None
                    | Some c \<Rightarrow> decode_counters ms (gm_set k (map_option (\<lambda>c. \<lparr>Counts = c\<rparr>) c) m))
      | _ \<Rightarrow> None)"

fun decode_state :: "(string \<times> json) list \<Rightarrow> (string, GCounter option) gomap option \<Rightarrow> (string, GCounter option) gomap option option" where
  "decode_state [] m = Some m"
| "decode_state ((f, v) # ms) m =
     (if field_matches ''Counters'' f then
        (case v of
           JNull \<Rightarrow> decode_state ms None
         | JObj cs \<Rightarrow> (case decode_counters cs (case m of None \<Rightarrow> [] | Some m \<Rightarrow> m) of
                         None \<Rightarrow> None | Some m \<Rightarrow> decode_state ms (Some m))
         | _ \<Rightarrow> None)
      else decode_state ms m)"

text \<open>
  The result of \<open>Load\<close>. \<open>LoadedNil\<close> is a state with a nil map or a nil counter inside, on which
  an increment of a new key, or any use of the nil counter, panics; a file written by \<open>Save\<close> does
  not lead to it.
\<close>

datatype load_result = LoadError error | Loaded CounterMap | LoadedNil

definition decoded_state :: "(string, GCounter option) gomap option \<Rightarrow> load_result" where
  "decoded_state m =
     (case m of
        None \<Rightarrow> LoadedNil
      | Some m \<Rightarrow>
          if \<exists>x \<in> set m. snd x = None then LoadedNil
          else Loaded \<lparr>Counters = map (\<lambda>(k, g). (k, the g)) m, nodeIds = []\<rparr>)"

definition json_Unmarshal :: "string \<Rightarrow> load_result" where
  "json_Unmarshal data =
     (case json_unmarshal data of
        None \<Rightarrow> LoadError ''invalid JSON''
      | Some JNull \<Rightarrow> LoadedNil
      | Some (JObj ms) \<Rightarrow> (case decode_state ms None of
                             None \<Rightarrow> LoadError ''json: cannot unmarshal'' | Some m \<Rightarrow> decoded_state m)
      | Some _ \<Rightarrow> LoadError ''json: cannot unmarshal'')"

section \<open>The file system\<close>

type_synonym inode = nat

record fs =
  dir :: "string \<rightharpoonup> inode"
  olderDirs :: "(string \<rightharpoonup> inode) list"
  content :: "inode \<Rightarrow> string"
  stable :: "inode \<Rightarrow> bool"
  nextInode :: inode

definition set_dir :: "(string \<rightharpoonup> inode) \<Rightarrow> fs \<Rightarrow> fs" where
  "set_dir D s = s\<lparr>dir := D, olderDirs := dir s # olderDirs s\<rparr>"

text \<open>\<open>O_CREATE|O_TRUNC\<close>: an existing file is emptied, a missing one gets a new inode.\<close>

definition open_trunc :: "string \<Rightarrow> fs \<Rightarrow> fs" where
  "open_trunc p s =
     (case dir s p of
        Some i \<Rightarrow> s\<lparr>content := (content s)(i := []), stable := (stable s)(i := False)\<rparr>
      | None \<Rightarrow>
          (let i = nextInode s
           in set_dir ((dir s)(p \<mapsto> i))
                (s\<lparr>content := (content s)(i := []), stable := (stable s)(i := False), nextInode := i + 1\<rparr>)))"

definition write_file :: "string \<Rightarrow> string \<Rightarrow> fs \<Rightarrow> fs" where
  "write_file p data s =
     (case dir s p of
        None \<Rightarrow> s
      | Some i \<Rightarrow> s\<lparr>content := (content s)(i := content s i @ data), stable := (stable s)(i := False)\<rparr>)"

definition sync_file :: "string \<Rightarrow> fs \<Rightarrow> fs" where
  "sync_file p s = (case dir s p of None \<Rightarrow> s | Some i \<Rightarrow> s\<lparr>stable := (stable s)(i := True)\<rparr>)"

definition rename_file :: "string \<Rightarrow> string \<Rightarrow> fs \<Rightarrow> fs" where
  "rename_file p q s =
     (case dir s p of None \<Rightarrow> s | Some i \<Rightarrow> set_dir ((dir s)(p := None, q \<mapsto> i)) s)"

definition sync_dir :: "fs \<Rightarrow> fs" where
  "sync_dir s = s\<lparr>olderDirs := []\<rparr>"

definition visible :: "string \<Rightarrow> fs \<Rightarrow> string option" where
  "visible p s = map_option (content s) (dir s p)"

text \<open>After a crash: one of the directory versions, and garbage in files that were not synced.\<close>

definition versions :: "fs \<Rightarrow> (string \<rightharpoonup> inode) list" where
  "versions s = dir s # olderDirs s"

definition reboot :: "nat \<Rightarrow> (inode \<Rightarrow> string) \<Rightarrow> fs \<Rightarrow> fs" where
  "reboot k garbage s =
     s\<lparr>dir := versions s ! (k mod length (versions s)), olderDirs := [],
       content := (\<lambda>i. if stable s i then content s i else garbage i), stable := (\<lambda>_. True)\<rparr>"

section \<open>Saving and loading\<close>

text \<open>
  How a system call ends: it may fail or the machine may crash in it; \<open>n\<close> is how much of a write
  got through, and for other calls whether (not 0) the effect took place.
\<close>

datatype outcome = Ok | Fail error nat | Crash nat

datatype syscall = SMkdirAll | SOpenFile | SWrite | SSync | SClose | SRename | SOpenDir | SSyncDir

datatype save_result = SaveReturned "error option" | SaveDied

definition sys ::
    "outcome \<Rightarrow> (fs \<Rightarrow> fs) \<Rightarrow> (nat \<Rightarrow> fs \<Rightarrow> fs) \<Rightarrow> (fs \<Rightarrow> save_result \<times> fs) \<Rightarrow> fs \<Rightarrow> save_result \<times> fs" where
  "sys r effect partial continue s =
     (case r of
        Ok \<Rightarrow> continue (effect s)
      | Fail err n \<Rightarrow> (SaveReturned (Some err), partial n s)
      | Crash n \<Rightarrow> (SaveDied, partial n s))"

definition maybe :: "(fs \<Rightarrow> fs) \<Rightarrow> nat \<Rightarrow> fs \<Rightarrow> fs" where
  "maybe effect n s = (if n = 0 then s else effect s)"

definition FileStorage_Save :: "(syscall \<Rightarrow> outcome) \<Rightarrow> string \<Rightarrow> CounterMap \<Rightarrow> fs \<Rightarrow> save_result \<times> fs" where
  "FileStorage_Save oc filePath state =
     sys (oc SMkdirAll) id (\<lambda>n. id)
       (let data = json_Marshal state; tempPath = filePath @ ''.tmp''
        in sys (oc SOpenFile) (open_trunc tempPath) (maybe (open_trunc tempPath))
             (sys (oc SWrite) (write_file tempPath data) (\<lambda>n. write_file tempPath (take n data))
               (sys (oc SSync) (sync_file tempPath) (\<lambda>n. id)
                 (sys (oc SClose) id (\<lambda>n. id)
                   (sys (oc SRename) (rename_file tempPath filePath) (maybe (rename_file tempPath filePath))
                     (\<lambda>s. case oc SOpenDir of
                            Fail err n \<Rightarrow> (SaveReturned None, s)
                          | Crash n \<Rightarrow> (SaveDied, s)
                          | Ok \<Rightarrow>
                              (case oc SSyncDir of
                                 Ok \<Rightarrow> (SaveReturned None, sync_dir s)
                               | Fail err n \<Rightarrow> (SaveReturned None, s)
                               | Crash n \<Rightarrow> (SaveDied, maybe sync_dir n s))))))))"

definition FileStorage_Load :: "error option \<Rightarrow> string \<Rightarrow> NodeId list \<Rightarrow> fs \<Rightarrow> load_result" where
  "FileStorage_Load readErr filePath ids s =
     (case readErr of
        Some err \<Rightarrow> LoadError err
      | None \<Rightarrow>
          (case visible filePath s of
             None \<Rightarrow> Loaded (NewCounterMap ids)
           | Some data \<Rightarrow> if length data = 0 then Loaded (NewCounterMap ids) else json_Unmarshal data))"

definition NoopStorage_Save :: "CounterMap \<Rightarrow> error option" where
  "NoopStorage_Save state = None"

definition NoopStorage_Load :: "NodeId list \<Rightarrow> load_result" where
  "NoopStorage_Load ids = Loaded (NewCounterMap ids)"

section \<open>The text read back\<close>

definition strings_ok :: "CounterMap \<Rightarrow> bool" where
  "strings_ok cm \<longleftrightarrow>
     (\<forall>(k, g) \<in> set (Counters cm). valid_utf8 k \<and> (\<forall>(n, c) \<in> set (Counts g). valid_utf8 n))"

text \<open>What comes back: the entries sorted by key, and no node ids.\<close>

definition sorted_counter :: "GCounter \<Rightarrow> GCounter" where
  "sorted_counter g = \<lparr>Counts = sort_key fst (Counts g)\<rparr>"

definition reloaded :: "CounterMap \<Rightarrow> CounterMap" where
  "reloaded cm = \<lparr>Counters = map (\<lambda>(k, g). (k, sorted_counter g)) (sort_key fst (Counters cm)), nodeIds = []\<rparr>"

lemma gm_ok_append: "gm_ok (m @ l) \<longleftrightarrow> gm_ok m \<and> gm_ok l \<and> gm_dom m \<inter> gm_dom l = {}"
  by (auto simp: gm_ok_def gm_dom_def)

lemma gm_ok_sort: "gm_ok (sort_key fst m) = gm_ok m"
proof -
  have "mset (map fst (sort_key fst m)) = mset (map fst m)" by simp
  then show ?thesis unfolding gm_ok_def by (rule mset_eq_imp_distinct_iff)
qed

lemma gm_dom_sort [simp]: "gm_dom (sort_key fst m) = gm_dom m"
  by (simp add: gm_dom_def)

lemma map_of_sort: "gm_ok m \<Longrightarrow> map_of (sort_key fst m) = map_of m"
  using map_of_inject_set [of "sort_key fst m" m] gm_ok_sort [of m] by (simp add: gm_ok_def)

lemma decode_counts_print:
  "gm_ok (m @ l) \<Longrightarrow>
   decode_counts (map (\<lambda>(n, c). (n, JNum (digits (uint c)))) l) m = Some (m @ l)"
proof (induction l arbitrary: m)
  case (Cons x l)
  obtain n c where x: "x = (n, c)" by force
  have "gm_set n c m = m @ [(n, c)]" using Cons.prems by (intro gm_set_fresh) (auto simp: x gm_ok_append)
  then show ?case using Cons.IH [of "m @ [(n, c)]"] Cons.prems by (simp add: x ParseUint_digits)
qed simp

lemma decode_gcounter_print:
  "gm_ok (Counts g) \<Longrightarrow> marshal_counter g = JObj fs \<Longrightarrow>
   decode_gcounter fs None = Some (Some (Counts (sorted_counter g)))"
  using decode_counts_print [of "[]" "sort_key fst (Counts g)"]
  by (auto simp: marshal_counter_def field_matches_def gm_ok_sort sorted_counter_def)

lemma decode_counters_print:
  "gm_ok (m @ map (\<lambda>(k, g). (k, Some (sorted_counter g))) l) \<Longrightarrow> \<forall>(k, g) \<in> set l. gm_ok (Counts g) \<Longrightarrow>
   decode_counters (map (\<lambda>(k, g). (k, marshal_counter g)) l) m =
     Some (m @ map (\<lambda>(k, g). (k, Some (sorted_counter g))) l)"
proof (induction l arbitrary: m)
  case (Cons x l)
  obtain k g where x: "x = (k, g)" by force
  obtain fs where fs: "marshal_counter g = JObj fs" by (simp add: marshal_counter_def)
  have d: "decode_gcounter fs None = Some (Some (Counts (sorted_counter g)))"
    using decode_gcounter_print [OF _ fs] Cons.prems(2) by (simp add: x)
  have "gm_set k (Some (sorted_counter g)) m = m @ [(k, Some (sorted_counter g))]"
    using Cons.prems(1) by (intro gm_set_fresh) (auto simp: x gm_ok_append)
  then show ?case
    using Cons.IH [of "m @ [(k, Some (sorted_counter g))]"] Cons.prems d by (simp add: x fs sorted_counter_def)
qed simp

lemma gm_ok_map_values: "gm_ok (map (\<lambda>(k, v). (k, f v)) m) = gm_ok m"
  by (simp add: gm_ok_def comp_def case_prod_beta)

lemma marshal_state_ok:
  assumes "strings_ok cm"
  shows "json_ok (marshal_state cm)" "depth (marshal_state cm) \<le> max_depth"
proof -
  have name: "valid_utf8 ''Counts''" "valid_utf8 ''Counters''" by code_simp+
  have num: "uint_literal (digits (uint c))" for c :: uint64 by (rule digits_literal) simp
  have c: "json_ok (marshal_counter g)" if "(k, g) \<in> set (Counters cm)" for k g
    using assms that name num by (fastforce simp: marshal_counter_def strings_ok_def list_all_iff)
  then show "json_ok (marshal_state cm)"
    using assms name by (fastforce simp: marshal_state_def strings_ok_def list_all_iff)
  have flat: "foldr (\<lambda>(k, v) n. max (depth v) n) (map (\<lambda>(n, c). (n, JNum (digits (uint c)))) l) 0 = 0"
    for l :: "(NodeId, uint64) gomap" by (induction l) auto
  have two: "depth (marshal_counter g) = 2" for g by (simp add: marshal_counter_def flat)
  have "foldr (\<lambda>(k, v) n. max (depth v) n) (map (\<lambda>(k, g). (k, marshal_counter g)) l) 0 \<le> 2" for l :: "(string, GCounter) gomap"
    by (induction l) (auto simp: two)
  from this [of "sort_key fst (Counters cm)"] show "depth (marshal_state cm) \<le> max_depth"
    by (simp add: marshal_state_def max_depth_def del: foldr_map)
qed

lemma Unmarshal_Marshal:
  assumes "CounterMap_wf cm" "strings_ok cm"
  shows "json_Unmarshal (json_Marshal cm) = Loaded (reloaded cm)"
proof -
  let ?l = "sort_key fst (Counters cm)"
  let ?r = "map (\<lambda>(k, g). (k, Some (sorted_counter g))) ?l"
  have wf: "gm_ok ?r" "\<forall>(k, g) \<in> set ?l. gm_ok (Counts g)"
    using assms(1) by (auto simp: gm_ok_map_values gm_ok_sort CounterMap_wf_def)
  have "decode_state [(''Counters'', JObj (map (\<lambda>(k, g). (k, marshal_counter g)) ?l))] None = Some (Some ?r)"
    using decode_counters_print [of "[]" ?l] wf by (simp add: field_matches_def)
  moreover have "decoded_state (Some ?r) = Loaded (reloaded cm)"
    by (auto simp: decoded_state_def reloaded_def)
  ultimately show ?thesis
    using json_unmarshal_print [OF marshal_state_ok [OF assms(2)]]
    by (simp add: json_Unmarshal_def json_Marshal_def marshal_state_def)
qed

lemma Marshal_nonempty: "json_Marshal cm \<noteq> []"
  by (simp add: json_Marshal_def marshal_state_def)

lemma map_of_map_values: "map_of (map (\<lambda>(k, v). (k, f v)) m) k = map_option f (map_of m k)"
  by (induction m) auto

lemma reloaded_lookup:
  "CounterMap_wf cm \<Longrightarrow> map_of (Counters (reloaded cm)) k = map_option sorted_counter (map_of (Counters cm) k)"
  by (simp add: reloaded_def map_of_map_values map_of_sort CounterMap_wfD)

lemma sorted_counter_facts:
  assumes "gm_ok (Counts g)"
  shows "GCounter_rep (sorted_counter g) = GCounter_rep g" "gm_ok (Counts (sorted_counter g))"
    "gm_dom (Counts (sorted_counter g)) = gm_dom (Counts g)"
  using assms by (simp_all add: sorted_counter_def GCounter_rep_def gm_get_def map_of_sort gm_ok_sort)

lemma reloaded_facts:
  assumes "CounterMap_wf cm"
  shows "CounterMap_rep (reloaded cm) = CounterMap_rep cm" "CounterMap_wf (reloaded cm)" "nodeIds (reloaded cm) = []"
proof -
  show "CounterMap_rep (reloaded cm) = CounterMap_rep cm"
  proof (rule ext)
    fix k
    show "CounterMap_rep (reloaded cm) k = CounterMap_rep cm k"
      by (cases "map_of (Counters cm) k")
        (simp_all add: CounterMap_rep_def reloaded_lookup assms sorted_counter_facts CounterMap_wfD(2) [OF assms])
  qed
  show "CounterMap_wf (reloaded cm)"
    using assms sorted_counter_facts(2) CounterMap_wfD(2) [OF assms]
    unfolding CounterMap_wf_iff [of "reloaded cm"] reloaded_lookup [OF assms]
    by (auto simp: reloaded_def gm_ok_map_values gm_ok_sort CounterMap_wfD)
qed (simp add: reloaded_def)

section \<open>Crash safety\<close>

text \<open>
  The snapshot's inode, in the directory or in any version a crash may bring back, is synced and is
  not the inode the temporary file is written to.
\<close>

definition fs_ok :: "string \<Rightarrow> fs \<Rightarrow> bool" where
  "fs_ok p s \<longleftrightarrow>
     (\<forall>D \<in> set (versions s). \<forall>i. D p = Some i \<longrightarrow>
        stable s i \<and> D (p @ ''.tmp'') \<noteq> Some i \<and> dir s (p @ ''.tmp'') \<noteq> Some i) \<and>
     (\<forall>D \<in> set (versions s). \<forall>q i. D q = Some i \<longrightarrow> i < nextInode s)"

definition after_crash :: "string \<Rightarrow> fs \<Rightarrow> string option set" where
  "after_crash p s = (\<lambda>D. map_option (content s) (D p)) ` set (versions s)"

lemma versions_simps [simp]:
  "versions (s\<lparr>content := c\<rparr>) = versions s" "versions (s\<lparr>stable := f\<rparr>) = versions s"
  "versions (s\<lparr>nextInode := n\<rparr>) = versions s" "versions (set_dir D s) = D # versions s"
  "versions (sync_dir s) = [dir s]" "dir s \<in> set (versions s)"
  by (simp_all add: versions_def set_dir_def sync_dir_def)

lemma set_dir_simps [simp]:
  "dir (set_dir D s) = D" "content (set_dir D s) = content s" "stable (set_dir D s) = stable s"
  "nextInode (set_dir D s) = nextInode s"
  by (simp_all add: set_dir_def)

lemma tmp_differs [simp]: "p @ ''.tmp'' \<noteq> p" "p \<noteq> p @ ''.tmp''"
  by simp_all

lemma fs_okD:
  assumes "fs_ok p s" "D \<in> set (versions s)"
  shows "D p = Some i \<Longrightarrow> stable s i" "D p = Some i \<Longrightarrow> D (p @ ''.tmp'') \<noteq> Some i"
    "D p = Some i \<Longrightarrow> dir s (p @ ''.tmp'') \<noteq> Some i" "D q = Some i \<Longrightarrow> i < nextInode s"
  using assms by (auto simp: fs_ok_def)

lemma after_crash_cong:
  assumes "versions s' = versions s" "\<And>D i. D \<in> set (versions s) \<Longrightarrow> D p = Some i \<Longrightarrow> content s' i = content s i"
  shows "after_crash p s' = after_crash p s"
  unfolding after_crash_def assms(1) by (rule image_cong) (auto intro!: option.map_cong0 assms(2))

text \<open>A step of \<open>Save\<close> up to the rename keeps the snapshot; the rename brings the new one.\<close>

definition keeps :: "string \<Rightarrow> fs \<Rightarrow> fs \<Rightarrow> bool" where
  "keeps p s s' \<longleftrightarrow> (fs_ok p s \<longrightarrow> fs_ok p s' \<and> after_crash p s' = after_crash p s \<and> visible p s' = visible p s)"

lemma keeps_refl [simp]: "keeps p s s"
  by (simp add: keeps_def)

lemma tmp_content_keeps:
  assumes "dir s (p @ ''.tmp'') = Some i"
  shows "keeps p s (s\<lparr>content := (content s)(i := x), stable := (stable s)(i := b)\<rparr>)"
proof -
  let ?s = "s\<lparr>content := (content s)(i := x), stable := (stable s)(i := b)\<rparr>"
  have other: "j \<noteq> i" if "fs_ok p s" "D \<in> set (versions s)" "D p = Some j" for D j
    using fs_okD(3) [OF that(1,2,3)] assms by auto
  have ok: "fs_ok p ?s" if ok: "fs_ok p s"
    using fs_okD [OF ok] other [OF ok] by (simp add: fs_ok_def)
  moreover have "after_crash p ?s = after_crash p s" if ok: "fs_ok p s"
    using other [OF ok] by (intro after_crash_cong) auto
  moreover have "visible p ?s = visible p s" if ok: "fs_ok p s"
    using other [OF ok, of "dir s"] by (cases "dir s p") (auto simp: visible_def)
  ultimately show ?thesis by (simp add: keeps_def)
qed

lemma open_trunc_keeps: "keeps p s (open_trunc (p @ ''.tmp'') s)"
proof (cases "dir s (p @ ''.tmp'')")
  case None
  let ?i = "nextInode s" and ?t = "p @ ''.tmp''"
  let ?s = "s\<lparr>content := (content s)(?i := []), stable := (stable s)(?i := False), nextInode := ?i + 1\<rparr>"
  have o: "open_trunc ?t s = set_dir ((dir s)(?t \<mapsto> ?i)) ?s" by (simp add: open_trunc_def None Let_def)
  have new: "D q \<noteq> Some ?i" if "fs_ok p s" "D \<in> set (versions s)" for D q
    using fs_okD(4) [OF that] by auto
  have "fs_ok p (open_trunc ?t s)" if ok: "fs_ok p s"
  proof -
    have "D p = Some j \<Longrightarrow> j \<noteq> ?i" if "D \<in> set (versions s)" for D j using new [OF ok that] by auto
    moreover have "dir s p = Some j \<Longrightarrow> stable s j \<and> j \<noteq> ?i" for j
      using fs_okD(1) [OF ok, of "dir s"] new [OF ok, of "dir s" p] by auto
    ultimately show ?thesis
      using fs_okD [OF ok] fs_okD(4) [OF ok, of "dir s"] unfolding o fs_ok_def
      by (auto simp: less_Suc_eq)
  qed
  moreover have "after_crash p (open_trunc ?t s) = after_crash p s" if ok: "fs_ok p s"
  proof -
    have c: "map_option ((content s)(?i := [])) (D p) = map_option (content s) (D p)" if "D \<in> set (versions s)" for D
      using new [OF ok that, of p] by (cases "D p") auto
    then show ?thesis unfolding after_crash_def o by (auto simp: image_iff)
  qed
  moreover have "visible p (open_trunc ?t s) = visible p s" if ok: "fs_ok p s"
    using new [OF ok, of "dir s" p] by (cases "dir s p") (auto simp: o visible_def)
  ultimately show ?thesis by (simp add: keeps_def)
qed (use tmp_content_keeps in \<open>simp add: open_trunc_def\<close>)

lemma write_file_keeps: "keeps p s (write_file (p @ ''.tmp'') x s)"
  by (cases "dir s (p @ ''.tmp'')") (simp_all add: write_file_def tmp_content_keeps)

lemma sync_file_keeps: "keeps p s (sync_file (p @ ''.tmp'') s)"
proof (cases "dir s (p @ ''.tmp'')")
  case (Some i)
  then show ?thesis
    using tmp_content_keeps [OF Some, where x = "content s i" and b = True] by (simp add: sync_file_def)
qed (simp add: sync_file_def)

lemma rename_new:
  assumes ok: "fs_ok p s" and t: "dir s (p @ ''.tmp'') = Some i" "stable s i" "content s i = x"
  defines "s' \<equiv> rename_file (p @ ''.tmp'') p s"
  shows "fs_ok p s'" "after_crash p s' = insert (Some x) (after_crash p s)" "visible p s' = Some x"
proof -
  let ?D = "(dir s)(p @ ''.tmp'' := None, p \<mapsto> i)"
  have s': "s' = set_dir ?D s" by (simp add: s'_def rename_file_def t(1))
  have "i < nextInode s" using fs_okD(4) [OF ok, of "dir s"] t(1) by simp
  then show "fs_ok p s'"
    using fs_okD [OF ok] fs_okD(4) [OF ok, of "dir s"] t(2) unfolding s' fs_ok_def by auto
  show "after_crash p s' = insert (Some x) (after_crash p s)" "visible p s' = Some x"
    by (simp_all add: s' after_crash_def visible_def t(3))
qed

lemma sync_dir_facts:
  "fs_ok p s \<Longrightarrow> fs_ok p (sync_dir s)" "after_crash p (sync_dir s) = {visible p s}" "visible p (sync_dir s) = visible p s"
  by (simp_all add: fs_ok_def sync_dir_def after_crash_def versions_def visible_def)

lemma visible_after_crash: "visible p s \<in> after_crash p s"
  by (auto simp: visible_def after_crash_def)

lemma reboot_facts:
  assumes "fs_ok p s"
  shows "fs_ok p (reboot k g s)" "visible p (reboot k g s) \<in> after_crash p s"
    "after_crash p (reboot k g s) = {visible p (reboot k g s)}"
proof -
  let ?D = "versions s ! (k mod length (versions s))"
  have D: "?D \<in> set (versions s)" by (rule nth_mem) (simp add: versions_def)
  then show "fs_ok p (reboot k g s)"
    using fs_okD [OF assms D] by (simp add: fs_ok_def reboot_def versions_def)
  have "visible p (reboot k g s) = map_option (content s) (?D p)"
    using fs_okD(1) [OF assms D] by (cases "?D p") (simp_all add: visible_def reboot_def)
  then show "visible p (reboot k g s) \<in> after_crash p s" using D by (simp add: after_crash_def)
  show "after_crash p (reboot k g s) = {visible p (reboot k g s)}"
    by (simp add: after_crash_def visible_def versions_def reboot_def)
qed

text \<open>What \<open>Save\<close> guarantees from a state \<open>s0\<close> on, whatever happens in it.\<close>

definition save_post :: "(syscall \<Rightarrow> outcome) \<Rightarrow> string \<Rightarrow> string \<Rightarrow> fs \<Rightarrow> save_result \<times> fs \<Rightarrow> bool" where
  "save_post oc p data s0 res \<longleftrightarrow>
     (case res of (r, s') \<Rightarrow>
        fs_ok p s' \<and> after_crash p s' \<subseteq> insert (Some data) (after_crash p s0) \<and>
        visible p s' \<in> {visible p s0, Some data} \<and>
        (r = SaveReturned None \<longrightarrow> visible p s' = Some data \<and>
           (oc SOpenDir = Ok \<and> oc SSyncDir = Ok \<longrightarrow> after_crash p s' = {Some data})))"

definition unchanged :: "string \<Rightarrow> fs \<Rightarrow> fs \<Rightarrow> bool" where
  "unchanged p s0 s \<longleftrightarrow> fs_ok p s \<and> after_crash p s = after_crash p s0 \<and> visible p s = visible p s0"

lemma unchanged_keeps: "unchanged p s0 s \<Longrightarrow> keeps p s s' \<Longrightarrow> unchanged p s0 s'"
  by (simp add: unchanged_def keeps_def)

lemma sys_post:
  assumes "unchanged p s0 s" "\<And>n. keeps p s (partial n s)" "keeps p s (effect s)"
    and "unchanged p s0 (effect s) \<Longrightarrow> save_post oc p data s0 (continue (effect s))"
  shows "save_post oc p data s0 (sys r effect partial continue s)"
  using assms unchanged_keeps [OF assms(1,3)] unchanged_keeps [OF assms(1,2)]
  by (auto simp: sys_def save_post_def unchanged_def split: outcome.splits)

lemma maybe_keeps: "keeps p s (effect s) \<Longrightarrow> keeps p s (maybe effect n s)"
  by (simp add: maybe_def)

lemma tmp_ready:
  fixes t data s
  defines "s' \<equiv> sync_file t (write_file t data (open_trunc t s))"
  shows "\<exists>i. dir s' t = Some i \<and> stable s' i \<and> content s' i = data"
  by (cases "dir s t") (simp_all add: s'_def open_trunc_def write_file_def sync_file_def Let_def)

lemma rename_post:
  assumes u: "unchanged p s0 s" and t: "\<exists>i. dir s (p @ ''.tmp'') = Some i \<and> stable s i \<and> content s i = data"
  shows "save_post oc p data s0
    (sys r (rename_file (p @ ''.tmp'') p) (maybe (rename_file (p @ ''.tmp'') p))
       (\<lambda>s. case oc SOpenDir of
              Fail err n \<Rightarrow> (SaveReturned None, s)
            | Crash n \<Rightarrow> (SaveDied, s)
            | Ok \<Rightarrow> (case oc SSyncDir of
                      Ok \<Rightarrow> (SaveReturned None, sync_dir s)
                    | Fail err n \<Rightarrow> (SaveReturned None, s)
                    | Crash n \<Rightarrow> (SaveDied, maybe sync_dir n s))) s)"
proof -
  let ?s = "rename_file (p @ ''.tmp'') p s"
  obtain i where i: "dir s (p @ ''.tmp'') = Some i" "stable s i" "content s i = data" using t by blast
  have n: "fs_ok p ?s" "after_crash p ?s = insert (Some data) (after_crash p s0)" "visible p ?s = Some data"
    using rename_new [OF _ i] u by (simp_all add: unchanged_def)
  have renamed: "save_post oc p data s0 (SaveDied, ?s)" "save_post oc p data s0 (SaveReturned (Some e), ?s)"
      "save_post oc p data s0 (SaveDied, maybe sync_dir k ?s)"
      "oc SOpenDir \<noteq> Ok \<or> oc SSyncDir \<noteq> Ok \<Longrightarrow> save_post oc p data s0 (SaveReturned None, ?s)"
      "save_post oc p data s0 (SaveReturned None, sync_dir ?s)" for e k
    using n by (auto simp: save_post_def maybe_def sync_dir_facts)
  have old: "save_post oc p data s0 (SaveDied, s)" "save_post oc p data s0 (SaveReturned (Some e), s)" for e
    using u by (auto simp: save_post_def unchanged_def)
  show ?thesis
    using renamed old by (auto simp: sys_def maybe_def [of "rename_file _ _"] split: outcome.splits)
qed

lemma Save_post:
  assumes "fs_ok p s"
  shows "save_post oc p (json_Marshal cm) s (FileStorage_Save oc p cm s)"
proof -
  have u: "unchanged p s s" using assms by (simp add: unchanged_def)
  note keeps = open_trunc_keeps write_file_keeps sync_file_keeps maybe_keeps
  show ?thesis
    unfolding FileStorage_Save_def Let_def
    by (intro sys_post [OF u] sys_post rename_post keeps keeps_refl)
      (simp_all add: tmp_ready)
qed

section \<open>The storage contract\<close>

definition state_ok :: "CounterMap \<Rightarrow> bool" where
  "state_ok cm \<longleftrightarrow> CounterMap_wf cm \<and> strings_ok cm"

text \<open>
  The interface \<open>Storage\<close>: \<open>stored\<close> is the state that \<open>Load\<close> returns, if any, and \<open>possible\<close>
  are those it may return after a crash. A call of \<open>Save\<close> with everything that may happen during
  it (\<open>'o\<close>: failing calls, a crash and a restart) adds at most the saved state to them.
\<close>

locale storage =
  fixes inv :: "'s \<Rightarrow> bool" and save :: "'o \<Rightarrow> CounterMap \<Rightarrow> 's \<Rightarrow> 's" and load :: "NodeId list \<Rightarrow> 's \<Rightarrow> load_result"
    and stored :: "'s \<Rightarrow> CounterMap option" and possible :: "'s \<Rightarrow> CounterMap option set"
  assumes save_inv: "inv s \<Longrightarrow> state_ok cm \<Longrightarrow> inv (save x cm s)"
    and save_possible: "inv s \<Longrightarrow> state_ok cm \<Longrightarrow> possible (save x cm s) \<subseteq> insert (Some (reloaded cm)) (possible s)"
    and stored_possible: "inv s \<Longrightarrow> stored s \<in> possible s"
    and load_stored: "inv s \<Longrightarrow>
      load ids s = Loaded (case stored s of None \<Rightarrow> NewCounterMap ids | Some cm \<Rightarrow> cm)"
begin

abbreviation saves :: "('o \<times> CounterMap) list \<Rightarrow> 's \<Rightarrow> 's" where
  "saves xs s \<equiv> fold (\<lambda>(x, cm). save x cm) xs s"

lemma saves_possible:
  "inv s \<Longrightarrow> \<forall>(x, cm) \<in> set xs. state_ok cm \<Longrightarrow>
   inv (saves xs s) \<and> possible (saves xs s) \<subseteq> possible s \<union> {Some (reloaded cm) | x cm. (x, cm) \<in> set xs}"
proof (induction xs arbitrary: s)
  case (Cons y xs)
  obtain x cm where y: "y = (x, cm)" by force
  have "inv (save x cm s)" "possible (save x cm s) \<subseteq> insert (Some (reloaded cm)) (possible s)"
    using Cons.prems save_inv save_possible by (auto simp: y)
  moreover have "inv (saves xs (save x cm s)) \<and>
      possible (saves xs (save x cm s)) \<subseteq> possible (save x cm s) \<union> {Some (reloaded cm) | x cm. (x, cm) \<in> set xs}"
    using Cons.IH [OF calculation(1)] Cons.prems(2) by simp
  ultimately have "inv (saves (y # xs) s)"
      "possible (saves (y # xs) s) \<subseteq> insert (Some (reloaded cm)) (possible s) \<union> {Some (reloaded cm) | x cm. (x, cm) \<in> set xs}"
    unfolding y by auto
  then show ?case unfolding y by (auto dest!: subsetD)
qed simp

lemma load_after_saves:
  assumes "inv s" "\<forall>(x, cm) \<in> set xs. state_ok cm"
  shows "load ids (saves xs s) = Loaded (NewCounterMap ids) \<or>
    (\<exists>cm. Some cm \<in> possible s \<and> load ids (saves xs s) = Loaded cm) \<or>
    (\<exists>x cm. (x, cm) \<in> set xs \<and> load ids (saves xs s) = Loaded (reloaded cm))"
proof -
  note f = saves_possible [OF assms]
  have st: "stored (saves xs s) \<in> possible s \<union> {Some (reloaded cm) | x cm. (x, cm) \<in> set xs}"
    using f stored_possible [of "saves xs s"] by blast
  show ?thesis
  proof (cases "stored (saves xs s)")
    case None
    then show ?thesis using load_stored f by simp
  next
    case (Some cm)
    then have "load ids (saves xs s) = Loaded cm" using load_stored f by simp
    then show ?thesis using st Some by auto
  qed
qed

end

text \<open>A storage whose undisturbed \<open>Save\<close> is durable.\<close>

locale durable_storage = storage +
  fixes undisturbed :: "'b \<Rightarrow> bool"
  assumes save_durable: "inv s \<Longrightarrow> state_ok cm \<Longrightarrow> undisturbed x \<Longrightarrow> possible (save x cm s) = {Some (reloaded cm)}"
begin

lemma load_after_durable:
  assumes "inv s" "state_ok cm" "undisturbed x" "\<forall>(x, cm) \<in> set xs. state_ok cm"
  shows "\<exists>c \<in> insert cm (snd ` set xs). load ids (saves xs (save x cm s)) = Loaded (reloaded c)"
proof -
  have s: "inv (save x cm s)" "possible (save x cm s) = {Some (reloaded cm)}"
    using assms save_inv save_durable by auto
  show ?thesis
  proof -
    note f = saves_possible [OF s(1) assms(4), unfolded s(2)]
    have "stored (saves xs (save x cm s)) \<in> {Some (reloaded cm)} \<union> {Some (reloaded cm) | x cm. (x, cm) \<in> set xs}"
      using f stored_possible [of "saves xs (save x cm s)"] by blast
    then obtain c where c: "stored (saves xs (save x cm s)) = Some (reloaded c)" "c = cm \<or> (\<exists>y. (y, c) \<in> set xs)"
      by blast
    then have "c \<in> insert cm (snd ` set xs)" by force
    with c(1) show ?thesis using load_stored [of "saves xs (save x cm s)" ids] f by auto
  qed
qed

end

text \<open>\<open>NoopStorage\<close> and \<open>FileStorage\<close> keep the contract.\<close>

interpretation noop: storage "\<lambda>_. True" "\<lambda>x cm s. case NoopStorage_Save cm of _ \<Rightarrow> s" "\<lambda>ids _. NoopStorage_Load ids"
  "\<lambda>_. None" "\<lambda>_. {None}"
  by unfold_locales (simp_all add: NoopStorage_Load_def)

definition file_state :: "string option \<Rightarrow> CounterMap option" where
  "file_state x =
     (case x of None \<Rightarrow> None | Some data \<Rightarrow> (case json_Unmarshal data of Loaded cm \<Rightarrow> Some cm | _ \<Rightarrow> None))"

definition file_ok :: "string \<Rightarrow> fs \<Rightarrow> bool" where
  "file_ok p s \<longleftrightarrow> fs_ok p s \<and> (\<forall>x \<in> after_crash p s. x = None \<or> (\<exists>cm. state_ok cm \<and> x = Some (json_Marshal cm)))"

text \<open>One \<open>Save\<close>, and a restart of the machine after a crash in it.\<close>

definition file_save :: "string \<Rightarrow> (syscall \<Rightarrow> outcome) \<times> nat \<times> (inode \<Rightarrow> string) \<Rightarrow> CounterMap \<Rightarrow> fs \<Rightarrow> fs" where
  "file_save p x cm s =
     (case x of (oc, k, garbage) \<Rightarrow>
        (case FileStorage_Save oc p cm s of
           (SaveReturned err, s') \<Rightarrow> s'
         | (SaveDied, s') \<Rightarrow> reboot k garbage s'))"

lemma file_state_Marshal: "state_ok cm \<Longrightarrow> file_state (Some (json_Marshal cm)) = Some (reloaded cm)"
  by (simp add: file_state_def Unmarshal_Marshal state_ok_def)

lemma Load_ok:
  assumes "file_ok p s"
  shows "FileStorage_Load None p ids s =
    Loaded (case file_state (visible p s) of None \<Rightarrow> NewCounterMap ids | Some cm \<Rightarrow> cm)"
proof -
  consider "visible p s = None" | cm where "state_ok cm" "visible p s = Some (json_Marshal cm)"
    using assms visible_after_crash [of p s] by (auto simp: file_ok_def)
  then show ?thesis
    by cases (simp_all add: FileStorage_Load_def file_state_def Marshal_nonempty Unmarshal_Marshal state_ok_def)
qed

lemma file_save_facts:
  assumes "file_ok p s" "state_ok cm"
  shows "file_ok p (file_save p x cm s)"
    "after_crash p (file_save p x cm s) \<subseteq> insert (Some (json_Marshal cm)) (after_crash p s)"
    "fst x = (\<lambda>_. Ok) \<Longrightarrow> after_crash p (file_save p x cm s) = {Some (json_Marshal cm)}"
proof -
  obtain oc k g where x: "x = (oc, k, g)" by (metis prod_cases3)
  obtain r s' where s: "FileStorage_Save oc p cm s = (r, s')" by force
  have post: "fs_ok p s'" "after_crash p s' \<subseteq> insert (Some (json_Marshal cm)) (after_crash p s)"
      "r = SaveReturned None \<Longrightarrow> oc = (\<lambda>_. Ok) \<Longrightarrow> after_crash p s' = {Some (json_Marshal cm)}"
    using Save_post [of p s oc cm, unfolded s] assms(1) by (auto simp: save_post_def file_ok_def)
  have f: "file_save p x cm s = (case r of SaveReturned e \<Rightarrow> s' | SaveDied \<Rightarrow> reboot k g s')"
    by (simp add: file_save_def x s split: save_result.splits)
  show sub: "after_crash p (file_save p x cm s) \<subseteq> insert (Some (json_Marshal cm)) (after_crash p s)"
    using post(2) reboot_facts [OF post(1), of k g] by (auto simp: f split: save_result.splits)
  have "fs_ok p (file_save p x cm s)"
    using post(1) reboot_facts(1) [OF post(1)] by (simp add: f split: save_result.splits)
  then show "file_ok p (file_save p x cm s)"
    using sub assms by (auto simp: file_ok_def)
  assume "fst x = (\<lambda>_. Ok)"
  then have "oc = (\<lambda>_. Ok)" "r = SaveReturned None" using s x by (auto simp: FileStorage_Save_def sys_def Let_def)
  then show "after_crash p (file_save p x cm s) = {Some (json_Marshal cm)}" using post(3) by (simp add: f)
qed

interpretation files: durable_storage "file_ok p" "file_save p" "FileStorage_Load None p"
  "\<lambda>s. file_state (visible p s)" "\<lambda>s. file_state ` after_crash p s" "\<lambda>x. fst x = (\<lambda>_. Ok)" for p
proof
  fix s cm and x :: "(syscall \<Rightarrow> outcome) \<times> nat \<times> (inode \<Rightarrow> string)" and ids
  assume inv: "file_ok p s"
  show "file_state (visible p s) \<in> file_state ` after_crash p s" by (rule imageI) (rule visible_after_crash)
  show "FileStorage_Load None p ids s =
      Loaded (case file_state (visible p s) of None \<Rightarrow> NewCounterMap ids | Some cm \<Rightarrow> cm)" by (rule Load_ok [OF inv])
  assume ok: "state_ok cm"
  note f = file_save_facts [OF inv ok, of x]
  show "file_ok p (file_save p x cm s)" by (rule f(1))
  show "file_state ` after_crash p (file_save p x cm s) \<subseteq> insert (Some (reloaded cm)) (file_state ` after_crash p s)"
    using f(2) file_state_Marshal [OF ok] by auto
  assume "fst x = (\<lambda>_. Ok)"
  then show "file_state ` after_crash p (file_save p x cm s) = {Some (reloaded cm)}"
    using f(3) file_state_Marshal [OF ok] by simp
qed

lemma reloaded_equals:
  assumes "CounterMap_wf cm"
  shows "CounterMap_Equals cm (reloaded cm)" "CounterMap_Equals (reloaded cm) cm"
proof -
  have eq: "GCounter_Equals g (sorted_counter g)" "GCounter_Equals (sorted_counter g) g"
    if "gm_ok (Counts g)" for g
    using that by (simp_all add: GCounter_Equals_def sorted_counter_def equals_loop_iff gm_ok_sort gm_get_def map_of_sort)
  have len: "length (Counters (reloaded cm)) = length (Counters cm)" by (simp add: reloaded_def)
  have ok: "gm_ok (Counters (reloaded cm))" "gm_ok (Counters cm)"
    using reloaded_facts(2) [OF assms] assms by (simp_all add: CounterMap_wfD)
  show "CounterMap_Equals cm (reloaded cm)" "CounterMap_Equals (reloaded cm) cm"
    using eq CounterMap_wfD(2) [OF assms]
    by (auto simp: CounterMap_Equals_def len equals_counters_iff ok reloaded_lookup assms)
qed

definition empty_fs :: fs where
  "empty_fs = \<lparr>dir = (\<lambda>_. None), olderDirs = [], content = (\<lambda>_. []), stable = (\<lambda>_. True), nextInode = 0\<rparr>"

lemma empty_fs_ok: "fs_ok p empty_fs"
  by (simp add: fs_ok_def empty_fs_def versions_def)

section \<open>Properties\<close>

text \<open>
  C18: saving and loading. When every system call succeeds, the state that \<open>Load\<close> reads after
  \<open>Save\<close> has the same counters: the same keys, nodes and counts, so \<open>Equals\<close> holds both ways and
  every key has the same value. Only the list of node ids is lost: a counter created after the
  load has only the incrementing node.
\<close>

theorem reload_keeps_counts:
  assumes "fs_ok p s" "CounterMap_wf cm" "strings_ok cm"
    and "FileStorage_Save (\<lambda>_. Ok) p cm s = (r, s')"
  shows "\<exists>cm'. r = SaveReturned None \<and> FileStorage_Load None p ids s' = Loaded cm' \<and> CounterMap_wf cm' \<and>
    CounterMap_rep cm' = CounterMap_rep cm \<and> CounterMap_Equals cm cm' \<and> CounterMap_Equals cm' cm \<and>
    (\<forall>key. CounterMap_ValueForKey cm' key = CounterMap_ValueForKey cm key) \<and>
    (\<forall>key g n v. map_of (Counters cm) key = None \<longrightarrow>
       map_of (Counters (CounterMap_IncrementKey cm' key n v)) key = Some g \<longrightarrow> gm_dom (Counts g) = {n})"
proof -
  have sv: "r = SaveReturned None" using assms(4) by (auto simp: FileStorage_Save_def sys_def Let_def)
  have "visible p s' = Some (json_Marshal cm)"
    using Save_post [OF assms(1), of "\<lambda>_. Ok" cm] sv by (simp add: assms(4) save_post_def)
  then have load: "FileStorage_Load None p ids s' = Loaded (reloaded cm)"
    by (simp add: FileStorage_Load_def Marshal_nonempty Unmarshal_Marshal assms(2,3))
  note f = reloaded_facts [OF assms(2)]
  have fresh: "gm_dom (Counts g) = {n}"
    if "map_of (Counters cm) key = None" "map_of (Counters (CounterMap_IncrementKey (reloaded cm) key n v)) key = Some g"
    for key g n v
    using that by (auto simp: CounterMap_IncrementKey_lookup reloaded_lookup assms(2) f(3) GCounter_Increment_def
        NewGCounter_def gm_simps)
  show ?thesis
    using sv load f reloaded_equals [OF assms(2)] fresh CounterMap_ValueForKey_rep [OF f(2) assms(2) f(1)]
    by (intro exI [of _ "reloaded cm"]) blast
qed

theorem reload_keeps_counts_witness:
  "\<exists>s' cm'. FileStorage_Save (\<lambda>_. Ok) ''f'' (CounterMap_IncrementKey (NewCounterMap [''N1'']) ''k'' ''N1'' 7) empty_fs =
       (SaveReturned None, s') \<and>
     FileStorage_Load None ''f'' [''N1''] s' = Loaded cm' \<and> CounterMap_ValueForKey cm' ''k'' = 7"
proof -
  let ?cm = "CounterMap_IncrementKey (NewCounterMap [''N1'']) ''k'' ''N1'' 7"
  obtain r s' where s': "FileStorage_Save (\<lambda>_. Ok) ''f'' ?cm empty_fs = (r, s')" by force
  have "strings_ok ?cm" by code_simp
  moreover have "CounterMap_wf ?cm" by code_simp
  moreover have "CounterMap_ValueForKey ?cm ''k'' = 7" by code_simp
  ultimately show ?thesis
    using reload_keeps_counts [OF empty_fs_ok _ _ s', of "[''N1'']"] s' by auto
qed



text \<open>
  C19: a snapshot that was saved is not lost. After a \<open>Save\<close> in which every call succeeded, let any
  number of further calls of \<open>Save\<close> follow, each with failing system calls or a crash and a restart
  in it: a node that starts then loads that state or one of the states saved later.
\<close>

theorem snapshot_is_not_lost:
  assumes "file_ok p s" "state_ok cm" "\<forall>x \<in> set xs. state_ok (snd x)"
  shows "\<exists>c \<in> insert cm (snd ` set xs).
    FileStorage_Load None p ids
      (fold (\<lambda>(x, cm). file_save p x cm) xs (file_save p (\<lambda>_. Ok, k, garbage) cm s)) = Loaded (reloaded c)"
  using files.load_after_durable [OF assms(1,2), of "(\<lambda>_. Ok, k, garbage)" xs ids] assms(3)
  by (simp add: case_prod_beta)

theorem snapshot_is_not_lost_witness:
  "let cm = CounterMap_IncrementKey (NewCounterMap [''N1'']) ''k'' ''N1'' 7;
       cm2 = CounterMap_IncrementKey cm ''k'' ''N1'' 1;
       s = file_save ''f'' (\<lambda>_. Crash 1, 0, \<lambda>_. []) cm2 (file_save ''f'' (\<lambda>_. Ok, 0, \<lambda>_. []) cm empty_fs)
   in FileStorage_Load None ''f'' [''N1''] s = Loaded (reloaded cm) \<or>
      FileStorage_Load None ''f'' [''N1''] s = Loaded (reloaded cm2)"
proof -
  let ?cm = "CounterMap_IncrementKey (NewCounterMap [''N1'']) ''k'' ''N1'' 7"
  let ?cm2 = "CounterMap_IncrementKey ?cm ''k'' ''N1'' 1"
  have "strings_ok ?cm" "CounterMap_wf ?cm" "strings_ok ?cm2" "CounterMap_wf ?cm2" by code_simp+
  then have "state_ok ?cm" "state_ok ?cm2" by (simp_all add: state_ok_def)
  moreover have "file_ok ''f'' empty_fs"
    using empty_fs_ok by (simp add: file_ok_def empty_fs_def after_crash_def versions_def)
  ultimately show ?thesis
    using snapshot_is_not_lost [of "''f''" empty_fs ?cm "[((\<lambda>_. Crash 1, 0, \<lambda>_. []), ?cm2)]" "[''N1'']" 0 "\<lambda>_. []"]
    unfolding Let_def by auto
qed

end
