(* ===== verification/Deployment.thy ===== *)
theory Deployment
  imports Quota Restart Storage
begin

text \<open>
  The service on machines that fail: every node has a disk with its snapshot file, written by
  \<open>snapshotLoop\<close> through \<open>FileStorage\<close>, and a node that crashes is started again by
  \<open>engine.New\<close>, which loads the file. \<open>ProcessCrash\<close> ends the process only; \<open>PowerLoss\<close> also
  loses what was not synced (\<open>reboot\<close>).

  \<open>recent\<close> and \<open>durable\<close> are history variables: the states given to \<open>Save\<close> since the last call
  in which everything succeeded, that one included, and whether there was such a call.
\<close>

record deployment =
  running :: system
  disks :: "NodeId \<Rightarrow> fs"
  recent :: "NodeId \<Rightarrow> CounterMap list"
  durable :: "NodeId \<Rightarrow> bool"

datatype crash = ProcessCrash | PowerLoss nat "inode \<Rightarrow> string"

fun crashed_disk :: "crash \<Rightarrow> fs \<Rightarrow> fs" where
  "crashed_disk ProcessCrash d = d"
| "crashed_disk (PowerLoss k garbage) d = reboot k garbage d"

datatype deployment_event =
    DSystem system_event
  | DSnapshot NodeId flusher_case "(syscall \<Rightarrow> outcome) \<times> nat \<times> (inode \<Rightarrow> string)"
  | DRestart NodeId crash

text \<open>\<open>engine.New\<close> on the disk; \<open>None\<close> for a file that loads as a state with nil inside.\<close>

definition load_engine :: "(NodeId, string) gomap \<Rightarrow> int \<Rightarrow> string \<Rightarrow> NodeId \<Rightarrow> fs \<Rightarrow> Engine option" where
  "load_engine ps maxBatch path i d =
     (case FileStorage_Load None path (map fst ps) d of
        LoadedNil \<Rightarrow> None
      | LoadError err \<Rightarrow> Some (NewEngine i ps maxBatch (\<lambda>ids. Inl err))
      | Loaded cm \<Rightarrow> Some (NewEngine i ps maxBatch (\<lambda>ids. Inr cm :: error + CounterMap)))"

text \<open>A node starts again: callbacks of its old process that have not run are lost.\<close>

definition restart_node ::
    "(NodeId, string) gomap \<Rightarrow> nat \<Rightarrow> int \<Rightarrow> string \<Rightarrow> NodeId \<Rightarrow> fs \<Rightarrow> system \<Rightarrow> system option" where
  "restart_node ps cap maxBatch path i d s =
     (case load_engine ps maxBatch path i d of
        None \<Rightarrow> None
      | Some e \<Rightarrow>
          Some (s\<lparr>agreement := restart_event ps (CounterMap_Bottom (live e)) cap i (agreement s),
                  hosts := (hosts s)(i := new_host e),
                  fired := filter (\<lambda>k. fst (callbacks (agreement s) ! k) = i) [0..<length (callbacks (agreement s))] @ fired s\<rparr>))"

fun is_snapshot :: "system_event \<Rightarrow> bool" where
  "is_snapshot (SHost i (HSnapshot c)) = True"
| "is_snapshot _ = False"

definition undisturbed :: "(syscall \<Rightarrow> outcome) \<Rightarrow> bool" where
  "undisturbed oc \<longleftrightarrow>
     list_all (\<lambda>c. oc c = Ok) [SMkdirAll, SOpenFile, SWrite, SSync, SClose, SRename, SOpenDir, SSyncDir]"

fun deployment_step ::
    "(NodeId, string) gomap \<Rightarrow> nat \<Rightarrow> int \<Rightarrow> (NodeId \<Rightarrow> string) \<Rightarrow> deployment \<Rightarrow> deployment_event \<Rightarrow> deployment option" where
  "deployment_step ps cap mb path s (DSystem e) =
     (if is_snapshot e then None
      else map_option (\<lambda>t. s\<lparr>running := t\<rparr>) (system_step (map fst ps) (running s) e))"
| "deployment_step ps cap mb path s (DSnapshot i c x) =
     (case system_step (map fst ps) (running s) (SHost i (HSnapshot c)) of
        None \<Rightarrow> None
      | Some t \<Rightarrow>
          (let cm = last (saved (hosts t i));
               died = fst (FileStorage_Save (fst x) (path i) cm (disks s i)) = SaveDied;
               d = file_save (path i) x cm (disks s i)
           in map_option
                (\<lambda>t. s\<lparr>running := t, disks := (disks s)(i := d),
                       recent := (recent s)(i := if undisturbed (fst x) then [cm] else recent s i @ [cm]),
                       durable := (durable s)(i := durable s i \<or> undisturbed (fst x))\<rparr>)
                (if died then restart_node ps cap mb (path i) i d t else Some t)))"
| "deployment_step ps cap mb path s (DRestart i crash) =
     (if i \<in> set (map fst ps) then
        (let d = crashed_disk crash (disks s i)
         in map_option (\<lambda>t. s\<lparr>running := t, disks := (disks s)(i := d)\<rparr>)
              (restart_node ps cap mb (path i) i d (running s)))
      else None)"

definition init_deployment :: "(NodeId, string) gomap \<Rightarrow> nat \<Rightarrow> int \<Rightarrow> deployment" where
  "init_deployment ps cap mb =
     \<lparr>running = init_system ps cap mb, disks = (\<lambda>_. empty_fs), recent = (\<lambda>_. []), durable = (\<lambda>_. False)\<rparr>"

text \<open>Keys are valid UTF-8, as those of requests that arrive as JSON are; counts do not wrap.\<close>

fun deployment_event_ok :: "deployment \<Rightarrow> deployment_event \<Rightarrow> bool" where
  "deployment_event_ok s (DSystem e) = system_event_ok (running s) e"
| "deployment_event_ok s (DSnapshot i c x) = state_ok (live (engineOf (hosts (running s) i)))"
| "deployment_event_ok s (DRestart i crash) = True"

inductive deployment_reach ::
    "(NodeId, string) gomap \<Rightarrow> nat \<Rightarrow> int \<Rightarrow> (NodeId \<Rightarrow> string) \<Rightarrow> deployment \<Rightarrow> bool"
  for ps cap mb path where
  dep_start: "deployment_reach ps cap mb path (init_deployment ps cap mb)"
| dep_step: "deployment_reach ps cap mb path s \<Longrightarrow> deployment_event_ok s e \<Longrightarrow>
     deployment_step ps cap mb path s e = Some t \<Longrightarrow> deployment_reach ps cap mb path t"

fun deployment_run ::
    "(NodeId, string) gomap \<Rightarrow> nat \<Rightarrow> int \<Rightarrow> (NodeId \<Rightarrow> string) \<Rightarrow> deployment \<Rightarrow> deployment_event list \<Rightarrow> deployment option" where
  "deployment_run ps cap mb path s [] = Some s"
| "deployment_run ps cap mb path s (e # es) =
     (if deployment_event_ok s e then
        (case deployment_step ps cap mb path s e of None \<Rightarrow> None | Some t \<Rightarrow> deployment_run ps cap mb path t es)
      else None)"

lemma deployment_run_reach:
  "deployment_reach ps cap mb path s \<Longrightarrow> deployment_run ps cap mb path s es = Some t \<Longrightarrow>
   deployment_reach ps cap mb path t"
proof (induction es arbitrary: s)
  case (Cons e es)
  then show ?case by (auto split: option.splits if_splits intro: dep_step)
qed simp

lemma deployment_run_append:
  "deployment_run ps cap mb path s es = Some t \<Longrightarrow>
   deployment_run ps cap mb path s (es @ fs) = deployment_run ps cap mb path t fs"
  by (induction es arbitrary: s) (auto split: option.splits if_splits)

section \<open>Disks and snapshots\<close>

lemma undisturbed_iff: "undisturbed oc \<longleftrightarrow> oc = (\<lambda>_. Ok)"
proof
  assume u: "undisturbed oc"
  show "oc = (\<lambda>_. Ok)"
  proof
    fix c show "oc c = Ok" using u by (cases c) (simp_all add: undisturbed_def)
  qed
qed (simp add: undisturbed_def)

text \<open>What a disk may load as: one of the recent snapshots, or nothing as long as none is durable.\<close>

definition disk_inv :: "string \<Rightarrow> fs \<Rightarrow> CounterMap list \<Rightarrow> bool \<Rightarrow> bool" where
  "disk_inv p d cms dur \<longleftrightarrow>
     file_ok p d \<and> (\<forall>cm \<in> set cms. state_ok cm) \<and>
     file_state ` after_crash p d \<subseteq> Some ` reloaded ` set cms \<union> (if dur then {} else {None})"

lemma file_ok_reboot: "file_ok p d \<Longrightarrow> file_ok p (reboot k g d)"
  using reboot_facts [of p d k g] by (auto simp: file_ok_def)

lemma disk_inv_crash:
  assumes "disk_inv p d cms dur"
  shows "disk_inv p (crashed_disk crash d) cms dur"
proof (cases crash)
  case (PowerLoss k g)
  have "fs_ok p d" using assms by (simp add: disk_inv_def file_ok_def)
  then have "after_crash p (reboot k g d) \<subseteq> after_crash p d" using reboot_facts [of p d k g] by simp
  then have "file_state ` after_crash p (reboot k g d) \<subseteq> file_state ` after_crash p d" by (rule image_mono)
  then show ?thesis using assms file_ok_reboot [of p d k g] PowerLoss by (simp add: disk_inv_def subset_trans)
qed (use assms in simp)

lemma disk_inv_save:
  assumes "disk_inv p d cms dur" "state_ok cm"
  shows "disk_inv p (file_save p x cm d) (if undisturbed (fst x) then [cm] else cms @ [cm]) (dur \<or> undisturbed (fst x))"
proof (cases "undisturbed (fst x)")
  case True
  have inv: "file_ok p d" using assms(1) by (simp add: disk_inv_def)
  have "file_state ` after_crash p (file_save p x cm d) = {Some (reloaded cm)}"
    by (rule files.save_durable [OF inv assms(2)]) (use True in \<open>simp add: undisturbed_iff\<close>)
  then show ?thesis using True assms(2) files.save_inv [OF inv assms(2), of x] by (simp add: disk_inv_def)
next
  case False
  let ?none = "if dur then {} else {None}"
  have inv: "file_ok p d" "file_state ` after_crash p d \<subseteq> Some ` reloaded ` set cms \<union> ?none"
    using assms(1) by (simp_all add: disk_inv_def)
  have "file_state ` after_crash p (file_save p x cm d) \<subseteq> insert (Some (reloaded cm)) (file_state ` after_crash p d)"
    by (rule files.save_possible [OF inv(1) assms(2)])
  also have "\<dots> \<subseteq> insert (Some (reloaded cm)) (Some ` reloaded ` set cms \<union> ?none)"
    by (rule insert_mono [OF inv(2)])
  also have "\<dots> = Some ` reloaded ` set (cms @ [cm]) \<union> ?none" by simp
  finally show ?thesis
    using False assms files.save_inv [OF inv(1) assms(2), of x] by (simp add: disk_inv_def)
qed

lemma disk_inv_load:
  assumes "disk_inv p d cms dur"
  obtains cm where "FileStorage_Load None p ids d = Loaded cm"
    "cm \<in> reloaded ` set cms \<or> \<not> dur \<and> cm = NewCounterMap ids"
proof -
  have inv: "file_ok p d" and sub: "file_state (visible p d) \<in> Some ` reloaded ` set cms \<union> (if dur then {} else {None})"
    using assms visible_after_crash [of p d] by (auto simp: disk_inv_def)
  show thesis
    using that files.load_stored [OF inv, of ids] sub by (cases "file_state (visible p d)") (auto split: if_splits)
qed

lemma restart_node_loads:
  assumes "disk_inv p d cms dur"
  obtains cm t where "restart_node ps cap mb p i d s = Some t" "live (engineOf (hosts t i)) = cm"
    "clients (hosts t i) = []" "cm \<in> reloaded ` set cms \<or> \<not> dur \<and> cm = NewCounterMap (map fst ps)"
proof -
  obtain cm where cm: "FileStorage_Load None p (map fst ps) d = Loaded cm"
    "cm \<in> reloaded ` set cms \<or> \<not> dur \<and> cm = NewCounterMap (map fst ps)" by (rule disk_inv_load [OF assms])
  then obtain e where e: "load_engine ps mb p i d = Some e" "live e = cm"
    by (simp add: load_engine_def NewEngine_def live_def)
  then obtain t where t: "restart_node ps cap mb p i d s = Some t" "hosts t i = new_host e"
    by (simp add: restart_node_def)
  show thesis by (rule that [OF t(1) _ _ cm(2)]) (simp_all add: t(2) e(2) new_host_def)
qed

definition disks_inv :: "(NodeId \<Rightarrow> string) \<Rightarrow> deployment \<Rightarrow> bool" where
  "disks_inv path s \<longleftrightarrow> (\<forall>i. disk_inv (path i) (disks s i) (recent s i) (durable s i))"

lemma state_ok_Copy: "state_ok cm \<Longrightarrow> state_ok (CounterMap_Copy cm)"
  by (simp add: state_ok_def)

lemma snapshot_saves:
  assumes "system_step ids s (SHost i (HSnapshot c)) = Some t"
  shows "last (saved (hosts t i)) = CounterMap_Copy (live (engineOf (hosts s i)))"
  using assms by (cases c) (auto split: if_splits option.splits)

lemma deployment_step_disks:
  assumes inv: "disks_inv path s" and ok: "deployment_event_ok s e" and st: "deployment_step ps cap mb path s e = Some t"
  shows "disks_inv path t"
proof (cases e)
  case (DSystem ev)
  with st have "disks t = disks s" "recent t = recent s" "durable t = durable s" by (auto split: if_splits)
  with inv show ?thesis by (simp add: disks_inv_def)
next
  case (DSnapshot i c x)
  then obtain u where u: "system_step (map fst ps) (running s) (SHost i (HSnapshot c)) = Some u"
    using st by (auto split: option.splits)
  let ?cm = "last (saved (hosts u i))"
  have "state_ok ?cm" using snapshot_saves [OF u] state_ok_Copy ok DSnapshot by simp
  then have new: "disk_inv (path i) (file_save (path i) x ?cm (disks s i))
      (if undisturbed (fst x) then [?cm] else recent s i @ [?cm]) (durable s i \<or> undisturbed (fst x))"
    using inv by (intro disk_inv_save) (auto simp: disks_inv_def)
  have "disks t = (disks s)(i := file_save (path i) x ?cm (disks s i))"
      "recent t = (recent s)(i := if undisturbed (fst x) then [?cm] else recent s i @ [?cm])"
      "durable t = (durable s)(i := durable s i \<or> undisturbed (fst x))"
    using st u DSnapshot by (auto simp: Let_def)
  with inv new show ?thesis unfolding disks_inv_def by (metis fun_upd_apply)
next
  case (DRestart i crash)
  with st have "disks t = (disks s)(i := crashed_disk crash (disks s i))" "recent t = recent s" "durable t = durable s"
    by (auto simp: Let_def split: if_splits)
  with inv show ?thesis using disk_inv_crash by (simp add: disks_inv_def)
qed

lemma deployment_reach_disks: "deployment_reach ps cap mb path s \<Longrightarrow> disks_inv path s"
proof (induction rule: deployment_reach.induct)
  case dep_start
  show ?case
    by (simp add: disks_inv_def disk_inv_def init_deployment_def file_ok_def empty_fs_ok)
      (simp add: after_crash_def versions_def empty_fs_def file_state_def)
qed (blast intro: deployment_step_disks)

section \<open>An example run\<close>

definition start3_run :: "system_event list" where
  "start3_run =
     [SHost ''N1'' (HBegin SyncCall), SNet (EDeliver 0), SNet (EDeliver 0),
      SNet (ERun ''N1'' AcceptorRole), SNet (ERun ''N2'' AcceptorRole), SNet (EDeliver 1), SNet (EDeliver 1),
      SNet (ERun ''N1'' ProposerRole), SNet (ERun ''N1'' ProposerRole), SNet (EDeliver 1),
      SNet (ERun ''N1'' LearnerRole), SCallback 0, SHost ''N1'' (HWake 0 False), SHost ''N1'' (HReturn 0),
      SHost ''N3'' (HBegin SyncCall), SNet (EDeliver 2), SNet (ERun ''N3'' LearnerRole), SCallback 1,
      SHost ''N3'' (HWake 0 False), SHost ''N3'' (HReturn 0)]"

definition first_increment_run :: "system_event list" where
  "first_increment_run =
     [SHost ''N1'' (HBegin (IncrementCall ''k'' 1)), SHost ''N1'' (HFlusher TickerCase), SHost ''N1'' HPropose,
      SNet (EDeliver 5), SNet (EDeliver 5), SNet (ERun ''N1'' AcceptorRole), SNet (ERun ''N2'' AcceptorRole),
      SNet (EDeliver 6), SNet (EDeliver 6), SNet (ERun ''N1'' ProposerRole), SNet (ERun ''N1'' ProposerRole),
      SNet (EDeliver 6), SNet (ERun ''N1'' LearnerRole), SCallback 2, SHost ''N1'' (HWake 1 False),
      SHost ''N1'' (HReturn 1)]"

definition second_increment_run :: "system_event list" where
  "second_increment_run =
     [SHost ''N3'' (HBegin (IncrementCall ''k'' 1)), SHost ''N3'' (HFlusher TickerCase), SHost ''N3'' HPropose,
      SNet (EDeliver 11), SNet (EDeliver 11), SNet (ERun ''N2'' AcceptorRole), SNet (ERun ''N3'' AcceptorRole),
      SNet (EDeliver 11), SNet (EDeliver 11), SNet (ERun ''N3'' ProposerRole), SNet (ERun ''N3'' ProposerRole),
      SNet (EDeliver 13), SNet (ERun ''N3'' LearnerRole), SCallback 3, SHost ''N3'' (HWake 1 False),
      SHost ''N3'' (HReturn 1)]"

definition overshoot :: "deployment_event list" where
  "overshoot =
     map DSystem (start3_run @ first_increment_run) @ DRestart ''N2'' ProcessCrash # map DSystem second_increment_run"

definition json_path :: "NodeId \<Rightarrow> string" where
  "json_path i = i @ ''.json''"

lemmas deploy_defs =
  run_defs peers3_def start3_run_def first_increment_run_def second_increment_run_def calls_def init_deployment_def
  restart_node_def load_engine_def restart_event_def FileStorage_Load_def visible_def empty_fs_def

text \<open>\<open>N1\<close> and \<open>N2\<close> decide an increment; \<open>N2\<close> restarts; \<open>N2\<close> and \<open>N3\<close> decide another one.\<close>

lemma overshoot_run:
  "\<exists>s t. deployment_run peers3 8 50 json_path (init_deployment peers3 8 50) (map DSystem (start3_run @ first_increment_run)) = Some s \<and>
     snapshotsUp (hosts (running s) ''N1'') \<and>
     Counters (live (engineOf (hosts (running s) ''N1''))) = [(''k'', \<lparr>Counts = [(''N1'', 1), (''N2'', 0), (''N3'', 0)]\<rparr>)] \<and>
     deployment_run peers3 8 50 json_path s (DRestart ''N2'' ProcessCrash # map DSystem second_increment_run) = Some t \<and>
     calls (running t) ''N1'' = [(SyncCall, Returned (0, True)), (IncrementCall ''k'' 1, Returned (1, True))] \<and>
     calls (running t) ''N3'' = [(SyncCall, Returned (0, True)), (IncrementCall ''k'' 1, Returned (1, True))] \<and>
     map snd (decided (agreement (running t))) = [[''N1'', ''N2''], [''N1'', ''N2''], [''N2'', ''N3'']]"
  by (simp add: deploy_defs)

lemma overshoot_states:
  obtains s t where "deployment_reach peers3 8 50 json_path s" "snapshotsUp (hosts (running s) ''N1'')"
    "Counters (live (engineOf (hosts (running s) ''N1''))) = [(''k'', \<lparr>Counts = [(''N1'', 1), (''N2'', 0), (''N3'', 0)]\<rparr>)]"
    "deployment_run peers3 8 50 json_path (init_deployment peers3 8 50) overshoot = Some t"
    "calls (running t) ''N1'' = [(SyncCall, Returned (0, True)), (IncrementCall ''k'' 1, Returned (1, True))]"
    "calls (running t) ''N3'' = [(SyncCall, Returned (0, True)), (IncrementCall ''k'' 1, Returned (1, True))]"
    "map snd (decided (agreement (running t))) = [[''N1'', ''N2''], [''N1'', ''N2''], [''N2'', ''N3'']]"
  using overshoot_run
proof (elim exE conjE)
  fix s t
  assume s: "deployment_run peers3 8 50 json_path (init_deployment peers3 8 50) (map DSystem (start3_run @ first_increment_run)) = Some s"
    and t: "deployment_run peers3 8 50 json_path s (DRestart ''N2'' ProcessCrash # map DSystem second_increment_run) = Some t"
    and facts: "snapshotsUp (hosts (running s) ''N1'')"
      "Counters (live (engineOf (hosts (running s) ''N1''))) = [(''k'', \<lparr>Counts = [(''N1'', 1), (''N2'', 0), (''N3'', 0)]\<rparr>)]"
      "calls (running t) ''N1'' = [(SyncCall, Returned (0, True)), (IncrementCall ''k'' 1, Returned (1, True))]"
      "calls (running t) ''N3'' = [(SyncCall, Returned (0, True)), (IncrementCall ''k'' 1, Returned (1, True))]"
      "map snd (decided (agreement (running t))) = [[''N1'', ''N2''], [''N1'', ''N2''], [''N2'', ''N3'']]"
  have "deployment_reach peers3 8 50 json_path s" by (rule deployment_run_reach [OF dep_start s])
  moreover have "deployment_run peers3 8 50 json_path (init_deployment peers3 8 50) overshoot = Some t"
    unfolding overshoot_def deployment_run_append [OF s] by (rule t)
  ultimately show thesis using facts by (intro that)
qed

section \<open>Properties\<close>



text \<open>
  C4: the limit does not survive a restart. A run of three nodes whose events are those of the
  service but for one restart of one node, in which every decision counted different acceptors: at
  its end two callers on two nodes have each been granted one request of a key whose limit is one.
\<close>

theorem restart_exceeds_limit:
  "\<exists>s. deployment_run peers3 8 50 json_path (init_deployment peers3 8 50) overshoot = Some s \<and>
     length (filter (\<lambda>e. case e of DSystem _ \<Rightarrow> False | _ \<Rightarrow> True) overshoot) = 1 \<and>
     list_all (\<lambda>d. distinct (snd d)) (decided (agreement (running s))) \<and>
     unat (1 :: uint64) < (\<Sum>i \<in> gm_dom peers3. granted_total ''k'' 1 (clients (hosts (running s) i)))"
proof -
  obtain t where t: "deployment_run peers3 8 50 json_path (init_deployment peers3 8 50) overshoot = Some t"
    "calls (running t) ''N1'' = [(SyncCall, Returned (0, True)), (IncrementCall ''k'' 1, Returned (1, True))]"
    "calls (running t) ''N3'' = [(SyncCall, Returned (0, True)), (IncrementCall ''k'' 1, Returned (1, True))]"
    "map snd (decided (agreement (running t))) = [[''N1'', ''N2''], [''N1'', ''N2''], [''N2'', ''N3'']]"
    by (rule overshoot_states)
  have "granted_total ''k'' 1 cs = 1"
    if "map (\<lambda>c. (callOf c, phaseOf c)) cs = [(SyncCall, Returned (0, True)), (IncrementCall ''k'' 1, Returned (1, True))]" for cs
    using that by (auto simp: granted_total_def map_eq_Cons_conv)
  then have g: "granted_total ''k'' 1 (clients (hosts (running t) ''N1'')) = 1"
      "granted_total ''k'' 1 (clients (hosts (running t) ''N3'')) = 1" using t(2,3) by (simp_all add: calls_def)
  have "gm_dom peers3 = {''N1'', ''N2'', ''N3''}" by (simp add: peers3_def)
  then have "2 \<le> (\<Sum>i \<in> gm_dom peers3. granted_total ''k'' 1 (clients (hosts (running t) i)))" using g by simp
  moreover have "snd ` set (decided (agreement (running t))) = {[''N1'', ''N2''], [''N2'', ''N3'']}"
    using arg_cong [OF t(4), of set] by simp
  then have "\<forall>q \<in> snd ` set (decided (agreement (running t))). distinct q" by simp
  then have "\<forall>d \<in> set (decided (agreement (running t))). distinct (snd d)" by blast
  then have "list_all (\<lambda>d. distinct (snd d)) (decided (agreement (running t)))" by (simp add: list_all_iff)
  moreover have "length (filter (\<lambda>e. case e of DSystem _ \<Rightarrow> False | _ \<Rightarrow> True) overshoot) = 1"
    by (simp add: overshoot_def filter_map comp_def)
  ultimately show ?thesis using t(1) by (intro exI [of _ t]) simp
qed

end
