(* ===== verification/P2pClient.thy ===== *)
theory P2pClient
  imports Cluster GoText "HOL-Library.Sublist"
begin

text \<open>
  The sending side of \<open>internal/p2p\<close>: \<open>Connection\<close>, the connection pool \<open>Client\<close> and
  \<open>Network\<close>. \<open>transport\<close> is TCP as the process sees it: the connections it opened, what was
  written to them, and \<open>faults\<close>, the errors that the coming operations meet (\<open>None\<close>: no error;
  none after the end of the list). A written message may still be lost, which is the step
  \<open>ELose\<close> of \<open>Cluster\<close>.
\<close>

type_synonym conn = nat

record 'v transport =
  nextConn :: conn
  connAddr :: "conn \<Rightarrow> string"
  openConns :: "conn list"
  arrived :: "(string \<times> 'v Message) list"
  faults :: "error option list"

definition next_fault :: "'v transport \<Rightarrow> error option \<times> 'v transport" where
  "next_fault tr = ((case faults tr of [] \<Rightarrow> None | f # fs \<Rightarrow> f), tr\<lparr>faults := tl (faults tr)\<rparr>)"

definition net_Dial :: "string \<Rightarrow> 'v transport \<Rightarrow> (error + conn) \<times> 'v transport" where
  "net_Dial addr tr =
     (case next_fault tr of
        (Some err, tr) \<Rightarrow> (Inl err, tr)
      | (None, tr) \<Rightarrow>
          (Inr (nextConn tr),
           tr\<lparr>nextConn := nextConn tr + 1, connAddr := (connAddr tr)(nextConn tr := addr),
              openConns := nextConn tr # openConns tr\<rparr>))"

section \<open>Connection\<close>

text \<open>\<open>wire\<close> is what encoding and decoding with \<open>encoding/gob\<close> keeps of a value.\<close>

definition Connection_Send :: "('v \<Rightarrow> 'v) \<Rightarrow> conn \<Rightarrow> 'v Message \<Rightarrow> 'v transport \<Rightarrow> error option \<times> 'v transport" where
  "Connection_Send wire c msg tr =
     (case next_fault tr of
        (Some err, tr) \<Rightarrow> (Some err, tr)
      | (None, tr) \<Rightarrow>
          (case next_fault tr of
             (Some err, tr) \<Rightarrow> (Some err, tr)
           | (None, tr) \<Rightarrow> (None, tr\<lparr>arrived := arrived tr @ [(connAddr tr c, wire_message wire msg)]\<rparr>)))"

definition Connection_Close :: "conn \<Rightarrow> 'v transport \<Rightarrow> error option \<times> 'v transport" where
  "Connection_Close c tr =
     (case next_fault tr of (f, tr) \<Rightarrow> (f, tr\<lparr>openConns := filter (\<lambda>x. x \<noteq> c) (openConns tr)\<rparr>))"

section \<open>Client\<close>

record Client =
  pool :: "(string, conn) gomap"
  knownDown :: "(string, unit) gomap"

definition NewClient :: Client where
  "NewClient = \<lparr>pool = [], knownDown = []\<rparr>"

definition Client_connect :: "string \<Rightarrow> Client \<Rightarrow> 'v transport \<Rightarrow> (error + conn) \<times> Client \<times> 'v transport" where
  "Client_connect targetAddr c tr =
     (case net_Dial targetAddr tr of
        (Inl err, tr) \<Rightarrow>
          (let c = (if targetAddr \<in> gm_dom (knownDown c) then c
                    else c\<lparr>knownDown := gm_set targetAddr () (knownDown c)\<rparr>)
           in (Inl err, c, tr))
      | (Inr conn, tr) \<Rightarrow>
          (let c = (if targetAddr \<in> gm_dom (knownDown c)
                    then c\<lparr>knownDown := gm_delete targetAddr (knownDown c)\<rparr> else c)
           in (Inr conn, c\<lparr>pool := gm_set targetAddr conn (pool c)\<rparr>, tr)))"

text \<open>The part of \<open>Send\<close> after a connection is there.\<close>

definition send_on ::
    "('v \<Rightarrow> 'v) \<Rightarrow> string \<Rightarrow> 'v Message \<Rightarrow> conn \<Rightarrow> Client \<Rightarrow> 'v transport \<Rightarrow> error option \<times> Client \<times> 'v transport" where
  "send_on wire targetAddr msg conn c tr =
     (case Connection_Send wire conn msg tr of
        (None, tr) \<Rightarrow> (None, c, tr)
      | (Some err, tr) \<Rightarrow>
          (let c = c\<lparr>pool := gm_delete targetAddr (pool c)\<rparr>;
               (closeErr, tr) = Connection_Close conn tr
           in case Client_connect targetAddr c tr of
                (Inl dialErr, c, tr) \<Rightarrow>
                  (Some (''retry dial to '' @ targetAddr @ '' failed: '' @ dialErr @ '' (original: '' @ err @ '')''), c, tr)
              | (Inr conn, c, tr) \<Rightarrow>
                  (case Connection_Send wire conn msg tr of
                     (Some retryErr, tr) \<Rightarrow> (Some retryErr, c\<lparr>pool := gm_delete targetAddr (pool c)\<rparr>, tr)
                   | (None, tr) \<Rightarrow> (None, c, tr))))"

definition Client_Send ::
    "('v \<Rightarrow> 'v) \<Rightarrow> string \<Rightarrow> 'v Message \<Rightarrow> Client \<Rightarrow> 'v transport \<Rightarrow> error option \<times> Client \<times> 'v transport" where
  "Client_Send wire targetAddr msg c tr =
     (case map_of (pool c) targetAddr of
        Some conn \<Rightarrow> send_on wire targetAddr msg conn c tr
      | None \<Rightarrow>
          (case Client_connect targetAddr c tr of
             (Inl err, c, tr) \<Rightarrow> (Some err, c, tr)
           | (Inr conn, c, tr) \<Rightarrow> send_on wire targetAddr msg conn c tr))"

fun close_loop :: "(string, conn) gomap \<Rightarrow> 'v transport \<Rightarrow> error option \<times> 'v transport" where
  "close_loop [] tr = (None, tr)"
| "close_loop ((addr, conn) # m) tr =
     (case Connection_Close conn tr of (Some err, tr) \<Rightarrow> (Some err, tr) | (None, tr) \<Rightarrow> close_loop m tr)"

definition Client_Close :: "Client \<Rightarrow> 'v transport \<Rightarrow> error option \<times> Client \<times> 'v transport" where
  "Client_Close c tr =
     (case close_loop (pool c) tr of
        (Some err, tr) \<Rightarrow> (Some err, c, tr)
      | (None, tr) \<Rightarrow> (None, c\<lparr>pool := []\<rparr>, tr))"

section \<open>Network\<close>

text \<open>The outgoing part of \<open>Network\<close>; its server is in \<open>Lifecycle\<close>.\<close>

record Network =
  netAddress :: string
  netClient :: Client
  netPeers :: "(NodeId, string) gomap"

definition NewNetwork :: "string \<Rightarrow> (NodeId, string) gomap \<Rightarrow> Network" where
  "NewNetwork addr ps = \<lparr>netAddress = addr, netClient = NewClient, netPeers = ps\<rparr>"

definition Network_Send ::
    "('v \<Rightarrow> 'v) \<Rightarrow> NodeId \<Rightarrow> 'v Message \<Rightarrow> Network \<Rightarrow> 'v transport \<Rightarrow> error option \<times> Network \<times> 'v transport" where
  "Network_Send wire nodeId msg n tr =
     (case map_of (netPeers n) nodeId of
        None \<Rightarrow> (Some (''network: no address found for node id '' @ nodeId), n, tr)
      | Some addr \<Rightarrow>
          (case Client_Send wire addr msg (netClient n) tr of
             (err, c, tr) \<Rightarrow> (err, n\<lparr>netClient := c\<rparr>, tr)))"

fun broadcast_loop :: "('v \<Rightarrow> 'v) \<Rightarrow> 'v Message \<Rightarrow> NodeId list \<Rightarrow> Network \<Rightarrow> 'v transport \<Rightarrow> Network \<times> 'v transport" where
  "broadcast_loop wire msg [] n tr = (n, tr)"
| "broadcast_loop wire msg (nodeId # ids) n tr =
     (case Network_Send wire nodeId msg n tr of (err, n, tr) \<Rightarrow> broadcast_loop wire msg ids n tr)"

definition Network_Broadcast ::
    "('v \<Rightarrow> 'v) \<Rightarrow> 'v Message \<Rightarrow> Network \<Rightarrow> 'v transport \<Rightarrow> error option \<times> Network \<times> 'v transport" where
  "Network_Broadcast wire msg n tr = (None, broadcast_loop wire msg (map fst (netPeers n)) n tr)"

fun others_loop ::
    "('v \<Rightarrow> 'v) \<Rightarrow> 'v Message \<Rightarrow> NodeId \<Rightarrow> NodeId list \<Rightarrow> Network \<Rightarrow> 'v transport \<Rightarrow> Network \<times> 'v transport" where
  "others_loop wire msg senderId [] n tr = (n, tr)"
| "others_loop wire msg senderId (nodeId # ids) n tr =
     (if nodeId = senderId then others_loop wire msg senderId ids n tr
      else case Network_Send wire nodeId msg n tr of (err, n, tr) \<Rightarrow> others_loop wire msg senderId ids n tr)"

definition Network_BroadcastToOthers ::
    "('v \<Rightarrow> 'v) \<Rightarrow> 'v Message \<Rightarrow> NodeId \<Rightarrow> Network \<Rightarrow> 'v transport \<Rightarrow> error option \<times> Network \<times> 'v transport" where
  "Network_BroadcastToOthers wire msg senderId n tr =
     (None, others_loop wire msg senderId (map fst (netPeers n)) n tr)"

text \<open>\<open>Network.Close\<close>: the result of closing the server, \<open>srvErr\<close>, is only logged.\<close>

definition Network_Close ::
    "error option \<Rightarrow> Network \<Rightarrow> 'v transport \<Rightarrow> error option \<times> Network \<times> 'v transport" where
  "Network_Close srvErr n tr =
     (case Client_Close (netClient n) tr of (err, c, tr) \<Rightarrow> (err, n\<lparr>netClient := c\<rparr>, tr))"

text \<open>What the roles start in goroutines: the calls of the network.\<close>

fun run_effect :: "('v \<Rightarrow> 'v) \<Rightarrow> 'v effect \<Rightarrow> Network \<Rightarrow> 'v transport \<Rightarrow> error option \<times> Network \<times> 'v transport" where
  "run_effect wire (Broadcast m) n tr = Network_Broadcast wire m n tr"
| "run_effect wire (BroadcastToOthers m sender) n tr = Network_BroadcastToOthers wire m sender n tr"
| "run_effect wire (Send d m) n tr = Network_Send wire d m n tr"
| "run_effect wire (OnLearn v) n tr = (None, n, tr)"

section \<open>The pool\<close>

definition pool_ok :: "Client \<Rightarrow> 'v transport \<Rightarrow> bool" where
  "pool_ok c tr \<longleftrightarrow>
     gm_ok (pool c) \<and> (\<forall>addr conn. map_of (pool c) addr = Some conn \<longrightarrow>
       conn < nextConn tr \<and> conn \<in> set (openConns tr) \<and> connAddr tr conn = addr)"

definition no_faults :: "'v transport \<Rightarrow> bool" where
  "no_faults tr \<longleftrightarrow> faults tr = []"

lemma next_fault_cases:
  "next_fault tr = (f, tr') \<Longrightarrow>
   tr' = tr\<lparr>faults := tl (faults tr)\<rparr> \<and> (no_faults tr \<longrightarrow> f = None)"
  by (auto simp: next_fault_def no_faults_def)

lemma pool_ok_faults [simp]: "pool_ok c (tr\<lparr>faults := fs\<rparr>) = pool_ok c tr"
  by (simp add: pool_ok_def)

lemma pool_okD:
  "pool_ok c tr \<Longrightarrow> map_of (pool c) addr = Some conn \<Longrightarrow> connAddr tr conn = addr"
  by (simp add: pool_ok_def)

text \<open>What a write does: nothing that matters when it fails, one message when it succeeds.\<close>

lemma Connection_Send_cases:
  assumes "Connection_Send wire c msg tr = (r, tr')"
  obtains fs where "r \<noteq> None" "tr' = tr\<lparr>faults := fs\<rparr>" "\<not> no_faults tr"
  | fs where "r = None" "tr' = tr\<lparr>faults := fs, arrived := arrived tr @ [(connAddr tr c, wire_message wire msg)]\<rparr>"
      "no_faults tr \<longrightarrow> fs = []"
proof -
  obtain f1 t1 where n1: "next_fault tr = (f1, t1)" by force
  obtain f2 t2 where n2: "next_fault t1 = (f2, t2)" by force
  have c1: "t1 = tr\<lparr>faults := tl (faults tr)\<rparr>" "no_faults tr \<longrightarrow> f1 = None" using next_fault_cases [OF n1] by auto
  have c2: "t2 = tr\<lparr>faults := tl (faults t1)\<rparr>" "no_faults t1 \<longrightarrow> f2 = None" using next_fault_cases [OF n2] c1(1) by auto
  have nf: "no_faults tr \<longrightarrow> f1 = None \<and> f2 = None \<and> tl (faults t1) = []"
    using c1 c2 by (auto simp: no_faults_def)
  show thesis
  proof (cases "f1 = None \<and> f2 = None")
    case True
    then show thesis using that(2) [of "tl (faults t1)"] assms n1 n2 c1(1) c2(1) nf by (auto simp: Connection_Send_def)
  next
    case False
    then have "r \<noteq> None" "tr' = (if f1 = None then t2 else t1)"
      using assms n1 n2 by (auto simp: Connection_Send_def split: option.splits)
    then show thesis using that(1) c1(1) c2(1) False nf by (cases f1) auto
  qed
qed

lemma Connection_Close_cases:
  assumes "Connection_Close c tr = (r, tr')"
  obtains fs where "tr' = tr\<lparr>faults := fs, openConns := filter (\<lambda>x. x \<noteq> c) (openConns tr)\<rparr>" "no_faults tr \<longrightarrow> fs = []"
proof -
  obtain f t where n: "next_fault tr = (f, t)" by force
  then have "t = tr\<lparr>faults := tl (faults tr)\<rparr>" using next_fault_cases [OF n] by blast
  then show thesis using that [of "tl (faults tr)"] assms n by (auto simp: Connection_Close_def no_faults_def)
qed

lemma Client_connect_cases:
  assumes "Client_connect addr c tr = (r, c', tr')" "pool_ok c tr"
  obtains err fs where "r = Inl err" "pool c' = pool c" "tr' = tr\<lparr>faults := fs\<rparr>" "\<not> no_faults tr"
  | conn where "r = Inr conn" "pool_ok c' tr'" "map_of (pool c') addr = Some conn" "arrived tr' = arrived tr"
      "no_faults tr \<longrightarrow> no_faults tr'"
proof -
  obtain f t where n: "next_fault tr = (f, t)" by force
  have t: "t = tr\<lparr>faults := tl (faults tr)\<rparr>" "no_faults tr \<longrightarrow> f = None" using next_fault_cases [OF n] by auto
  show thesis
  proof (cases f)
    case (Some err)
    then show thesis
      using that(1) [of err "tl (faults tr)"] assms(1) n t by (auto simp: Client_connect_def net_Dial_def Let_def split: if_splits)
  next
    case None
    let ?t = "t\<lparr>nextConn := nextConn t + 1, connAddr := (connAddr t)(nextConn t := addr), openConns := nextConn t # openConns t\<rparr>"
    have r: "r = Inr (nextConn tr)" "pool c' = gm_set addr (nextConn tr) (pool c)" "tr' = ?t"
      using assms(1) n None t(1) by (auto simp: Client_connect_def net_Dial_def Let_def split: if_splits)
    then have "pool_ok c' tr'"
      using assms(2) t(1) by (auto simp: pool_ok_def gm_simps less_Suc_eq intro: gm_ok_intros split: if_splits)
    then show thesis using that(2) r t by (auto simp: gm_simps no_faults_def)
  qed
qed

lemma pool_ok_delete: "pool_ok c tr \<Longrightarrow> pool_ok (c\<lparr>pool := gm_delete addr (pool c)\<rparr>) tr"
  by (auto simp: pool_ok_def gm_simps intro: gm_ok_intros split: if_splits)

lemma pool_ok_arrived [simp]: "pool_ok c (tr\<lparr>arrived := x\<rparr>) = pool_ok c tr"
  by (simp add: pool_ok_def)

text \<open>What a send guarantees, whatever faults it meets.\<close>

definition sent :: "('v \<Rightarrow> 'v) \<Rightarrow> string \<Rightarrow> 'v Message \<Rightarrow> 'v transport \<Rightarrow> error option \<times> Client \<times> 'v transport \<Rightarrow> bool" where
  "sent wire addr msg tr res \<longleftrightarrow>
     (case res of (r, c', tr') \<Rightarrow>
        pool_ok c' tr' \<and>
        arrived tr' = arrived tr @ (if r = None then [(addr, wire_message wire msg)] else []) \<and>
        (r = None \<longrightarrow> addr \<in> gm_dom (pool c')) \<and> (r \<noteq> None \<longrightarrow> addr \<notin> gm_dom (pool c')) \<and>
        (no_faults tr \<longrightarrow> r = None \<and> no_faults tr'))"

lemma close_stale_ok:
  assumes ok: "pool_ok c tr" and conn: "map_of (pool c) addr = Some conn"
    and close: "Connection_Close conn (tr\<lparr>faults := fs\<rparr>) = (e, t)"
  shows "pool_ok (c\<lparr>pool := gm_delete addr (pool c)\<rparr>) t \<and> arrived t = arrived tr"
proof -
  obtain fs2 where t: "t = tr\<lparr>faults := fs2, openConns := filter (\<lambda>x. x \<noteq> conn) (openConns tr)\<rparr>"
    using close by (rule Connection_Close_cases) simp
  have "x \<noteq> conn" if "map_of (pool c) a = Some x" "a \<noteq> addr" for a x
    using pool_okD [OF ok that(1)] pool_okD [OF ok conn] that(2) by auto
  then show ?thesis
    using pool_ok_delete [OF ok, of addr] by (auto simp: pool_ok_def t gm_simps split: if_splits)
qed

text \<open>The second attempt, on the connection that was dialled after a fault of the first.\<close>

lemma resend_sent:
  assumes "pool_ok c t" "map_of (pool c) addr = Some conn" "arrived t = arrived tr" "\<not> no_faults tr"
    and send: "Connection_Send wire conn msg t = (r, t')"
  shows "sent wire addr msg tr (r, if r = None then c else c\<lparr>pool := gm_delete addr (pool c)\<rparr>, t')"
  using send
proof (cases rule: Connection_Send_cases)
  case (1 fs)
  then show ?thesis using assms pool_ok_delete [OF assms(1), of addr] by (auto simp: sent_def gm_simps)
next
  case (2 fs)
  then show ?thesis using assms pool_okD [OF assms(1,2)] gm_dom_SomeD [OF assms(2)] by (simp add: sent_def)
qed

lemma send_on_sent:
  assumes ok: "pool_ok c tr" and conn: "map_of (pool c) addr = Some conn"
  shows "sent wire addr msg tr (send_on wire addr msg conn c tr)"
proof -
  obtain r1 t1 where s1: "Connection_Send wire conn msg tr = (r1, t1)" by force
  from s1 show ?thesis
  proof (cases rule: Connection_Send_cases)
    case (2 fs)
    then show ?thesis
      using ok conn pool_okD [OF ok conn] gm_dom_SomeD [OF conn]
      by (simp add: send_on_def s1 sent_def no_faults_def)
  next
    case (1 fs)
    let ?c = "c\<lparr>pool := gm_delete addr (pool c)\<rparr>"
    obtain err where r1: "r1 = Some err" using 1(1) by auto
    obtain e t2 where s2: "Connection_Close conn t1 = (e, t2)" by force
    have okc: "pool_ok ?c t2" "arrived t2 = arrived tr" using close_stale_ok [OF ok conn] s2 1(2) by auto
    obtain r3 c3 t3 where s3: "Client_connect addr ?c t2 = (r3, c3, t3)" by (metis prod_cases3)
    from s3 okc(1) show ?thesis
    proof (cases rule: Client_connect_cases)
      case inl: (1 de fs3)
      have "pool_ok c3 t3" using okc inl(2,3) by (simp add: pool_ok_def)
      moreover have "addr \<notin> gm_dom (pool c3)" using inl(2) by (simp add: gm_simps)
      ultimately show ?thesis
        using s1 r1 s2 s3 inl okc(2) 1(3) by (simp add: send_on_def sent_def Let_def)
    next
      case inr: (2 conn3)
      obtain r4 t4 where s4: "Connection_Send wire conn3 msg t3 = (r4, t4)" by force
      have "send_on wire addr msg conn c tr = (r4, if r4 = None then c3 else c3\<lparr>pool := gm_delete addr (pool c3)\<rparr>, t4)"
        using s1 r1 s2 s3 s4 inr(1) by (simp add: send_on_def Let_def split: option.splits)
      then show ?thesis using resend_sent [OF inr(2,3) _ 1(3) s4] inr(4) okc(2) by simp
    qed
  qed
qed

lemma Client_Send_sent:
  assumes ok: "pool_ok c tr"
  shows "sent wire addr msg tr (Client_Send wire addr msg c tr)"
proof (cases "map_of (pool c) addr")
  case (Some conn)
  then show ?thesis using send_on_sent [OF ok Some] by (simp add: Client_Send_def)
next
  case None
  obtain r c1 t1 where s: "Client_connect addr c tr = (r, c1, t1)" by (metis prod_cases3)
  from s ok show ?thesis
  proof (cases rule: Client_connect_cases)
    case (1 err fs)
    then show ?thesis
      using ok None s by (simp add: Client_Send_def sent_def pool_ok_def flip: map_of_None_iff)
  next
    case (2 conn)
    then show ?thesis
      using send_on_sent [OF 2(2,3), of wire msg] None s by (auto simp: Client_Send_def sent_def split: prod.splits)
  qed
qed

section \<open>The network refines the abstract one\<close>

text \<open>
  The messages that get through are a subsequence of those that the abstract network of
  \<open>Cluster\<close> sends, addressed by the peers' addresses.
\<close>

definition addressed :: "(NodeId, string) gomap \<Rightarrow> NodeId \<times> 'v Message \<Rightarrow> string \<times> 'v Message" where
  "addressed ps x = (the (map_of ps (fst x)), snd x)"

definition delivers :: "'v transport \<Rightarrow> Network \<Rightarrow> (NodeId \<times> 'v Message) list \<Rightarrow> Network \<times> 'v transport \<Rightarrow> bool" where
  "delivers tr n ms res \<longleftrightarrow>
     (case res of (n', tr') \<Rightarrow>
        pool_ok (netClient n') tr' \<and> netPeers n' = netPeers n \<and>
        (\<exists>xs. subseq xs ms \<and> arrived tr' = arrived tr @ map (addressed (netPeers n)) xs \<and>
           (no_faults tr \<longrightarrow> xs = ms \<and> no_faults tr')))"

lemma Network_Send_delivers:
  assumes "pool_ok (netClient n) tr" "Network_Send wire d m n tr = (r, n', tr')"
  shows "delivers tr n (if d \<in> gm_dom (netPeers n) then [(d, wire_message wire m)] else []) (n', tr') \<and>
    (r = None \<longleftrightarrow> arrived tr' \<noteq> arrived tr)"
proof (cases "map_of (netPeers n) d")
  case None
  then have "d \<notin> gm_dom (netPeers n)" by (simp flip: map_of_None_iff)
  with None show ?thesis using assms by (auto simp: Network_Send_def delivers_def)
next
  case (Some addr)
  obtain r1 c t where s: "Client_Send wire addr m (netClient n) tr = (r1, c, t)" by (metis prod_cases3)
  have st: "sent wire addr m tr (r1, c, t)" using Client_Send_sent [OF assms(1), of wire addr m] s by simp
  have res: "r = r1" "n' = n\<lparr>netClient := c\<rparr>" "tr' = t" using assms(2) Some s by (auto simp: Network_Send_def)
  let ?xs = "if r1 = None then [(d, wire_message wire m)] else []"
  have "subseq ?xs [(d, wire_message wire m)]" by simp
  moreover have "arrived t = arrived tr @ map (addressed (netPeers n)) ?xs"
    using st Some by (simp add: sent_def addressed_def)
  ultimately show ?thesis
    using st gm_dom_SomeD [OF Some] unfolding delivers_def res prod.case
    by (intro conjI exI [of _ ?xs]) (auto simp: sent_def)
qed

lemma broadcast_loop_delivers:
  assumes "pool_ok (netClient n) tr" "set ids \<subseteq> gm_dom (netPeers n)"
  shows "delivers tr n (map (\<lambda>d. (d, wire_message wire m)) ids) (broadcast_loop wire m ids n tr)"
  using assms
proof (induction ids arbitrary: n tr)
  case Nil
  then show ?case by (simp add: delivers_def)
next
  case (Cons d ids)
  obtain r n1 t1 where s: "Network_Send wire d m n tr = (r, n1, t1)" by (metis prod_cases3)
  obtain xs where xs: "pool_ok (netClient n1) t1" "netPeers n1 = netPeers n" "subseq xs [(d, wire_message wire m)]"
      "arrived t1 = arrived tr @ map (addressed (netPeers n)) xs"
      "no_faults tr \<longrightarrow> xs = [(d, wire_message wire m)] \<and> no_faults t1"
    using Network_Send_delivers [OF Cons.prems(1) s] Cons.prems(2) by (auto simp: delivers_def)
  obtain n2 t2 where l: "broadcast_loop wire m ids n1 t1 = (n2, t2)" by force
  have "delivers t1 n1 (map (\<lambda>d. (d, wire_message wire m)) ids) (n2, t2)"
    using Cons.IH [OF xs(1)] Cons.prems(2) xs(2) l by simp
  then obtain ys where ys: "pool_ok (netClient n2) t2" "netPeers n2 = netPeers n"
      "subseq ys (map (\<lambda>d. (d, wire_message wire m)) ids)"
      "arrived t2 = arrived t1 @ map (addressed (netPeers n)) ys"
      "no_faults t1 \<longrightarrow> ys = map (\<lambda>d. (d, wire_message wire m)) ids \<and> no_faults t2"
    by (auto simp: delivers_def xs(2))
  have "subseq (xs @ ys) ([(d, wire_message wire m)] @ map (\<lambda>d. (d, wire_message wire m)) ids)"
    by (rule list_emb_append_mono [OF xs(3) ys(3)])
  then show ?case
    using xs ys l by (auto simp: delivers_def s intro!: exI [of _ "xs @ ys"])
qed

lemma others_loop_filter: "others_loop wire m sender ids n tr = broadcast_loop wire m (filter (\<lambda>d. d \<noteq> sender) ids) n tr"
  by (induction wire m sender ids n tr rule: others_loop.induct) (auto split: prod.splits)

lemma run_effect_delivers:
  assumes "pool_ok (netClient n) tr" "run_effect wire eff n tr = (r, n', tr')"
  shows "delivers tr n (sends wire (map fst (netPeers n)) eff) (n', tr')"
proof (cases eff)
  case (Broadcast m)
  then show ?thesis
    using assms broadcast_loop_delivers [OF assms(1), of "map fst (netPeers n)" wire m]
    by (auto simp: Network_Broadcast_def gm_dom_def)
next
  case (BroadcastToOthers m sender)
  then show ?thesis
    using assms broadcast_loop_delivers [OF assms(1), of "filter (\<lambda>d. d \<noteq> sender) (map fst (netPeers n))" wire m]
    by (auto simp: Network_BroadcastToOthers_def others_loop_filter gm_dom_def)
next
  case (Send d m)
  then show ?thesis
    using Network_Send_delivers [OF assms(1), of wire d m r n' tr'] assms(2) by (auto simp: gm_dom_def)
next
  case (OnLearn v)
  then show ?thesis using assms by (simp add: delivers_def)
qed

section \<open>Properties\<close>

text \<open>
  C9: the connection pool refines the lossy network of the protocol model. Whatever dials, writes
  and closes fail, a call of \<open>Send\<close>, \<open>Broadcast\<close> or \<open>BroadcastToOthers\<close> writes a subsequence of
  the messages that the model sends, each at most once, in order and to the address of its
  destination, and all of them when nothing fails; every pooled connection stays open and leads to
  the address it is pooled under.
\<close>

theorem network_refines_sends:
  assumes "pool_ok (netClient n) tr" "run_effect wire eff n tr = (r, n', tr')"
  shows "pool_ok (netClient n') tr' \<and> netPeers n' = netPeers n \<and>
    (\<exists>xs. subseq xs (sends wire (map fst (netPeers n)) eff) \<and>
       arrived tr' = arrived tr @ map (\<lambda>(d, m). (the (map_of (netPeers n) d), m)) xs \<and>
       (faults tr = [] \<longrightarrow> xs = sends wire (map fst (netPeers n)) eff))"
  using run_effect_delivers [OF assms]
  by (auto simp: delivers_def no_faults_def addressed_def [abs_def] case_prod_beta)

theorem network_refines_sends_witness:
  "let n = NewNetwork ''a'' [(''N1'', ''a''), (''N2'', ''b'')];
       tr = \<lparr>nextConn = 0, connAddr = (\<lambda>_. []), openConns = [], arrived = [], faults = [Some ''refused'']\<rparr>;
       m = NewMessage ''N1'' (command Propose (5::nat));
       (r, n', tr') = run_effect id (Broadcast m) n tr
   in arrived tr' = [(''b'', m)] \<and> pool_ok (netClient n') tr'"
proof -
  let ?n = "NewNetwork ''a'' [(''N1'', ''a''), (''N2'', ''b'')]"
  let ?tr = "\<lparr>nextConn = 0, connAddr = (\<lambda>_. []), openConns = [], arrived = [], faults = [Some ''refused'']\<rparr> :: nat transport"
  let ?m = "NewMessage ''N1'' (command Propose (5::nat))"
  obtain r n' tr' where s: "run_effect id (Broadcast ?m) ?n ?tr = (r, n', tr')" by (metis prod_cases3)
  have "pool_ok (netClient ?n) ?tr" by (simp add: pool_ok_def NewNetwork_def NewClient_def)
  from network_refines_sends [OF this s] have "pool_ok (netClient n') tr'" by blast
  moreover have "arrived (snd (snd (run_effect id (Broadcast ?m) ?n ?tr))) = [(''b'', ?m)]"
    by (simp add: Network_Broadcast_def Network_Send_def Client_Send_def Client_connect_def net_Dial_def next_fault_def
        send_on_def Connection_Send_def NewNetwork_def NewClient_def gm_set_def wire_message_def NewMessage_def command_def Let_def)
  ultimately show ?thesis using s by simp
qed

section \<open>Leaks\<close>

text \<open>
  A second connection that fails is taken out of the pool but not closed; and of two sends that
  connect at the same time, the first connection is overwritten in the pool.
\<close>

lemma retry_failure_leaks:
  "let tr = \<lparr>nextConn = 0, connAddr = (\<lambda>_. []), openConns = [], arrived = [],
             faults = [None, Some ''broken pipe'', None, None, Some ''reset'']\<rparr>;
       (r, c, tr') = Client_Send id ''b'' (NewMessage ''N1'' (command Propose (5::nat))) NewClient tr
   in r = Some ''reset'' \<and> pool c = [] \<and> openConns tr' = [1]"
  by (simp add: Client_Send_def Client_connect_def net_Dial_def next_fault_def send_on_def Connection_Send_def
      Connection_Close_def NewClient_def gm_set_def gm_delete_def Let_def)

lemma concurrent_connect_leaks:
  "let tr = \<lparr>nextConn = 0, connAddr = (\<lambda>_. []), openConns = [], arrived = [], faults = []\<rparr> :: nat transport;
       (r1, c1, tr1) = Client_connect ''b'' NewClient tr;
       (r2, c2, tr2) = Client_connect ''b'' c1 tr1;
       (e, c3, tr3) = Client_Close c2 tr2
   in e = None \<and> pool c3 = [] \<and> openConns tr3 = [0]"
  by (simp add: Client_connect_def net_Dial_def next_fault_def Client_Close_def Connection_Close_def NewClient_def
      gm_set_def Let_def)

end
