(* ===== verification/Lifecycle.thy ===== *)
theory Lifecycle
  imports P2pClient
begin

text \<open>
  The receiving side of \<open>internal/p2p\<close> (\<open>Server\<close>) and \<open>internal/node\<close>: the accept loop, one
  handler goroutine per connection, the bounded channel to the node, the node's reader, the
  goroutines it starts for each message, and \<open>Node.Stop\<close> with \<open>Server.Close\<close> in it. An event is
  one step of one goroutine between two operations that may block; \<open>None\<close> means the step is not
  enabled. \<open>zero\<close> is the zero message that \<open>Receive\<close> returns beside an error.
\<close>

definition MsgChanSize :: nat where
  "MsgChanSize = 100"

text \<open>
  A handler: not yet registered; in \<open>Receive\<close>; with what it returned, before the test of
  \<open>done\<close>; sending to the channel; running its deferred calls.
\<close>

datatype 'm hphase = HStart | HReceive | HGot 'm | HSend 'm | HLeaving

datatype 'm recv = GotMsg 'm | GotEOF | GotLost | GotClosed

text \<open>The progress of \<open>Node.Stop\<close>; \<open>Stopped\<close> is its return.\<close>

datatype stop_phase = Running | WaitNode | SrvClose | CloseListener | LockConns | CloseConns "conn list" | WaitServer | Stopped

record 'm lifecycle =
  srvDone :: bool
  listenerOpen :: bool
  accepting :: bool
  handlers :: "(conn, 'm hphase) gomap"
  activeConnections :: "conn list"
  closedConns :: "conn list"
  srvLocked :: bool
  msgChan :: "'m list"
  nodeDone :: bool
  reader :: bool
  dispatching :: "'m list"
  handled :: "'m list"
  stopPhase :: stop_phase

text \<open>\<open>NewServer\<close> and \<open>NewNode\<close>: nothing has been started.\<close>

definition NewNode :: "'m lifecycle" where
  "NewNode =
     \<lparr>srvDone = False, listenerOpen = False, accepting = False, handlers = [], activeConnections = [],
      closedConns = [], srvLocked = False, msgChan = [], nodeDone = False, reader = False,
      dispatching = [], handled = [], stopPhase = Running\<rparr>"

text \<open>
  \<open>Server.Listen\<close> up to the start of the accept loop: it binds the port of its address on all
  interfaces. \<open>netListen\<close> is the error of \<open>net.Listen\<close> on an address, if any.
\<close>

definition Server_Listen ::
    "(string \<Rightarrow> error option) \<Rightarrow> string \<Rightarrow> 'm lifecycle \<Rightarrow> error + 'm lifecycle" where
  "Server_Listen netListen address s =
     (case SplitHostPort address of
        Inl err \<Rightarrow> Inl err
      | Inr (host, port) \<Rightarrow>
          (let bindAddress = ''[::]:'' @ port
           in case netListen bindAddress of
                Some err \<Rightarrow> Inl err
              | None \<Rightarrow> Inr (s\<lparr>listenerOpen := True, msgChan := [], accepting := True\<rparr>)))"

definition Network_Listen ::
    "(string \<Rightarrow> error option) \<Rightarrow> string \<Rightarrow> 'm lifecycle \<Rightarrow> error + 'm lifecycle" where
  "Network_Listen netListen address s =
     (case Server_Listen netListen address s of
        Inl err \<Rightarrow> Inl (''network: failed to start listening: '' @ err)
      | Inr s \<Rightarrow> Inr s)"

text \<open>\<open>Node.Start\<close>: without the network it returns the error and starts nothing.\<close>

definition Node_Start :: "(string \<Rightarrow> error option) \<Rightarrow> string \<Rightarrow> 'm lifecycle \<Rightarrow> error + 'm lifecycle" where
  "Node_Start netListen address s =
     (case Network_Listen netListen address s of
        Inl err \<Rightarrow> Inl err
      | Inr s \<Rightarrow> Inr (s\<lparr>reader := True\<rparr>))"

datatype 'm node_event =
    AcceptConn conn | AcceptFails error
  | Register conn | ReceiveOn conn "'m recv" | CheckDone conn | PushMsg conn | Leave conn
  | ReadMsg | ReaderStops | Dispatch nat
  | StopCloseDone | StopNodeWaited | StopSrvDone | StopListener bool | StopLock | StopCloseConn bool | StopUnlock
  | StopWaited

definition set_phase :: "conn \<Rightarrow> 'm hphase \<Rightarrow> 'm lifecycle \<Rightarrow> 'm lifecycle" where
  "set_phase c p s = s\<lparr>handlers := gm_set c p (handlers s)\<rparr>"

text \<open>\<open>Server.Listen\<close>'s accept loop and \<open>handleConnection\<close>.\<close>

definition receive_step :: "'m \<Rightarrow> 'm lifecycle \<Rightarrow> conn \<Rightarrow> 'm recv \<Rightarrow> 'm lifecycle option" where
  "receive_step zero s c r =
     (if map_of (handlers s) c = Some HReceive then
        (case r of
           GotMsg m \<Rightarrow> if c \<in> set (closedConns s) then None else Some (set_phase c (HGot m) s)
         | GotEOF \<Rightarrow> if c \<in> set (closedConns s) then None else Some (set_phase c HLeaving s)
         | GotLost \<Rightarrow> if c \<in> set (closedConns s) then None else Some (set_phase c HLeaving s)
         | GotClosed \<Rightarrow> if c \<in> set (closedConns s) then Some (set_phase c (HGot zero) s) else None)
      else None)"

text \<open>\<open>Accept\<close> fails with the text that \<open>isClosingNetwork\<close> looks for just when its listener is closed.\<close>

definition isClosingNetwork :: "error \<Rightarrow> bool" where
  "isClosingNetwork err \<longleftrightarrow> Contains err ''use of closed network connection''"

definition closed_error :: error where
  "closed_error = ''accept tcp [::]:8031: use of closed network connection''"

lemma isClosingNetwork_closed [simp]: "isClosingNetwork closed_error"
  by code_simp

fun server_step :: "'m \<Rightarrow> nat \<Rightarrow> 'm lifecycle \<Rightarrow> 'm node_event \<Rightarrow> 'm lifecycle option" where
  "server_step zero cap s (AcceptConn c) =
     (if accepting s \<and> listenerOpen s \<and> c \<notin> gm_dom (handlers s) \<and> c \<notin> set (closedConns s)
      then Some (set_phase c HStart s) else None)"
| "server_step zero cap s (AcceptFails err) =
     (if accepting s \<and> (isClosingNetwork err \<longleftrightarrow> \<not> listenerOpen s)
      then Some (if isClosingNetwork err then s\<lparr>accepting := False\<rparr> else s) else None)"
| "server_step zero cap s (Register c) =
     (if map_of (handlers s) c = Some HStart \<and> \<not> srvLocked s
      then Some (set_phase c HReceive (s\<lparr>activeConnections := c # activeConnections s\<rparr>)) else None)"
| "server_step zero cap s (ReceiveOn c r) = receive_step zero s c r"
| "server_step zero cap s (CheckDone c) =
     (case map_of (handlers s) c of
        Some (HGot m) \<Rightarrow> Some (set_phase c (if srvDone s then HLeaving else HSend m) s)
      | _ \<Rightarrow> None)"
| "server_step zero cap s (PushMsg c) =
     (case map_of (handlers s) c of
        Some (HSend m) \<Rightarrow>
          if length (msgChan s) < cap then Some (set_phase c HReceive (s\<lparr>msgChan := msgChan s @ [m]\<rparr>)) else None
      | _ \<Rightarrow> None)"
| "server_step zero cap s (Leave c) =
     (if map_of (handlers s) c = Some HLeaving \<and> \<not> srvLocked s
      then Some (s\<lparr>handlers := gm_delete c (handlers s), activeConnections := removeAll c (activeConnections s),
                    closedConns := c # closedConns s\<rparr>)
      else None)"
| "server_step zero cap s _ = None"

text \<open>\<open>handleIncomingMsgChannel\<close> and the goroutines it starts.\<close>

definition remove_nth :: "nat \<Rightarrow> 'a list \<Rightarrow> 'a list" where
  "remove_nth k xs = take k xs @ drop (Suc k) xs"

fun node_step :: "'m lifecycle \<Rightarrow> 'm node_event \<Rightarrow> 'm lifecycle option" where
  "node_step s ReadMsg =
     (case msgChan s of
        m # ms \<Rightarrow> if reader s then Some (s\<lparr>msgChan := ms, dispatching := dispatching s @ [m]\<rparr>) else None
      | [] \<Rightarrow> None)"
| "node_step s ReaderStops = (if reader s \<and> nodeDone s then Some (s\<lparr>reader := False\<rparr>) else None)"
| "node_step s (Dispatch k) =
     (if k < length (dispatching s)
      then Some (s\<lparr>dispatching := remove_nth k (dispatching s),
                    handled := (if nodeDone s then handled s else handled s @ [dispatching s ! k])\<rparr>)
      else None)"
| "node_step s _ = None"

text \<open>
  \<open>Node.Stop\<close>: close \<open>done\<close>, wait for the reader and its goroutines (then \<open>la.Stop\<close>), and
  \<open>Server.Close\<close>: close its \<open>done\<close>, the listener, under the mutex every active connection, then
  wait for all its goroutines. An error of a close returns at once, with the mutex still locked in
  the loop over the connections.
\<close>

fun stop_step :: "'m lifecycle \<Rightarrow> 'm node_event \<Rightarrow> 'm lifecycle option" where
  "stop_step s StopCloseDone =
     (if stopPhase s = Running then Some (s\<lparr>nodeDone := True, stopPhase := WaitNode\<rparr>) else None)"
| "stop_step s StopNodeWaited =
     (if stopPhase s = WaitNode \<and> \<not> reader s \<and> dispatching s = [] then Some (s\<lparr>stopPhase := SrvClose\<rparr>) else None)"
| "stop_step s StopSrvDone =
     (if stopPhase s = SrvClose then Some (s\<lparr>srvDone := True, stopPhase := CloseListener\<rparr>) else None)"
| "stop_step s (StopListener err) =
     (if stopPhase s = CloseListener
      then (if err then Some (s\<lparr>stopPhase := Stopped\<rparr>) else Some (s\<lparr>listenerOpen := False, stopPhase := LockConns\<rparr>))
      else None)"
| "stop_step s StopLock =
     (if stopPhase s = LockConns \<and> \<not> srvLocked s
      then Some (s\<lparr>srvLocked := True, stopPhase := CloseConns (activeConnections s)\<rparr>) else None)"
| "stop_step s (StopCloseConn err) =
     (case stopPhase s of
        CloseConns (c # cs) \<Rightarrow>
          if err then Some (s\<lparr>stopPhase := Stopped\<rparr>)
          else Some (s\<lparr>closedConns := c # closedConns s, stopPhase := CloseConns cs\<rparr>)
      | _ \<Rightarrow> None)"
| "stop_step s StopUnlock =
     (if stopPhase s = CloseConns [] then Some (s\<lparr>srvLocked := False, stopPhase := WaitServer\<rparr>) else None)"
| "stop_step s StopWaited =
     (if stopPhase s = WaitServer \<and> \<not> accepting s \<and> handlers s = [] then Some (s\<lparr>stopPhase := Stopped\<rparr>) else None)"
| "stop_step s _ = None"

definition lifecycle_step :: "'m \<Rightarrow> nat \<Rightarrow> 'm lifecycle \<Rightarrow> 'm node_event \<Rightarrow> 'm lifecycle option" where
  "lifecycle_step zero cap s e =
     (case server_step zero cap s e of
        Some t \<Rightarrow> Some t
      | None \<Rightarrow> (case node_step s e of Some t \<Rightarrow> Some t | None \<Rightarrow> stop_step s e))"

fun lifecycle_run :: "'m \<Rightarrow> nat \<Rightarrow> 'm lifecycle \<Rightarrow> 'm node_event list \<Rightarrow> 'm lifecycle option" where
  "lifecycle_run zero cap s [] = Some s"
| "lifecycle_run zero cap s (e # es) =
     (case lifecycle_step zero cap s e of None \<Rightarrow> None | Some t \<Rightarrow> lifecycle_run zero cap t es)"

text \<open>\<open>Node.SendTo\<close>.\<close>

definition Node_SendTo ::
    "('v \<Rightarrow> 'v) \<Rightarrow> NodeId \<Rightarrow> NodeId \<Rightarrow> 'v Command \<Rightarrow> Network \<Rightarrow> 'v transport \<Rightarrow> error option \<times> Network \<times> 'v transport" where
  "Node_SendTo wire self nodeId cmd n tr = Network_Send wire nodeId (NewMessage self cmd) n tr"

lemma lifecycle_run_append:
  "lifecycle_run zero cap s (es @ fs) =
     (case lifecycle_run zero cap s es of None \<Rightarrow> None | Some t \<Rightarrow> lifecycle_run zero cap t fs)"
  by (induction es arbitrary: s) (auto split: option.splits)

lemma run_invariant:
  assumes "\<And>s e t. P s \<Longrightarrow> Q e \<Longrightarrow> lifecycle_step zero cap s e = Some t \<Longrightarrow> P t"
  shows "P s \<Longrightarrow> list_all Q es \<Longrightarrow> lifecycle_run zero cap s es = Some t \<Longrightarrow> P t"
proof (induction es arbitrary: s)
  case (Cons e es)
  then show ?case using assms by (auto split: option.splits)
qed simp

section \<open>A stopping node\<close>

lemma nodeDone_step:
  assumes "nodeDone s" "lifecycle_step zero cap s e = Some t"
  shows "nodeDone t \<and> handled t = handled s"
  using assms
  by (cases e) (auto simp: lifecycle_step_def receive_step_def set_phase_def
      split: option.splits if_splits list.splits recv.splits hphase.splits stop_phase.splits)

text \<open>
  Once nobody reads the channel and it is full, a handler that sends stays blocked, and so does the
  wait at the end of \<open>Server.Close\<close>.
\<close>

definition jammed :: "nat \<Rightarrow> conn \<Rightarrow> 'm lifecycle \<Rightarrow> bool" where
  "jammed cap c s \<longleftrightarrow>
     nodeDone s \<and> \<not> reader s \<and> length (msgChan s) = cap \<and> (\<exists>m. map_of (handlers s) c = Some (HSend m)) \<and>
     stopPhase s \<noteq> Stopped"

fun close_ok :: "'m node_event \<Rightarrow> bool" where
  "close_ok (StopListener err) = (\<not> err)"
| "close_ok (StopCloseConn err) = (\<not> err)"
| "close_ok _ = True"

lemma jammed_step:
  assumes "jammed cap c s" "close_ok e" "lifecycle_step zero cap s e = Some t"
  shows "jammed cap c t"
proof -
  obtain m where m: "map_of (handlers s) c = Some (HSend m)" using assms(1) by (auto simp: jammed_def)
  then have dom: "c \<in> gm_dom (handlers s)" "handlers s \<noteq> []" by (auto dest: gm_dom_SomeD)
  show ?thesis
    using assms m dom
    by (cases e) (auto simp: lifecycle_step_def receive_step_def set_phase_def jammed_def gm_simps
        split: option.splits if_splits list.splits recv.splits hphase.splits stop_phase.splits)
qed

text \<open>One message from the connection to the channel.\<close>

definition pump :: "conn \<Rightarrow> 'm \<Rightarrow> 'm node_event list" where
  "pump c m = [ReceiveOn c (GotMsg m), CheckDone c, PushMsg c]"

lemma step_defs:
  "lifecycle_step zero cap s e =
     (case server_step zero cap s e of
        Some t \<Rightarrow> Some t
      | None \<Rightarrow> (case node_step s e of Some t \<Rightarrow> Some t | None \<Rightarrow> stop_step s e))"
  "gm_set c p [(c, q)] = [(c, p)]" "gm_set c p [] = [(c, p)]"
  by (simp_all add: lifecycle_step_def gm_set_def)

lemma pump_run:
  assumes "handlers s = [(c, HReceive)]" "\<not> srvDone s" "c \<notin> set (closedConns s)" "length (msgChan s) + k \<le> cap"
  shows "lifecycle_run zero cap s (concat (replicate k (pump c m))) = Some (s\<lparr>msgChan := msgChan s @ replicate k m\<rparr>)"
  using assms
proof (induction k arbitrary: s)
  case (Suc k)
  let ?s = "s\<lparr>msgChan := msgChan s @ [m]\<rparr>"
  have one: "lifecycle_run zero cap s (pump c m) = Some ?s"
    using Suc.prems by (simp add: pump_def step_defs receive_step_def set_phase_def)
  have "lifecycle_run zero cap s (concat (replicate (Suc k) (pump c m))) =
      lifecycle_run zero cap ?s (concat (replicate k (pump c m)))"
    by (simp add: lifecycle_run_append one)
  also have "\<dots> = Some (?s\<lparr>msgChan := msgChan ?s @ replicate k m\<rparr>)"
    by (rule Suc.IH) (use Suc.prems in simp_all)
  finally show ?case by simp
qed simp

definition jam :: "'m \<Rightarrow> 'm node_event list" where
  "jam m = [AcceptConn 0, Register 0, StopCloseDone, ReaderStops] @ concat (replicate MsgChanSize (pump 0 m)) @
     [ReceiveOn 0 (GotMsg m), CheckDone 0]"

definition jammed_state :: "'m \<Rightarrow> 'm lifecycle" where
  "jammed_state m =
     \<lparr>srvDone = False, listenerOpen = True, accepting = True, handlers = [(0, HSend m)], activeConnections = [0],
      closedConns = [], srvLocked = False, msgChan = replicate MsgChanSize m, nodeDone = True, reader = False,
      dispatching = [], handled = [], stopPhase = WaitNode\<rparr>"

lemma jam_run:
  assumes "Node_Start netListen address NewNode = Inr s0"
  shows "lifecycle_run zero MsgChanSize s0 (jam m) = Some (jammed_state m)"
proof -
  let ?s = "s0\<lparr>handlers := [(0, HReceive)], activeConnections := [0], nodeDone := True, reader := False, stopPhase := WaitNode\<rparr>"
  have s0: "s0 = \<lparr>srvDone = False, listenerOpen = True, accepting = True, handlers = [], activeConnections = [],
       closedConns = [], srvLocked = False, msgChan = [], nodeDone = False, reader = True,
       dispatching = [], handled = [], stopPhase = Running\<rparr>"
    using assms by (auto simp: Node_Start_def Network_Listen_def Server_Listen_def NewNode_def split: sum.splits option.splits)
  have "lifecycle_run zero MsgChanSize s0 [AcceptConn 0, Register 0, StopCloseDone, ReaderStops] = Some ?s"
    by (simp add: s0 step_defs set_phase_def)
  moreover have "lifecycle_run zero MsgChanSize ?s (concat (replicate MsgChanSize (pump 0 m))) =
      Some (?s\<lparr>msgChan := replicate MsgChanSize m\<rparr>)"
    using pump_run [of ?s 0 MsgChanSize MsgChanSize zero m] by (simp add: s0)
  moreover have "lifecycle_run zero MsgChanSize (?s\<lparr>msgChan := replicate MsgChanSize m\<rparr>)
      [ReceiveOn 0 (GotMsg m), CheckDone 0] = Some (jammed_state m)"
    by (simp add: s0 step_defs set_phase_def receive_step_def jammed_state_def)
  ultimately show ?thesis by (simp only: jam_def lifecycle_run_append option.case)
qed

lemma jammed_state_jammed: "jammed MsgChanSize 0 (jammed_state m)"
  by (simp add: jammed_def jammed_state_def)

text \<open>\<open>Stop\<close> goes on until it waits for the server's goroutines.\<close>

lemma jammed_stop_run:
  "\<exists>t. lifecycle_run zero MsgChanSize (jammed_state m)
     [StopNodeWaited, StopSrvDone, StopListener False, AcceptFails closed_error, StopLock, StopCloseConn False, StopUnlock] = Some t \<and>
     stopPhase t = WaitServer"
  by (simp add: jammed_state_def step_defs)

section \<open>Properties\<close>

text \<open>
  C20: \<open>Node.Stop\<close> can hang, and it is silent meanwhile. From the start of a node there is a run
  with one connection in which the peer goes on sending after \<open>Stop\<close> has ended the reader: the
  channel of \<open>MsgChanSize\<close> messages fills up and the connection's handler blocks in its send. In
  no continuation of that run, in which the closes succeed, does \<open>Stop\<close> return, and no message
  is handed to the router any more.
\<close>

theorem node_stop_can_hang:
  assumes "Node_Start netListen address NewNode = Inr s0"
  shows "\<exists>s. lifecycle_run zero MsgChanSize s0 (jam m) = Some s \<and> nodeDone s \<and>
    (\<forall>es t. list_all close_ok es \<and> lifecycle_run zero MsgChanSize s es = Some t \<longrightarrow>
       stopPhase t \<noteq> Stopped \<and> handled t = handled s)"
proof -
  let ?s = "jammed_state m"
  note s = jam_run [OF assms, of zero m] jammed_state_jammed [of m]
  have "stopPhase t \<noteq> Stopped \<and> handled t = handled ?s"
    if t: "list_all close_ok es" "lifecycle_run zero MsgChanSize ?s es = Some t" for es t
  proof -
    have "jammed MsgChanSize 0 t \<and> handled t = handled ?s"
    proof (rule run_invariant [where P = "\<lambda>t. jammed MsgChanSize 0 t \<and> handled t = handled ?s" and Q = close_ok, OF _ _ t])
      fix u e v assume u: "jammed MsgChanSize 0 u \<and> handled u = handled ?s" "close_ok e"
        "lifecycle_step zero MsgChanSize u e = Some v"
      then show "jammed MsgChanSize 0 v \<and> handled v = handled ?s"
        using jammed_step [OF _ u(2,3)] nodeDone_step [OF _ u(3)] by (auto simp: jammed_def)
    qed (use s(2) in simp)
    then show ?thesis by (simp add: jammed_def)
  qed
  with s show ?thesis by (intro exI [of _ ?s]) (auto simp: jammed_def)
qed

theorem node_stop_can_hang_witness:
  "\<exists>s t. lifecycle_run (0::nat) MsgChanSize (projr (Node_Start (\<lambda>_. None) ''localhost:8031'' NewNode)) (jam 7) = Some s \<and>
     lifecycle_run 0 MsgChanSize s
       [StopNodeWaited, StopSrvDone, StopListener False, AcceptFails closed_error, StopLock, StopCloseConn False, StopUnlock] = Some t \<and>
     stopPhase t = WaitServer \<and> handled t = handled s"
proof -
  obtain s0 :: "nat lifecycle" where s0: "Node_Start (\<lambda>_. None) ''localhost:8031'' NewNode = Inr s0"
    using SplitHostPort_plain [of "''localhost''" "''8031''"] by (simp add: Node_Start_def Network_Listen_def Server_Listen_def)
  obtain t where t: "lifecycle_run 0 MsgChanSize (jammed_state (7::nat))
      [StopNodeWaited, StopSrvDone, StopListener False, AcceptFails closed_error, StopLock, StopCloseConn False, StopUnlock] = Some t"
      "stopPhase t = WaitServer" using jammed_stop_run [of "0::nat" "7::nat"] by (elim exE conjE)
  have ok: "list_all close_ok
      [StopNodeWaited, StopSrvDone, StopListener False, AcceptFails closed_error, StopLock, StopCloseConn False, StopUnlock]" by simp
  obtain s where s: "lifecycle_run 0 MsgChanSize s0 (jam (7::nat)) = Some s"
      "\<forall>es t. list_all close_ok es \<and> lifecycle_run 0 MsgChanSize s es = Some t \<longrightarrow>
         stopPhase t \<noteq> Stopped \<and> handled t = handled s"
    using node_stop_can_hang [OF s0, of 0 7] by blast
  have eq: "s = jammed_state 7" using s(1) jam_run [OF s0, of 0 7] by (simp only: option.inject)
  have "handled t = handled s" using s(2) ok t(1) unfolding eq by blast
  with s(1) t show ?thesis unfolding s0 eq sum.sel by blast
qed

end
