(* ===== verification/GoFloat.thy ===== *)
theory GoFloat
  imports Complex_Main "HOL-Library.Log_Nat" Go_Prelude
begin

text \<open>
  Go's \<open>float64\<close>, as far as the limiter uses it: addition, subtraction, multiplication and
  division rounded to 53 significant bits, ties to even, and the conversions from and to integers.
  Finite values are rationals. The exponent range is not limited: the limiter's values are 0 or lie
  between \<open>2^-64\<close> and \<open>2^66\<close>, far inside it. There is no negative zero.
\<close>

datatype f64 = Fin rat | Infinite bool | NaN

section \<open>Rounding\<close>

definition floor_log2 :: "rat \<Rightarrow> int" where
  "floor_log2 x =
     (case quotient_of x of (p, q) \<Rightarrow>
        (let k = bitlen p - bitlen q in if 2 powi k \<le> x then k else k - 1))"

definition round_half_even :: "rat \<Rightarrow> int" where
  "round_half_even y =
     (let f = \<lfloor>y\<rfloor>; r = y - of_int f
      in if r < 1 / 2 then f else if r > 1 / 2 then f + 1 else if even f then f else f + 1)"

definition round_pos :: "rat \<Rightarrow> rat" where
  "round_pos x = (let u = 2 powi (floor_log2 x - 52) in of_int (round_half_even (x / u)) * u)"

definition round53 :: "rat \<Rightarrow> rat" where
  "round53 x = (if x = 0 then 0 else if x > 0 then round_pos x else - round_pos (- x))"

lemma powi_bounds:
  assumes "0 < p"
  shows "2 powi (bitlen p - 1) \<le> (of_int p :: rat)" "(of_int p :: rat) < 2 powi bitlen p"
proof -
  have b: "2 ^ nat (bitlen p - 1) \<le> p" "p < 2 ^ nat (bitlen p)"
    using bitlen_bounds [OF assms] by auto
  have "1 \<le> bitlen p"
    using assms bitlen_eq_zero_iff [of p] bitlen_nonneg [of p] by linarith
  moreover have "(of_int (2 ^ nat (bitlen p - 1)) :: rat) \<le> of_int p"
      "(of_int p :: rat) < of_int (2 ^ nat (bitlen p))"
    using b by (simp_all only: of_int_le_iff of_int_less_iff)
  ultimately show "2 powi (bitlen p - 1) \<le> (of_int p :: rat)" "(of_int p :: rat) < 2 powi bitlen p"
    by (simp_all add: power_int_def)
qed

lemma floor_log2_bounds:
  assumes "0 < x"
  shows "2 powi floor_log2 x \<le> x" "x < 2 powi (floor_log2 x + 1)"
proof -
  obtain p q where pq: "quotient_of x = (p, q)" by force
  have q: "0 < q" and x: "x = of_int p / of_int q"
    using pq by (auto intro: quotient_of_denom_pos quotient_of_div)
  have p: "0 < p" using assms q by (simp add: x zero_less_divide_iff)
  let ?k = "bitlen p - bitlen q"
  have "2 powi ?k * of_int q < (2::rat) powi ?k * 2 powi bitlen q"
    using powi_bounds(2) [OF q] by simp
  also have "\<dots> = 2 * 2 powi (bitlen p - 1)"
    by (subst power_int_add [symmetric]) (simp_all add: power_int_diff)
  also have "\<dots> \<le> 2 * of_int p" using powi_bounds(1) [OF p] by simp
  finally have lo: "2 powi (?k - 1) < x"
    using q by (simp add: x field_simps power_int_diff power_int_add)
  have "of_int p < (2::rat) powi bitlen p" by (rule powi_bounds(2) [OF p])
  also have "\<dots> = 2 powi (?k + 1) * 2 powi (bitlen q - 1)"
    by (subst power_int_add [symmetric]) simp_all
  also have "\<dots> \<le> 2 powi (?k + 1) * of_int q" using powi_bounds(1) [OF q] by simp
  finally have hi: "x < 2 powi (?k + 1)"
    using q by (simp add: x field_simps)
  show "2 powi floor_log2 x \<le> x" "x < 2 powi (floor_log2 x + 1)"
    using lo hi by (auto simp: floor_log2_def pq Let_def)
qed

lemma round_half_even_mono: "y \<le> z \<Longrightarrow> round_half_even y \<le> round_half_even z"
proof -
  assume yz: "y \<le> z"
  then have f: "\<lfloor>y\<rfloor> \<le> \<lfloor>z\<rfloor>" by (rule floor_mono)
  have "round_half_even y \<le> \<lfloor>y\<rfloor> + 1" "\<lfloor>z\<rfloor> \<le> round_half_even z"
    by (auto simp: round_half_even_def Let_def)
  then show ?thesis
    using f yz by (cases "\<lfloor>y\<rfloor> = \<lfloor>z\<rfloor>") (auto simp: round_half_even_def Let_def)
qed

lemma round_half_even_int [simp]: "round_half_even (of_int n) = n"
  by (simp add: round_half_even_def)

lemma round_pos_bounds:
  assumes "0 < x"
  shows "2 powi floor_log2 x \<le> round_pos x" "round_pos x \<le> 2 powi (floor_log2 x + 1)"
proof -
  let ?e = "floor_log2 x"
  let ?u = "2 powi (?e - 52) :: rat"
  have u: "0 < ?u" by simp
  have e: "2 powi ?e = of_int (2 ^ 52) * ?u" "2 powi (?e + 1) = of_int (2 ^ 53) * ?u"
    by (simp_all add: power_int_diff power_int_add)
  have "of_int (2 ^ 52) \<le> x / ?u" "x / ?u \<le> of_int (2 ^ 53)"
    using floor_log2_bounds [OF assms] e u by (simp_all only: pos_le_divide_eq pos_divide_le_eq less_imp_le)
  then have "2 ^ 52 \<le> round_half_even (x / ?u)" "round_half_even (x / ?u) \<le> 2 ^ 53"
    using round_half_even_mono round_half_even_int by metis+
  then have "(of_int (2 ^ 52) :: rat) \<le> of_int (round_half_even (x / ?u))"
      "of_int (round_half_even (x / ?u)) \<le> (of_int (2 ^ 53) :: rat)"
    by (simp_all only: of_int_le_iff)
  then show "2 powi ?e \<le> round_pos x" "round_pos x \<le> 2 powi (?e + 1)"
    using u unfolding round_pos_def Let_def e by (simp_all only: mult_le_cancel_right_pos)
qed

lemma floor_log2_mono:
  assumes "0 < x" "x \<le> y"
  shows "floor_log2 x \<le> floor_log2 y"
proof (rule ccontr)
  assume "\<not> floor_log2 x \<le> floor_log2 y"
  then have "(2 :: rat) powi (floor_log2 y + 1) \<le> 2 powi floor_log2 x"
    by (intro power_int_increasing) simp_all
  also have "\<dots> \<le> x" by (rule floor_log2_bounds(1) [OF assms(1)])
  finally show False
    using floor_log2_bounds(2) [of y] assms by linarith
qed

lemma round_pos_mono:
  assumes "0 < x" "x \<le> y"
  shows "round_pos x \<le> round_pos y"
proof (cases "floor_log2 x = floor_log2 y")
  case True
  then have "round_half_even (x / 2 powi (floor_log2 x - 52)) \<le> round_half_even (y / 2 powi (floor_log2 y - 52))"
    using assms(2) by (intro round_half_even_mono) (simp add: divide_right_mono)
  then show ?thesis using True by (simp add: round_pos_def Let_def)
next
  case False
  then have "floor_log2 x + 1 \<le> floor_log2 y" using floor_log2_mono [OF assms] by simp
  then have "(2 :: rat) powi (floor_log2 x + 1) \<le> 2 powi floor_log2 y" by (intro power_int_increasing) simp_all
  then show ?thesis
    using round_pos_bounds [of x] round_pos_bounds [of y] assms by linarith
qed

lemma round_pos_nonneg: "0 < x \<Longrightarrow> 0 < round_pos x"
  using round_pos_bounds(1) [of x] zero_less_power_int [of "2 :: rat" "floor_log2 x"] by linarith

text \<open>Rounding is monotone and exact on integers below \<open>2^53\<close>.\<close>

lemma round53_mono: "x \<le> y \<Longrightarrow> round53 x \<le> round53 y"
  using round_pos_mono [of x y] round_pos_mono [of "- y" "- x"] round_pos_nonneg [of y]
    round_pos_nonneg [of "- x"]
  by (auto simp: round53_def)

lemma round_pos_int:
  assumes "0 < n" "n < 2 ^ 53"
  shows "round_pos (of_int n) = of_int n"
proof -
  let ?e = "floor_log2 (of_int n)"
  have le: "?e \<le> 52"
  proof (rule ccontr)
    assume "\<not> ?e \<le> 52"
    then have "(2 :: rat) powi 53 \<le> 2 powi ?e" by (intro power_int_increasing) simp_all
    also have "\<dots> \<le> of_int n" using assms by (intro floor_log2_bounds) simp
    finally have "(of_int (2 ^ 53) :: rat) \<le> of_int n" by simp
    then show False using assms(2) by (simp only: of_int_le_iff)
  qed
  have "(2 :: rat) powi (?e - 52) = inverse (2 powi (52 - ?e))"
    by (simp flip: power_int_minus)
  then have "of_int n / 2 powi (?e - 52) = (of_int n * 2 ^ nat (52 - ?e) :: rat)"
    using le by (simp add: power_int_def divide_inverse)
  also have "\<dots> = of_int (n * 2 ^ nat (52 - ?e))" by simp
  finally have q: "of_int n / 2 powi (?e - 52) = (of_int (n * 2 ^ nat (52 - ?e)) :: rat)" .
  have "round_pos (of_int n) = of_int n / 2 powi (?e - 52) * 2 powi (?e - 52)"
    unfolding round_pos_def Let_def q round_half_even_int ..
  then show ?thesis by simp
qed

lemma round53_int: "0 \<le> n \<Longrightarrow> n < 2 ^ 53 \<Longrightarrow> round53 (of_int n) = of_int n"
  by (simp add: round53_def round_pos_int)

lemma round53_0 [simp]: "round53 0 = 0"
  by (simp add: round53_def)

lemma round53_1 [simp]: "round53 1 = 1"
  using round53_int [of 1] by simp

lemma round53_between:
  assumes "of_int a \<le> x" "x \<le> of_int b" "0 \<le> a" "a < 2 ^ 53" "0 \<le> b" "b < 2 ^ 53"
  shows "of_int a \<le> round53 x" "round53 x \<le> of_int b"
  using round53_mono [OF assms(1)] round53_mono [OF assms(2)] assms(3-) by (simp_all add: round53_int)

section \<open>Operations\<close>

fun f64_neg :: "f64 \<Rightarrow> f64" where
  "f64_neg (Fin x) = Fin (- x)"
| "f64_neg (Infinite s) = Infinite (\<not> s)"
| "f64_neg NaN = NaN"

fun f64_add :: "f64 \<Rightarrow> f64 \<Rightarrow> f64" where
  "f64_add (Fin x) (Fin y) = Fin (round53 (x + y))"
| "f64_add NaN y = NaN"
| "f64_add x NaN = NaN"
| "f64_add (Infinite s) (Infinite t) = (if s = t then Infinite s else NaN)"
| "f64_add (Infinite s) (Fin y) = Infinite s"
| "f64_add (Fin x) (Infinite t) = Infinite t"

definition f64_sub :: "f64 \<Rightarrow> f64 \<Rightarrow> f64" where
  "f64_sub x y = f64_add x (f64_neg y)"

fun f64_mul :: "f64 \<Rightarrow> f64 \<Rightarrow> f64" where
  "f64_mul (Fin x) (Fin y) = Fin (round53 (x * y))"
| "f64_mul NaN y = NaN"
| "f64_mul x NaN = NaN"
| "f64_mul (Infinite s) (Infinite t) = Infinite (s = t)"
| "f64_mul (Infinite s) (Fin y) = (if y = 0 then NaN else Infinite (s = (y > 0)))"
| "f64_mul (Fin x) (Infinite t) = (if x = 0 then NaN else Infinite (t = (x > 0)))"

fun f64_div :: "f64 \<Rightarrow> f64 \<Rightarrow> f64" where
  "f64_div (Fin x) (Fin y) = (if y = 0 then (if x = 0 then NaN else Infinite (x > 0)) else Fin (round53 (x / y)))"
| "f64_div NaN y = NaN"
| "f64_div x NaN = NaN"
| "f64_div (Infinite s) (Infinite t) = NaN"
| "f64_div (Infinite s) (Fin y) = Infinite (s = (y \<ge> 0))"
| "f64_div (Fin x) (Infinite t) = Fin 0"

definition f64_of_int :: "int \<Rightarrow> f64" where
  "f64_of_int n = Fin (round53 (of_int n))"

text \<open>Conversion to an integer type truncates; outside the type's range the result is the platform's.\<close>

definition truncate_rat :: "rat \<Rightarrow> int" where
  "truncate_rat x = (if x \<ge> 0 then \<lfloor>x\<rfloor> else - \<lfloor>- x\<rfloor>)"

fun f64_to_uint64 :: "(f64 \<Rightarrow> uint64) \<Rightarrow> f64 \<Rightarrow> uint64" where
  "f64_to_uint64 platform (Fin x) =
     (if 0 \<le> truncate_rat x \<and> truncate_rat x < 2 ^ 64 then word_of_int (truncate_rat x) else platform (Fin x))"
| "f64_to_uint64 platform f = platform f"

fun f64_to_int64 :: "(f64 \<Rightarrow> int) \<Rightarrow> f64 \<Rightarrow> int" where
  "f64_to_int64 platform (Fin x) =
     (if - (2 ^ 63) \<le> truncate_rat x \<and> truncate_rat x < 2 ^ 63 then truncate_rat x else platform (Fin x))"
| "f64_to_int64 platform f = platform f"

text \<open>\<open>math.Ceil\<close>, \<open>math.Round\<close> (half away from zero) and the comparison of floats.\<close>

fun f64_ceil :: "f64 \<Rightarrow> f64" where
  "f64_ceil (Fin x) = Fin (of_int \<lceil>x\<rceil>)"
| "f64_ceil f = f"

fun f64_round :: "f64 \<Rightarrow> f64" where
  "f64_round (Fin x) = Fin (of_int (if x \<ge> 0 then \<lfloor>x + 1 / 2\<rfloor> else - \<lfloor>- x + 1 / 2\<rfloor>))"
| "f64_round f = f"

fun f64_eq :: "f64 \<Rightarrow> f64 \<Rightarrow> bool" where
  "f64_eq (Fin x) (Fin y) = (x = y)"
| "f64_eq (Infinite s) (Infinite t) = (s = t)"
| "f64_eq _ _ = False"

section \<open>The rounding error\<close>

lemma round_half_even_error: "\<bar>of_int (round_half_even y) - y\<bar> \<le> 1 / 2"
proof -
  define f where "f = (of_int \<lfloor>y\<rfloor> :: rat)"
  have f: "f \<le> y" "y < f + 1" unfolding f_def by linarith+
  have "of_int (round_half_even y) =
      (if y - f < 1 / 2 then f else if y - f > 1 / 2 then f + 1 else if even \<lfloor>y\<rfloor> then f else f + 1)"
    by (simp add: round_half_even_def Let_def f_def)
  then show ?thesis using f by (auto simp: abs_if field_simps)
qed

lemma round_pos_error:
  assumes "0 < x"
  shows "\<bar>round_pos x - x\<bar> \<le> x / 2 ^ 53"
proof -
  let ?u = "2 powi (floor_log2 x - 52) :: rat"
  have u: "0 < ?u" by simp
  have "round_pos x - x = (of_int (round_half_even (x / ?u)) - x / ?u) * ?u"
    by (simp add: round_pos_def Let_def algebra_simps)
  then have "\<bar>round_pos x - x\<bar> = \<bar>of_int (round_half_even (x / ?u)) - x / ?u\<bar> * ?u"
    using u by (simp add: abs_mult)
  also have "\<dots> \<le> 1 / 2 * ?u" using round_half_even_error u by (intro mult_right_mono) auto
  also have "\<dots> \<le> x / 2 ^ 53"
    using floor_log2_bounds(1) [OF assms] by (simp add: power_int_diff)
  finally show ?thesis .
qed

lemma round53_error:
  assumes "0 \<le> x"
  shows "x - x / 2 ^ 53 \<le> round53 x" "round53 x \<le> x + x / 2 ^ 53"
proof -
  have "round_pos x - x \<le> x / 2 ^ 53" "- (round_pos x - x) \<le> x / 2 ^ 53" if "0 < x"
    using round_pos_error [OF that] by (simp_all only: abs_le_iff)
  then show "x - x / 2 ^ 53 \<le> round53 x" "round53 x \<le> x + x / 2 ^ 53"
    using assms unfolding round53_def by fastforce+
qed

lemma round53_nonneg [simp]: "0 \<le> x \<Longrightarrow> 0 \<le> round53 x"
  using round53_mono [of 0 x] by simp

lemma round53_pos: "0 < x \<Longrightarrow> 0 < round53 x"
  by (simp add: round53_def round_pos_nonneg)

end
