(* ===== verification/GoTime.thy ===== *)
theory GoTime
  imports GoFloat GoText
begin

text \<open>
  Go's \<open>time\<close> package, as far as the limiter uses it. A \<open>Time\<close> is the number of
  nanoseconds since Go's zero time, 1 January of the year 1, UTC; a \<open>Duration\<close> is a number of
  nanoseconds. Both are unbounded here: the limiter's times and windows fit in the 64 bits of
  Go's types. The calendar is the Gregorian one, computed by running through years and months.
\<close>

type_synonym Time = int
type_synonym Duration = int

definition Second :: Duration where
  "Second = 1000000000"

definition Time_Truncate :: "Time \<Rightarrow> Duration \<Rightarrow> Time" where
  "Time_Truncate t d = (if d \<le> 0 then t else t - t mod d)"

text \<open>Integer division and remainder of Go truncate toward zero.\<close>

definition Duration_Seconds :: "Duration \<Rightarrow> f64" where
  "Duration_Seconds d =
     (let sec = sgn d * (\<bar>d\<bar> div Second); nsec = sgn d * (\<bar>d\<bar> mod Second)
      in f64_add (f64_of_int sec) (f64_div (f64_of_int nsec) (f64_of_int 1000000000)))"

section \<open>The calendar\<close>

definition leap :: "int \<Rightarrow> bool" where
  "leap y \<longleftrightarrow> y mod 4 = 0 \<and> y mod 100 \<noteq> 0 \<or> y mod 400 = 0"

definition year_days :: "int \<Rightarrow> int" where
  "year_days y = (if leap y then 366 else 365)"

definition month_days :: "int \<Rightarrow> int \<Rightarrow> int" where
  "month_days y m =
     (if m = 2 then (if leap y then 29 else 28) else if m \<in> {4, 6, 9, 11} then 30 else 31)"

function year_loop :: "int \<Rightarrow> int \<Rightarrow> int \<times> int" where
  "year_loop y d = (if d < year_days y then (y, d) else year_loop (y + 1) (d - year_days y))"
  by auto
termination
  by (relation "measure (\<lambda>(y, d). nat d)") (auto simp: year_days_def split: if_splits)

function month_loop :: "int \<Rightarrow> int \<Rightarrow> int \<Rightarrow> int \<times> int" where
  "month_loop y m d =
     (if m \<ge> 12 \<or> d < month_days y m then (m, d + 1) else month_loop y (m + 1) (d - month_days y m))"
  by auto
termination
  by (relation "measure (\<lambda>(y, m, d). nat (12 - m))") auto

declare year_loop.simps [simp del] month_loop.simps [simp del]

definition civil :: "int \<Rightarrow> int \<times> int \<times> int" where
  "civil d =
     (let (y, r) = year_loop 1 (d mod 146097); (m, day) = month_loop y 1 r
      in (400 * (d div 146097) + y, m, day))"

definition rfc3339 :: "Time \<Rightarrow> string" where
  "rfc3339 t =
     (let secs = t div Second; (y, m, d) = civil (secs div 86400); s = secs mod 86400
      in pad 4 y @ ''-'' @ pad 2 m @ ''-'' @ pad 2 d @ ''T'' @ pad 2 (s div 3600) @ '':'' @
         pad 2 (s div 60 mod 60) @ '':'' @ pad 2 (s mod 60) @ ''Z'')"

text \<open>In a zone \<open>offset\<close> seconds east of UTC.\<close>

definition zone_suffix :: "int \<Rightarrow> string" where
  "zone_suffix offset =
     (if offset = 0 then ''Z''
      else (let m = \<bar>offset\<bar> div 60
            in (if offset < 0 then ''-'' else ''+'') @ pad 2 (m div 60) @ '':'' @ pad 2 (m mod 60)))"

definition rfc3339_zone :: "int \<Rightarrow> Time \<Rightarrow> string" where
  "rfc3339_zone offset t = butlast (rfc3339 (t + offset * Second)) @ zone_suffix offset"

section \<open>Durations as text\<close>

text \<open>
  \<open>time.ParseDuration\<close>: a sign, then numbers with a fraction and a unit. Fractions are scaled in
  floating point; the amounts stay far below \<open>2 ^ 64\<close>, so the conversion back is exact in range.
  The sum is a \<open>uint64\<close>.
\<close>

definition duration_unit :: "string \<Rightarrow> int option" where
  "duration_unit u =
     (if u = ''ns'' then Some 1
      else if u = ''us'' \<or> u = [CHR 0xC2, CHR 0xB5, CHR ''s''] \<or> u = [CHR 0xCE, CHR 0xBC, CHR ''s''] then Some 1000
      else if u = ''ms'' then Some 1000000
      else if u = ''s'' then Some 1000000000
      else if u = ''m'' then Some 60000000000
      else if u = ''h'' then Some 3600000000000
      else None)"

fun leading_fraction :: "string \<Rightarrow> int \<Rightarrow> f64 \<Rightarrow> bool \<Rightarrow> int \<times> f64" where
  "leading_fraction [] x scale overflow = (x, scale)"
| "leading_fraction (c # s) x scale overflow =
     (if overflow then leading_fraction s x scale True
      else if x > (2 ^ 63 - 1) div 10 \<or> 10 * x + digit_value c > 2 ^ 63 then leading_fraction s x scale True
      else leading_fraction s (10 * x + digit_value c) (f64_mul scale (f64_of_int 10)) False)"

definition number_char :: "char \<Rightarrow> bool" where
  "number_char c \<longleftrightarrow> c = CHR ''.'' \<or> is_digit c"

text \<open>One number with its unit: the nanoseconds, and the text after it.\<close>

definition duration_part :: "string \<Rightarrow> (int \<times> string) option" where
  "duration_part s =
     (if \<not> number_char (hd s) then None
      else case parse_loop (2 ^ 63) (takeWhile is_digit s) 0 of
        Inl e \<Rightarrow> None
      | Inr v \<Rightarrow>
          (let pre = takeWhile is_digit s \<noteq> [];
               s = dropWhile is_digit s;
               point = (s \<noteq> [] \<and> hd s = CHR ''.'');
               fraction = (if point then takeWhile is_digit (tl s) else []);
               s = (if point then dropWhile is_digit (tl s) else s);
               (f, scale) = leading_fraction fraction 0 (f64_of_int 1) False;
               u = takeWhile (\<lambda>c. \<not> number_char c) s
           in if \<not> pre \<and> fraction = [] then None
              else if u = [] then None
              else case duration_unit u of
                None \<Rightarrow> None
              | Some unit \<Rightarrow>
                  if v > 2 ^ 63 div unit then None
                  else
                    (let v = v * unit;
                         v = (if f > 0
                              then v + uint (f64_to_uint64 (\<lambda>_. 0)
                                     (f64_mul (f64_of_int f) (f64_div (f64_of_int unit) scale)))
                              else v)
                     in if v > 2 ^ 63 then None else Some (v, dropWhile (\<lambda>c. \<not> number_char c) s))))"

lemma duration_part_shorter: "duration_part s = Some (v, r) \<Longrightarrow> s \<noteq> [] \<Longrightarrow> length r < length s"
proof -
  assume a: "duration_part s = Some (v, r)" "s \<noteq> []"
  define t where "t = dropWhile is_digit s"
  define q where "q = (if t \<noteq> [] \<and> hd t = CHR ''.'' then dropWhile is_digit (tl t) else t)"
  have "length q \<le> length s"
    using length_dropWhile_le [of is_digit s] length_dropWhile_le [of is_digit "tl t"]
    by (auto simp: q_def t_def)
  moreover have "r = dropWhile (\<lambda>c. \<not> number_char c) q" "takeWhile (\<lambda>c. \<not> number_char c) q \<noteq> []"
    using a(1) by (auto simp: duration_part_def Let_def q_def t_def split: if_splits sum.splits option.splits prod.splits)
  moreover have "length (takeWhile (\<lambda>c. \<not> number_char c) q) + length (dropWhile (\<lambda>c. \<not> number_char c) q) = length q"
    by (metis length_append takeWhile_dropWhile_id)
  moreover have "0 < length (takeWhile (\<lambda>c. \<not> number_char c) q)" using calculation(3) unfolding length_greater_0_conv .
  moreover have "length r = length (dropWhile (\<lambda>c. \<not> number_char c) q)" using calculation(2) by (rule arg_cong)
  ultimately show ?thesis by linarith
qed

function duration_loop :: "string \<Rightarrow> int \<Rightarrow> int option" where
  "duration_loop s d =
     (if s = [] then Some d
      else case duration_part s of
             None \<Rightarrow> None
           | Some (v, r) \<Rightarrow> (let d = (d + v) mod 2 ^ 64 in if d > 2 ^ 63 then None else duration_loop r d))"
  by auto
termination
  by (relation "measure (\<lambda>(s, d). length s)") (auto dest: duration_part_shorter)

declare duration_loop.simps [simp del]

definition ParseDuration :: "string \<Rightarrow> Duration option" where
  "ParseDuration s =
     (let (neg, s) = (case s of [] \<Rightarrow> (False, [])
                      | c # r \<Rightarrow> if c = CHR ''-'' \<or> c = CHR ''+'' then (c = CHR ''-'', r) else (False, s))
      in if s = ''0'' then Some 0
         else if s = [] then None
         else case duration_loop s 0 of
                None \<Rightarrow> None
              | Some d \<Rightarrow> if neg then Some (- d) else if d > 2 ^ 63 - 1 then None else Some d)"

section \<open>The formatted time determines the second\<close>

lemma digits_value_pad: "0 \<le> n \<Longrightarrow> digits_value (pad w n) = n"
proof -
  have z: "foldl (\<lambda>a c. 10 * a + digit_value c) 0 (replicate k (CHR ''0'') @ ds) = digits_value ds" for k ds
    by (induction k) (simp_all add: digits_value_def digit_value_def)
  assume n: "0 \<le> n"
  then have "digits_value (pad w n) = digits_value (digits n)"
    unfolding pad_def Let_def using z [of "w - length (digits \<bar>n\<bar>)" "digits \<bar>n\<bar>"]
    by (simp add: digits_value_def [of "replicate _ _ @ _"] del: foldl_append)
  with n show ?thesis by (simp add: digits_value_digits)
qed

lemma pad_inj: "0 \<le> n \<Longrightarrow> 0 \<le> m \<Longrightarrow> pad w n = pad w m \<Longrightarrow> n = m"
  by (metis digits_value_pad)

lemma length_pad2: "0 \<le> n \<Longrightarrow> n < 100 \<Longrightarrow> length (pad 2 n) = 2"
proof -
  assume n: "0 \<le> n" "n < 100"
  then have "n div 10 < 10" by linarith
  with n show ?thesis
    by (simp add: pad_def Let_def digits.simps [of n] digits.simps [of "n div 10"])
qed

lemma year_loop_result:
  "year_loop y d = (y', r) \<Longrightarrow> 0 \<le> d \<Longrightarrow>
   y \<le> y' \<and> 0 \<le> r \<and> r < year_days y' \<and> d = sum year_days {y..<y'} + r"
proof (induction y d arbitrary: r rule: year_loop.induct)
  case (1 y d)
  show ?case
  proof (cases "d < year_days y")
    case False
    then have "year_loop (y + 1) (d - year_days y) = (y', r)" using 1(2) by (simp add: year_loop.simps [of y d])
    from 1(1) [OF False this] False have
      ih: "y + 1 \<le> y'" "0 \<le> r" "r < year_days y'" "d - year_days y = sum year_days {y + 1..<y'} + r" by auto
    have "{y..<y'} = insert y {y + 1..<y'}" using ih(1) by auto
    then show ?thesis using ih by simp
  qed (use 1 in \<open>simp add: year_loop.simps [of y d]\<close>)
qed

lemma month_loop_result:
  "month_loop y m d = (m', x) \<Longrightarrow> 1 \<le> m \<Longrightarrow> m \<le> 12 \<Longrightarrow> 0 \<le> d \<Longrightarrow>
   m \<le> m' \<and> m' \<le> 12 \<and> 1 \<le> x \<and> d = sum (month_days y) {m..<m'} + x - 1 \<and>
   (m' < 12 \<longrightarrow> x \<le> 31)"
proof (induction y m d arbitrary: x rule: month_loop.induct)
  case (1 y m d)
  show ?case
  proof (cases "m \<ge> 12 \<or> d < month_days y m")
    case False
    then have "month_loop y (m + 1) (d - month_days y m) = (m', x)" using 1(2) by (simp add: month_loop.simps [of y m d])
    from 1(1) [OF False this] False 1(3) have
      ih: "m + 1 \<le> m'" "m' \<le> 12" "1 \<le> x" "d - month_days y m = sum (month_days y) {m + 1..<m'} + x - 1"
         "m' < 12 \<longrightarrow> x \<le> 31" by auto
    have "{m..<m'} = insert m {m + 1..<m'}" using ih(1) by auto
    then show ?thesis using ih by simp
  qed (use 1 in \<open>auto simp: month_loop.simps [of y m d] month_days_def split: if_splits\<close>)
qed

lemma cycle_days: "sum year_days {1..<401} = 146097"
proof -
  have "sum_list (map year_days [1..400]) = 146097" by code_simp
  moreover have "{1..<401} = set [1..400::int]" by auto
  ultimately show ?thesis by (simp add: sum_list_distinct_conv_sum_set)
qed

lemma year_in_cycle:
  assumes "year_loop 1 d = (y, r)" "0 \<le> d" "d < 146097"
  shows "1 \<le> y" "y \<le> 400" "r < 366"
proof -
  note f = year_loop_result [OF assms(1,2)]
  show "1 \<le> y" using f by simp
  show "y \<le> 400"
  proof (rule ccontr)
    assume "\<not> y \<le> 400"
    then have "sum year_days {1..<401} \<le> sum year_days {1..<y}"
      by (intro sum_mono2) (auto simp: year_days_def)
    then show False using f assms(3) by (simp add: cycle_days)
  qed
  show "r < 366" using f by (simp add: year_days_def split: if_splits)
qed

lemma month_loop_day:
  assumes "month_loop y 1 d = (m, x)" "0 \<le> d" "d < 366"
  shows "x \<le> 58"
proof (cases "m < 12")
  case False
  note f = month_loop_result [OF assms(1)]
  have "m = 12" using f False assms(2) by simp
  moreover have "of_nat (card {1..<12::int}) * 28 \<le> sum (month_days y) {1..<12}"
    by (rule sum_bounded_below) (simp add: month_days_def)
  ultimately show ?thesis using f assms by simp
qed (use month_loop_result [OF assms(1)] assms(2) in simp)

lemma radix_unique:
  fixes a b y z k :: int
  assumes "k * a + y = k * b + z" "0 \<le> y" "y < k" "0 \<le> z" "z < k"
  shows "a = b" "y = z"
proof -
  have "(k * a + y) div k = a" "(k * b + z) div k = b" using assms(2-) by simp_all
  then show "a = b" using assms(1) by simp
  then show "y = z" using assms(1) by simp
qed

lemma hours_minutes_seconds: "x = 3600 * (x div 3600) + (60 * (x div 60 mod 60) + x mod 60)" for x :: int
proof -
  have "x div 60 div 60 = x div 3600" by (simp flip: zdiv_zmult2_eq)
  then show ?thesis using mult_div_mod_eq [of 60 x] mult_div_mod_eq [of 60 "x div 60"] by linarith
qed

lemma civil_inj:
  assumes "civil d = civil d'"
  shows "d = d'"
proof -
  obtain y r y' r' where y: "year_loop 1 (d mod 146097) = (y, r)" "year_loop 1 (d' mod 146097) = (y', r')"
    by (metis surj_pair)
  obtain m x m' x' where m: "month_loop y 1 r = (m, x)" "month_loop y' 1 r' = (m', x')"
    by (metis surj_pair)
  have eq: "400 * (d div 146097) + y = 400 * (d' div 146097) + y'" "m = m'" "x = x'"
    using assms by (auto simp: civil_def y m)
  have "1 \<le> y" "y \<le> 400" "1 \<le> y'" "y' \<le> 400"
    using year_in_cycle [OF y(1)] year_in_cycle [OF y(2)] by auto
  then have yy: "y = y'" "d div 146097 = d' div 146097"
    using radix_unique [of 400 "d div 146097" "y - 1" "d' div 146097" "y' - 1"] eq(1) by simp_all
  note f = year_loop_result [OF y(1)] year_loop_result [OF y(2)]
  have "r = r'"
    using month_loop_result [OF m(1)] month_loop_result [OF m(2)] f yy(1) eq(2,3) by simp
  then have "d mod 146097 = d' mod 146097" using f yy(1) by simp
  then show ?thesis using yy(2) by (metis mult_div_mod_eq)
qed

lemma civil_bounds:
  assumes "civil d = (y, m, x)" "0 \<le> d"
  shows "0 \<le> y" "0 \<le> m" "m < 100" "0 \<le> x" "x < 100"
proof -
  obtain y0 r where y0: "year_loop 1 (d mod 146097) = (y0, r)" by (metis surj_pair)
  have yr: "1 \<le> y0" "0 \<le> r" "r < 366"
    using year_in_cycle [OF y0] year_loop_result [OF y0] by auto
  have m: "month_loop y0 1 r = (m, x)" and y: "y = 400 * (d div 146097) + y0"
    using assms(1) by (auto simp: civil_def y0 split: prod.splits)
  show "0 \<le> y" using yr(1) assms(2) by (simp add: y)
  show "0 \<le> m" "m < 100" "0 \<le> x" "x < 100"
    using month_loop_result [OF m] month_loop_day [OF m] yr by auto
qed

lemma rfc3339_inj:
  assumes "0 \<le> t" "0 \<le> t'" "rfc3339 t = rfc3339 t'"
  shows "t div Second = t' div Second"
proof -
  define s s' where s: "s = t div Second" "s' = t' div Second"
  obtain y m d y' m' d' where c: "civil (s div 86400) = (y, m, d)" "civil (s' div 86400) = (y', m', d')"
    by (metis prod_cases3)
  have nn: "0 \<le> s" "0 \<le> s'" using assms(1,2) by (simp_all add: s Second_def)
  have "0 \<le> s div 86400" "0 \<le> s' div 86400" using nn by simp_all
  note b = civil_bounds [OF c(1) this(1)] civil_bounds [OF c(2) this(2)]
  let ?h = "\<lambda>s. s mod 86400 div 3600" and ?n = "\<lambda>s. s mod 86400 div 60 mod 60" and ?z = "\<lambda>s. s mod 86400 mod 60"
  have r: "0 \<le> ?h s" "?h s < 100" "0 \<le> ?n s" "?n s < 100" "0 \<le> ?z s" "?z s < 100" for s :: int
    by (simp_all add: pos_mod_bound less_trans [OF pos_mod_bound])
  have "pad 4 y @ ''-'' @ pad 2 m @ ''-'' @ pad 2 d @ ''T'' @ pad 2 (?h s) @ '':'' @ pad 2 (?n s) @ '':'' @ pad 2 (?z s) @ ''Z'' =
      pad 4 y' @ ''-'' @ pad 2 m' @ ''-'' @ pad 2 d' @ ''T'' @ pad 2 (?h s') @ '':'' @ pad 2 (?n s') @ '':'' @ pad 2 (?z s') @ ''Z''"
    using assms(3) by (simp add: rfc3339_def Let_def c flip: s)
  then have p: "pad 4 y = pad 4 y' \<and> pad 2 m = pad 2 m' \<and> pad 2 d = pad 2 d' \<and> pad 2 (?h s) = pad 2 (?h s') \<and>
      pad 2 (?n s) = pad 2 (?n s') \<and> pad 2 (?z s) = pad 2 (?z s')"
    using b r by (simp add: length_pad2)
  have e: "y = y'" "m = m'" "d = d'" "?h s = ?h s'" "?n s = ?n s'" "?z s = ?z s'"
    using p b r pad_inj by blast+
  have "s div 86400 = s' div 86400" using civil_inj [of "s div 86400" "s' div 86400"] c e(1-3) by simp
  moreover have "s mod 86400 = s' mod 86400"
  proof -
    have "s mod 86400 = 3600 * ?h s + (60 * ?n s + ?z s)" by (rule hours_minutes_seconds)
    also have "\<dots> = 3600 * ?h s' + (60 * ?n s' + ?z s')" unfolding e(4-6) ..
    also have "\<dots> = s' mod 86400" by (rule hours_minutes_seconds [symmetric])
    finally show ?thesis .
  qed
  ultimately show ?thesis unfolding s [symmetric] by (metis mult_div_mod_eq)
qed

lemma rfc3339_eq_iff: "0 \<le> t \<Longrightarrow> 0 \<le> t' \<Longrightarrow> rfc3339 t = rfc3339 t' \<longleftrightarrow> t div Second = t' div Second"
  by (metis rfc3339_inj rfc3339_def)

end
