(* ===== verification/Startup.thy ===== *)
theory Startup
  imports Storage GoTime
begin

text \<open>
  How a node comes up: \<open>internal/config\<close>, the start loop of \<open>engine.Start\<close>, and what
  \<open>cmd/suffren/main.go\<close> computes from flags and environment. \<open>getenv\<close> is \<open>os.Getenv\<close>: the
  empty string for a variable that is not set.
\<close>

section \<open>Configuration\<close>

record EngineConfig =
  RoundTimeout :: Duration
  StartupSyncTimeout :: Duration
  BatchTimeout :: Duration
  ConfigMaxBatchSize :: int
  SnapshotInterval :: Duration

record LatticeAgreementConfig =
  ConfigMsgChanSize :: int

record Config =
  EngineOf :: EngineConfig
  LatticeAgreementOf :: LatticeAgreementConfig

definition default_values :: Config where
  "default_values =
     \<lparr>EngineOf = \<lparr>RoundTimeout = 2 * Second, StartupSyncTimeout = 20 * Second, BatchTimeout = 1000000,
                  ConfigMaxBatchSize = 100, SnapshotInterval = 5 * Second\<rparr>,
      LatticeAgreementOf = \<lparr>ConfigMsgChanSize = 1024\<rparr>\<rparr>"

definition DefaultConfig :: "(string \<Rightarrow> string) \<Rightarrow> Config" where
  "DefaultConfig getenv =
     (let cfg = default_values;
          envBatchTimeout = getenv ''SUFFREN_BATCH_TIMEOUT'';
          cfg = (if envBatchTimeout \<noteq> [] then
                   (case ParseDuration envBatchTimeout of
                      Some d \<Rightarrow> cfg\<lparr>EngineOf := (EngineOf cfg)\<lparr>BatchTimeout := d\<rparr>\<rparr>
                    | None \<Rightarrow> cfg)
                 else cfg);
          envBatchSize = getenv ''SUFFREN_BATCH_SIZE'';
          cfg = (if envBatchSize \<noteq> [] then
                   (case Atoi envBatchSize of
                      Inr n \<Rightarrow> cfg\<lparr>EngineOf := (EngineOf cfg)\<lparr>ConfigMaxBatchSize := n\<rparr>\<rparr>
                    | Inl e \<Rightarrow> cfg)
                 else cfg)
      in cfg)"

text \<open>\<open>LoadConfig\<close>: the file's content or the error of reading it; a missing field is zero.\<close>

definition int_field :: "json \<Rightarrow> int \<Rightarrow> int option" where
  "int_field v old =
     (case v of JNull \<Rightarrow> Some old | JNum lit \<Rightarrow> (case Atoi lit of Inl e \<Rightarrow> None | Inr x \<Rightarrow> Some x) | _ \<Rightarrow> None)"

fun engine_fields :: "(string \<times> json) list \<Rightarrow> EngineConfig \<Rightarrow> EngineConfig option" where
  "engine_fields [] c = Some c"
| "engine_fields ((f, v) # ms) c =
     (if field_matches ''RoundTimeout'' f then
        (case int_field v (RoundTimeout c) of None \<Rightarrow> None | Some x \<Rightarrow> engine_fields ms (c\<lparr>RoundTimeout := x\<rparr>))
      else if field_matches ''StartupSyncTimeout'' f then
        (case int_field v (StartupSyncTimeout c) of None \<Rightarrow> None | Some x \<Rightarrow> engine_fields ms (c\<lparr>StartupSyncTimeout := x\<rparr>))
      else if field_matches ''BatchTimeout'' f then
        (case int_field v (BatchTimeout c) of None \<Rightarrow> None | Some x \<Rightarrow> engine_fields ms (c\<lparr>BatchTimeout := x\<rparr>))
      else if field_matches ''MaxBatchSize'' f then
        (case int_field v (ConfigMaxBatchSize c) of None \<Rightarrow> None | Some x \<Rightarrow> engine_fields ms (c\<lparr>ConfigMaxBatchSize := x\<rparr>))
      else if field_matches ''SnapshotInterval'' f then
        (case int_field v (SnapshotInterval c) of None \<Rightarrow> None | Some x \<Rightarrow> engine_fields ms (c\<lparr>SnapshotInterval := x\<rparr>))
      else engine_fields ms c)"

fun agreement_fields :: "(string \<times> json) list \<Rightarrow> LatticeAgreementConfig \<Rightarrow> LatticeAgreementConfig option" where
  "agreement_fields [] c = Some c"
| "agreement_fields ((f, v) # ms) c =
     (if field_matches ''MsgChanSize'' f then
        (case int_field v (ConfigMsgChanSize c) of None \<Rightarrow> None | Some x \<Rightarrow> agreement_fields ms (c\<lparr>ConfigMsgChanSize := x\<rparr>))
      else agreement_fields ms c)"

fun config_fields :: "(string \<times> json) list \<Rightarrow> Config \<Rightarrow> Config option" where
  "config_fields [] c = Some c"
| "config_fields ((f, v) # ms) c =
     (if field_matches ''engine'' f then
        (case v of
           JNull \<Rightarrow> config_fields ms c
         | JObj es \<Rightarrow> (case engine_fields es (EngineOf c) of
                         None \<Rightarrow> None | Some e \<Rightarrow> config_fields ms (c\<lparr>EngineOf := e\<rparr>))
         | _ \<Rightarrow> None)
      else if field_matches ''lattice_agreement'' f then
        (case v of
           JNull \<Rightarrow> config_fields ms c
         | JObj es \<Rightarrow> (case agreement_fields es (LatticeAgreementOf c) of
                         None \<Rightarrow> None | Some a \<Rightarrow> config_fields ms (c\<lparr>LatticeAgreementOf := a\<rparr>))
         | _ \<Rightarrow> None)
      else config_fields ms c)"

definition zero_config :: Config where
  "zero_config =
     \<lparr>EngineOf = \<lparr>RoundTimeout = 0, StartupSyncTimeout = 0, BatchTimeout = 0, ConfigMaxBatchSize = 0, SnapshotInterval = 0\<rparr>,
      LatticeAgreementOf = \<lparr>ConfigMsgChanSize = 0\<rparr>\<rparr>"

definition LoadConfig :: "error + string \<Rightarrow> error + Config" where
  "LoadConfig file =
     (case file of
        Inl err \<Rightarrow> Inl err
      | Inr data \<Rightarrow>
          (case json_unmarshal data of
             Some JNull \<Rightarrow> Inr zero_config
           | Some (JObj ms) \<Rightarrow> (case config_fields ms zero_config of
                                  None \<Rightarrow> Inl ''json: cannot unmarshal'' | Some c \<Rightarrow> Inr c)
           | Some _ \<Rightarrow> Inl ''json: cannot unmarshal''
           | None \<Rightarrow> Inl ''invalid JSON''))"

section \<open>Starting the engine\<close>

text \<open>
  The loop of \<open>Engine.Start\<close>: each round reads the clock, calls \<open>sync\<close> while the deadline is not
  reached, and sleeps. The rounds to come are given with their clock reading and the result of
  \<open>sync\<close>; \<open>None\<close>: the loop is still running after them. What \<open>sync\<close> does to the engine is in
  \<open>Engine\<close> and \<open>Host\<close>.
\<close>

datatype start_error = NodeStartFailed error | StartupSyncFailed Duration

fun sync_loop :: "Time \<Rightarrow> (Time \<times> bool) list \<Rightarrow> bool option" where
  "sync_loop deadline [] = None"
| "sync_loop deadline ((now, ok) # rounds) =
     (if now < deadline then (if ok then Some True else sync_loop deadline rounds) else Some False)"

text \<open>The result: the error, or the flusher and the snapshot loop have been started.\<close>

definition Engine_Start ::
    "error option \<Rightarrow> EngineConfig \<Rightarrow> Time \<Rightarrow> (Time \<times> bool) list \<Rightarrow> (start_error + unit) option" where
  "Engine_Start nodeErr cfg now rounds =
     (case nodeErr of
        Some err \<Rightarrow> Some (Inl (NodeStartFailed err))
      | None \<Rightarrow>
          (let deadline = now + StartupSyncTimeout cfg
           in map_option (\<lambda>ok. if ok then Inr () else Inl (StartupSyncFailed (StartupSyncTimeout cfg)))
                (sync_loop deadline rounds)))"

section \<open>The command\<close>

definition choose_node_id :: "string \<Rightarrow> (string \<Rightarrow> string) \<Rightarrow> string" where
  "choose_node_id nodeIdFlag getenv =
     (if nodeIdFlag = [] then
        (let flyRegion = getenv ''FLY_REGION'' in if flyRegion \<noteq> [] then flyRegion else ''N1'')
      else nodeIdFlag)"

fun peers_loop :: "string list \<Rightarrow> (NodeId, string) gomap \<Rightarrow> (NodeId, string) gomap" where
  "peers_loop [] peers = peers"
| "peers_loop (pair # ps) peers =
     (case SplitN2 (CHR '':'') pair of
        [nodeId, address] \<Rightarrow> peers_loop ps (gm_set nodeId address peers)
      | _ \<Rightarrow> peers_loop ps peers)"

definition parseStringToPeersMap :: "string \<Rightarrow> (NodeId, string) gomap" where
  "parseStringToPeersMap s = peers_loop (Split (CHR '','') s) []"

definition data_file :: "(string \<Rightarrow> string) \<Rightarrow> string \<Rightarrow> string" where
  "data_file getenv nodeId =
     (let dataPath = getenv ''DATA_PATH'';
          dataPath = (if dataPath = [] then ''./data'' else dataPath)
      in dataPath @ ''/suffren_'' @ nodeId @ ''.json'')"

datatype log_level = LevelDebug | LevelInfo | LevelWarn | LevelError
datatype log_format = LogText | LogJson

definition to_upper :: "char \<Rightarrow> char" where
  "to_upper c = (if 97 \<le> code c \<and> code c \<le> 122 then char_of (code c - 32) else c)"

definition to_lower :: "char \<Rightarrow> char" where
  "to_lower c = (if 65 \<le> code c \<and> code c \<le> 90 then char_of (code c + 32) else c)"

definition setupLogger :: "(string \<Rightarrow> string) \<Rightarrow> log_level \<times> log_format" where
  "setupLogger getenv =
     (let logLevelStr = (if getenv ''LOG_LEVEL'' = [] then ''INFO'' else getenv ''LOG_LEVEL'');
          u = map to_upper logLevelStr;
          level = (if u = ''DEBUG'' then LevelDebug else if u = ''WARN'' then LevelWarn
                   else if u = ''ERROR'' then LevelError else LevelInfo);
          logFormatStr = (if getenv ''LOG_FORMAT'' = [] then ''text'' else getenv ''LOG_FORMAT'')
      in (level, if map to_lower logFormatStr = ''json'' then LogJson else LogText))"

section \<open>Reading the peers back\<close>

definition show_peer :: "NodeId \<times> string \<Rightarrow> string" where
  "show_peer p = fst p @ '':'' @ snd p"

lemma Split_comma:
  "ps \<noteq> [] \<Longrightarrow> \<forall>p \<in> set ps. CHR '','' \<notin> set p \<Longrightarrow> Split (CHR '','') (comma ps) = ps"
  by (induction ps rule: comma.induct) (simp_all add: Split_single Split_prefix)

lemma SplitN2_peer: "CHR '':'' \<notin> set (fst p) \<Longrightarrow> SplitN2 (CHR '':'') (show_peer p) = [fst p, snd p]"
proof -
  assume "CHR '':'' \<notin> set (fst p)"
  then have n: "\<forall>c \<in> set (fst p). c \<noteq> CHR '':''" by auto
  show ?thesis
    using takeWhile_append2 [of "fst p" "\<lambda>c. c \<noteq> CHR '':''" "CHR '':'' # snd p"]
      dropWhile_append2 [of "fst p" "\<lambda>c. c \<noteq> CHR '':''" "CHR '':'' # snd p"] n
    by (simp add: SplitN2_def show_peer_def)
qed

lemma peers_loop_show:
  "gm_ok (m @ ps) \<Longrightarrow> \<forall>p \<in> set ps. CHR '':'' \<notin> set (fst p) \<Longrightarrow> peers_loop (map show_peer ps) m = m @ ps"
proof (induction ps arbitrary: m)
  case (Cons p ps)
  obtain n a where p: "p = (n, a)" by force
  have "gm_set n a m = m @ [(n, a)]" using Cons.prems(1) by (intro gm_set_fresh) (auto simp: p gm_ok_append)
  then show ?case using Cons.IH [of "m @ [(n, a)]"] Cons.prems SplitN2_peer [of p] by (simp add: p)
qed simp

section \<open>The start loop\<close>

lemma sync_loop_True:
  "sync_loop deadline rounds = Some True \<longleftrightarrow>
     (\<exists>k < length rounds. snd (rounds ! k) \<and> (\<forall>j \<le> k. fst (rounds ! j) < deadline))"
proof (induction deadline rounds rule: sync_loop.induct)
  case (2 deadline now ok rounds)
  have split: "(\<exists>k < length ((now, ok) # rounds). P k) \<longleftrightarrow> P 0 \<or> (\<exists>k < length rounds. P (Suc k))" for P
    by (auto simp: less_Suc_eq_0_disj)
  have all: "(\<forall>j \<le> Suc k. P j) \<longleftrightarrow> P 0 \<and> (\<forall>j \<le> k. P (Suc j))" for P k
    by (metis Suc_le_mono le0 not0_implies_Suc)
  show ?case unfolding split using 2 by (auto simp: all)
qed simp

lemma sync_loop_ends: "\<exists>x \<in> set rounds. deadline \<le> fst x \<Longrightarrow> sync_loop deadline rounds \<noteq> None"
  by (induction deadline rounds rule: sync_loop.induct) auto

lemma sync_loop_deadline:
  assumes "0 < step" and "\<forall>k < length rounds. now + int k * step \<le> fst (rounds ! k)"
    and "nat (timeout div step) + 2 \<le> length rounds"
  shows "sync_loop (now + timeout) rounds \<noteq> None"
proof (rule sync_loop_ends)
  let ?k = "nat (timeout div step) + 1"
  have "timeout div step + 1 \<le> int ?k" by simp
  then have "(timeout div step + 1) * step \<le> int ?k * step" using assms(1) by (intro mult_right_mono) auto
  moreover have "timeout < (timeout div step + 1) * step"
    using assms(1) by (metis add.commute div_mult_mod_eq distrib_right mult_1 pos_mod_bound add_strict_left_mono)
  moreover have "now + int ?k * step \<le> fst (rounds ! ?k)" by (rule assms(2) [rule_format]) (use assms(3) in simp)
  ultimately have "now + timeout \<le> fst (rounds ! ?k)" by linarith
  then show "\<exists>x \<in> set rounds. now + timeout \<le> fst x" using assms(3) by (intro bexI [of _ "rounds ! ?k"]) auto
qed

section \<open>Properties\<close>



text \<open>
  The peers of the environment are read back as they were written: for a list of node names and
  addresses with distinct names, no comma anywhere and no colon in a name, parsing the entries
  \<open>name:address\<close> joined with commas gives the map of that list (an address keeps its own colons).
\<close>

theorem peers_round_trip:
  assumes "gm_ok ps" "ps \<noteq> []"
    and "\<forall>p \<in> set ps. CHR '','' \<notin> set (fst p) \<and> CHR '','' \<notin> set (snd p) \<and> CHR '':'' \<notin> set (fst p)"
  shows "parseStringToPeersMap (comma (map show_peer ps)) = ps"
proof -
  have "Split (CHR '','') (comma (map show_peer ps)) = map show_peer ps"
    using assms by (intro Split_comma) (auto simp: show_peer_def)
  then show ?thesis using peers_loop_show [of "[]" ps] assms by (simp add: parseStringToPeersMap_def)
qed

lemma peers_round_trip_witness:
  "parseStringToPeersMap ''N1:localhost:8031,N2:localhost:8032'' =
     [(''N1'', ''localhost:8031''), (''N2'', ''localhost:8032'')]"
  using peers_round_trip [of "[(''N1'', ''localhost:8031''), (''N2'', ''localhost:8032'')]"]
  by (simp add: gm_ok_def show_peer_def)

end
