(* ===== verification/GoFlag.thy ===== *)
theory GoFlag
  imports GoText
begin

text \<open>
  The package \<open>flag\<close> as both commands use it: boolean, integer and string flags with defaults, parsed
  from the arguments of the process. An error ends the process, with status 0 after a request for help
  and 2 otherwise; its message is printed and left out here.
\<close>

section \<open>Integers in any base\<close>

text \<open>\<open>strconv.ParseInt(s, 0, 64)\<close>: the base is in the prefix, digits may be separated by underscores.\<close>

definition lower :: "char \<Rightarrow> int" where
  "lower c = (let x = of_char c in if 65 \<le> x \<and> x \<le> 90 then x + 32 else x)"

definition digit_in :: "char \<Rightarrow> int option" where
  "digit_in c =
     (if is_digit c then Some (digit_value c)
      else if 97 \<le> lower c \<and> lower c \<le> 122 then Some (lower c - 87) else None)"

text \<open>The prefix of a literal: its base and what follows.\<close>

fun base_prefix :: "string \<Rightarrow> int \<times> string" where
  "base_prefix (z # c # d # s) =
     (if z \<noteq> CHR ''0'' then (10, z # c # d # s)
      else if lower c = 98 then (2, d # s)
      else if lower c = 111 then (8, d # s)
      else if lower c = 120 then (16, d # s)
      else (8, c # d # s))"
| "base_prefix (z # s) = (if z \<noteq> CHR ''0'' then (10, z # s) else (8, s))"
| "base_prefix [] = (10, [])"

fun base_loop :: "int \<Rightarrow> string \<Rightarrow> int \<Rightarrow> num_error + int" where
  "base_loop base [] n = Inr n"
| "base_loop base (c # s) n =
     (if c = CHR ''_'' then base_loop base s n
      else case digit_in c of
             None \<Rightarrow> Inl ErrSyntax
           | Some d \<Rightarrow>
               if base \<le> d then Inl ErrSyntax
               else if 2 ^ 64 \<le> n * base + d then Inl ErrRange
               else base_loop base s (n * base + d))"

text \<open>Underscores must separate digits, or the base prefix from them.\<close>

datatype seen = Start | Digit | Underscore | Other

fun underscore_loop :: "bool \<Rightarrow> seen \<Rightarrow> string \<Rightarrow> bool" where
  "underscore_loop hex i [] = (i \<noteq> Underscore)"
| "underscore_loop hex i (c # s) =
     (if is_digit c \<or> hex \<and> 97 \<le> lower c \<and> lower c \<le> 102 then underscore_loop hex Digit s
      else if c = CHR ''_'' then i = Digit \<and> underscore_loop hex Underscore s
      else i \<noteq> Underscore \<and> underscore_loop hex Other s)"

fun underscoreOK :: "string \<Rightarrow> bool" where
  "underscoreOK (z # c # s) =
     (if z = CHR ''0'' \<and> (lower c = 98 \<or> lower c = 111 \<or> lower c = 120)
      then underscore_loop (lower c = 120) Digit s else underscore_loop False Start (z # c # s))"
| "underscoreOK s = underscore_loop False Start s"

definition ParseUint0 :: "string \<Rightarrow> num_error + int" where
  "ParseUint0 s =
     (if s = [] then Inl ErrSyntax
      else case base_prefix s of (base, t) \<Rightarrow>
        (case base_loop base t 0 of
           Inl e \<Rightarrow> Inl e
         | Inr n \<Rightarrow> if CHR ''_'' \<in> set s \<and> \<not> underscoreOK s then Inl ErrSyntax else Inr n))"

definition ParseInt0 :: "string \<Rightarrow> num_error + int" where
  "ParseInt0 s =
     (let (neg, t) = (case s of [] \<Rightarrow> (False, [])
                      | c # r \<Rightarrow> if c = CHR ''-'' then (True, r) else if c = CHR ''+'' then (False, r) else (False, s))
      in case ParseUint0 t of
           Inl e \<Rightarrow> Inl e
         | Inr n \<Rightarrow>
             if \<not> neg \<and> 2 ^ 63 \<le> n \<or> neg \<and> 2 ^ 63 < n then Inl ErrRange else Inr (if neg then - n else n))"

definition ParseBool :: "string \<Rightarrow> bool option" where
  "ParseBool s =
     (if s \<in> {''1'', ''t'', ''T'', ''true'', ''TRUE'', ''True''} then Some True
      else if s \<in> {''0'', ''f'', ''F'', ''false'', ''FALSE'', ''False''} then Some False else None)"

section \<open>Parsing the arguments\<close>

datatype flag_value = FBool bool | FInt int | FString string

type_synonym flags = "(string, flag_value) gomap"

datatype flag_error = ErrHelp | BadSyntax | NotDefined | NeedsArgument | InvalidValue

definition exit_code :: "flag_error \<Rightarrow> int" where
  "exit_code e = (if e = ErrHelp then 0 else 2)"

text \<open>\<open>Set\<close> of the three kinds of values.\<close>

fun flag_Set :: "flag_value \<Rightarrow> string \<Rightarrow> flag_value option" where
  "flag_Set (FBool b) s = map_option FBool (ParseBool s)"
| "flag_Set (FInt n) s = (case ParseInt0 s of Inl e \<Rightarrow> None | Inr m \<Rightarrow> Some (FInt m))"
| "flag_Set (FString t) s = Some (FString s)"

fun is_bool_flag :: "flag_value \<Rightarrow> bool" where
  "is_bool_flag (FBool b) = True"
| "is_bool_flag _ = False"

datatype parsed = NextFlag flags "string list" | EndOfFlags "string list" | ParseError flag_error

definition set_flag :: "flags \<Rightarrow> string \<Rightarrow> flag_value \<Rightarrow> string \<Rightarrow> string list \<Rightarrow> parsed" where
  "set_flag fl name f val args =
     (case flag_Set f val of None \<Rightarrow> ParseError InvalidValue | Some v \<Rightarrow> NextFlag (gm_set name v fl) args)"

text \<open>A flag without its minus signs: the name and, after an equals sign, the value.\<close>

definition cut_flag :: "string \<Rightarrow> string \<times> string option" where
  "cut_flag s =
     (if CHR ''='' \<in> set s
      then (takeWhile (\<lambda>c. c \<noteq> CHR ''='') s, Some (tl (dropWhile (\<lambda>c. c \<noteq> CHR ''='') s)))
      else (s, None))"

definition named_flag :: "flags \<Rightarrow> string \<Rightarrow> string list \<Rightarrow> parsed" where
  "named_flag fl s args =
     (if s = [] \<or> hd s = CHR ''-'' \<or> hd s = CHR ''='' then ParseError BadSyntax
      else case cut_flag s of (name, val) \<Rightarrow>
        (case map_of fl name of
           None \<Rightarrow> ParseError (if name = ''help'' \<or> name = ''h'' then ErrHelp else NotDefined)
         | Some f \<Rightarrow>
             if is_bool_flag f then set_flag fl name f (case val of None \<Rightarrow> ''true'' | Some v \<Rightarrow> v) args
             else (case (val, args) of
                     (Some v, _) \<Rightarrow> set_flag fl name f v args
                   | (None, v # args) \<Rightarrow> set_flag fl name f v args
                   | (None, []) \<Rightarrow> ParseError NeedsArgument)))"

fun parseOne :: "flags \<Rightarrow> string list \<Rightarrow> parsed" where
  "parseOne fl [] = EndOfFlags []"
| "parseOne fl (s # args) =
     (if length s < 2 \<or> hd s \<noteq> CHR ''-'' then EndOfFlags (s # args)
      else if s = ''--'' then EndOfFlags args
      else named_flag fl (drop (if s ! 1 = CHR ''-'' then 2 else 1) s) args)"

lemma named_flag_shorter: "named_flag fl s args = NextFlag fl' args' \<Longrightarrow> length args' \<le> length args"
  by (auto simp: named_flag_def set_flag_def split: if_splits option.splits list.splits prod.splits)

lemma parseOne_shorter: "parseOne fl args = NextFlag fl' args' \<Longrightarrow> length args' < length args"
  by (cases args) (auto dest: named_flag_shorter split: if_splits)

function flag_Parse :: "flags \<Rightarrow> string list \<Rightarrow> flag_error + flags \<times> string list" where
  "flag_Parse fl args =
     (case parseOne fl args of
        NextFlag fl args \<Rightarrow> flag_Parse fl args
      | EndOfFlags rest \<Rightarrow> Inr (fl, rest)
      | ParseError e \<Rightarrow> Inl e)"
  by auto
termination
  by (relation "measure (\<lambda>(fl, args). length args)") (auto dest: parseOne_shorter)

declare flag_Parse.simps [simp del]

text \<open>Reading the variables behind the flags.\<close>

definition flag_bool :: "flags \<Rightarrow> string \<Rightarrow> bool" where
  "flag_bool fl name = (case map_of fl name of Some (FBool b) \<Rightarrow> b | _ \<Rightarrow> False)"

definition flag_int :: "flags \<Rightarrow> string \<Rightarrow> int" where
  "flag_int fl name = (case map_of fl name of Some (FInt n) \<Rightarrow> n | _ \<Rightarrow> 0)"

definition flag_string :: "flags \<Rightarrow> string \<Rightarrow> string" where
  "flag_string fl name = (case map_of fl name of Some (FString s) \<Rightarrow> s | _ \<Rightarrow> [])"

lemmas flag_vars = flag_bool_def flag_int_def flag_string_def

section \<open>Decimal numbers are read back\<close>

lemma base_loop_append:
  "base_loop base (s @ t) n = (case base_loop base s n of Inl e \<Rightarrow> Inl e | Inr m \<Rightarrow> base_loop base t m)"
  by (induction base s n rule: base_loop.induct) (simp_all split: option.splits)

lemma digit_in_digit:
  assumes "0 \<le> n" "n < 10"
  shows "digit_in (digit n) = Some n" "digit n \<noteq> CHR ''_''"
proof -
  show "digit_in (digit n) = Some n" using assms by (simp add: digit_in_def)
  have "\<not> is_digit (CHR ''_'')" by (simp add: is_digit_def code_def)
  then show "digit n \<noteq> CHR ''_''" using assms is_digit_digit by metis
qed

lemma base_loop_digits: "0 \<le> n \<Longrightarrow> n < 2 ^ 64 \<Longrightarrow> base_loop 10 (digits n) 0 = Inr n"
proof (induction n rule: digits.induct)
  case (1 n)
  show ?case
  proof (cases "n < 10")
    case True
    then show ?thesis using 1(2) digit_in_digit [of n] by (simp add: digits.simps [of n])
  next
    case False
    have "base_loop 10 (digits (n div 10)) 0 = Inr (n div 10)" using 1 False by simp
    then show ?thesis
      using 1(3) False digit_in_digit [of "n mod 10"] by (simp add: digits.simps [of n] base_loop_append)
  qed
qed

lemma hd_digits: "0 < n \<Longrightarrow> hd (digits n) \<noteq> CHR ''0''"
proof (induction n rule: digits.induct)
  case (1 n)
  show ?case
  proof (cases "n < 10")
    case True
    then have "digit_in (digit n) = Some n" "digit_in (CHR ''0'') = Some 0"
      using 1(2) digit_in_digit by (simp_all add: digit_in_def is_digit_def code_def digit_value_def)
    then have "digit n \<noteq> CHR ''0''" using 1(2) by auto
    then show ?thesis using True by (simp add: digits.simps [of n])
  qed (use 1 in \<open>simp add: digits.simps [of n]\<close>)
qed

lemma base_prefix_decimal: "s \<noteq> [] \<Longrightarrow> hd s \<noteq> CHR ''0'' \<Longrightarrow> base_prefix s = (10, s)"
  by (cases s rule: base_prefix.cases) auto

lemma digits_chars:
  assumes "0 \<le> n" "c \<in> set (digits n)"
  shows "c \<noteq> CHR ''_''" "c \<noteq> CHR ''-''" "c \<noteq> CHR ''+''"
  using digits_digits [OF assms(1)] assms(2) by (auto simp: list_all_iff is_digit_def code_def)

lemma ParseUint0_digits:
  assumes "0 \<le> n" "n < 2 ^ 64"
  shows "ParseUint0 (digits n) = Inr n"
proof (cases "n = 0")
  case True
  have "ParseUint0 (digits 0) = Inr 0" by code_simp
  then show ?thesis by (simp add: True)
next
  case False
  then have "base_prefix (digits n) = (10, digits n)" using assms(1) hd_digits by (intro base_prefix_decimal) simp_all
  then show ?thesis using assms base_loop_digits digits_chars(1) [OF assms(1)] by (auto simp: ParseUint0_def)
qed

lemma ParseInt0_show_int:
  assumes "- (2 ^ 63) \<le> n" "n < 2 ^ 63"
  shows "ParseInt0 (show_int n) = Inr n"
proof (cases "n < 0")
  case True
  then have "ParseUint0 (digits \<bar>n\<bar>) = Inr \<bar>n\<bar>" using assms by (intro ParseUint0_digits) simp_all
  then show ?thesis using True assms(1) by (simp add: ParseInt0_def show_int_def pad_def)
next
  case False
  obtain c r where d: "digits n = c # r" by (cases "digits n") simp_all
  have "ParseUint0 (digits n) = Inr n" using False assms by (intro ParseUint0_digits) simp_all
  moreover have "c \<noteq> CHR ''-''" "c \<noteq> CHR ''+''" using digits_chars(2,3) [of n c] False d by simp_all
  ultimately show ?thesis using False assms(2) by (simp add: ParseInt0_def show_int_def pad_def d)
qed

section \<open>Flags are read back\<close>

text \<open>An argument that sets a flag of the same kind.\<close>

fun show_flag :: "flag_value \<Rightarrow> string" where
  "show_flag (FBool b) = (if b then ''true'' else ''false'')"
| "show_flag (FInt n) = show_int n"
| "show_flag (FString s) = s"

definition flag_arg :: "string \<times> flag_value \<Rightarrow> string" where
  "flag_arg kv = CHR ''-'' # fst kv @ CHR ''='' # show_flag (snd kv)"

fun fits :: "flag_value \<Rightarrow> flag_value \<Rightarrow> bool" where
  "fits (FBool _) (FBool _) = True"
| "fits (FInt _) (FInt n) = (- (2 ^ 63) \<le> n \<and> n < 2 ^ 63)"
| "fits (FString _) (FString _) = True"
| "fits _ _ = False"

definition settable :: "flags \<Rightarrow> string \<times> flag_value \<Rightarrow> bool" where
  "settable fl kv \<longleftrightarrow> fst kv \<noteq> [] \<and> hd (fst kv) \<noteq> CHR ''-'' \<and> CHR ''='' \<notin> set (fst kv) \<and>
     (case map_of fl (fst kv) of None \<Rightarrow> False | Some f \<Rightarrow> fits f (snd kv))"

lemma flag_Set_show: "fits f v \<Longrightarrow> flag_Set f (show_flag v) = Some v"
  by (induction f v rule: fits.induct) (simp_all add: ParseInt0_show_int ParseBool_def)

lemma cut_flag_arg: "CHR ''='' \<notin> set k \<Longrightarrow> cut_flag (k @ CHR ''='' # v) = (k, Some v)"
  by (simp add: cut_flag_def takeWhile_append dropWhile_append) 

lemma parseOne_flag_arg:
  assumes "settable fl (k, v)"
  shows "parseOne fl (flag_arg (k, v) # args) = NextFlag (gm_set k v fl) args"
proof -
  from assms obtain f c k' where f: "map_of fl k = Some f" "fits f v" and k: "k = c # k'" "c \<noteq> CHR ''-''" "CHR ''='' \<notin> set k"
    by (cases k) (auto simp: settable_def split: option.splits)
  have "named_flag fl (k @ CHR ''='' # show_flag v) args = NextFlag (gm_set k v fl) args"
    using f k(2,3) flag_Set_show [OF f(2)] unfolding named_flag_def cut_flag_arg [OF k(3)]
    by (auto simp: k(1) set_flag_def)
  then show ?thesis using k(1,2) by (simp add: flag_arg_def)
qed

lemma settable_set: "settable fl (k, v) \<Longrightarrow> settable fl kv \<Longrightarrow> settable (gm_set k v fl) kv"
  by (cases "snd kv") (auto simp: settable_def gm_simps split: option.splits elim!: fits.elims)

lemma flag_Parse_args:
  "list_all (settable fl) kvs \<Longrightarrow>
   flag_Parse fl (map flag_arg kvs @ rest) = flag_Parse (fold (\<lambda>(k, v). gm_set k v) kvs fl) rest"
proof (induction kvs arbitrary: fl)
  case (Cons kv kvs)
  obtain k v where kv: "kv = (k, v)" by force
  have "list_all (settable (gm_set k v fl)) kvs"
    using Cons.prems settable_set by (auto simp: kv list_all_iff)
  from Cons.IH [OF this] show ?case
    using Cons.prems parseOne_flag_arg by (subst flag_Parse.simps) (simp add: kv)
qed simp

end
