(* ===== verification/Boot.thy ===== *)
theory Boot
  imports Deployment Lifecycle Startup GoFlag
begin

text \<open>
  How \<open>main\<close> of \<open>cmd/suffren\<close> puts a node together: \<open>engine.New\<close> with all its parts and
  \<open>Engine.Start\<close> with the node's start in it. \<open>dotenv\<close> is \<open>godotenv.Load\<close>: the environment after it,
  as a function of the one before. \<open>netListen\<close> is the error of \<open>net.Listen\<close> on an address, if any.
\<close>

text \<open>An engine and what it refers to: the agreement, the network and the node with its server.\<close>

record assembly =
  asmId :: NodeId
  asmPeers :: "(NodeId, string) gomap"
  asmConfig :: Config
  asmEngine :: Engine
  asmAgreement :: "CounterMap LatticeAgreement"
  asmNetwork :: Network
  asmNode :: "CounterMap Message lifecycle"

text \<open>A missing entry of \<open>peers\<close> is the empty address.\<close>

definition peer_address :: "(NodeId, string) gomap \<Rightarrow> NodeId \<Rightarrow> string" where
  "peer_address ps nodeId = (case map_of ps nodeId of None \<Rightarrow> [] | Some addr \<Rightarrow> addr)"

text \<open>\<open>engine.New\<close>; \<open>None\<close> for a snapshot file that loads as a state with nil inside.\<close>

definition engine_New :: "NodeId \<Rightarrow> (NodeId, string) gomap \<Rightarrow> Config \<Rightarrow> string \<Rightarrow> fs \<Rightarrow> assembly option" where
  "engine_New nodeId ps cfg path disk =
     (let address = peer_address ps nodeId
      in case load_engine ps (ConfigMaxBatchSize (EngineOf cfg)) path nodeId disk of
           None \<Rightarrow> None
         | Some e \<Rightarrow>
             Some \<lparr>asmId = nodeId, asmPeers = ps, asmConfig = cfg, asmEngine = e,
                   asmAgreement = NewLatticeAgreement nodeId ps (CounterMap_Bottom (live e)) True
                     (nat (ConfigMsgChanSize (LatticeAgreementOf cfg))),
                   asmNetwork = NewNetwork address ps,
                   asmNode = NewNode\<rparr>)"

text \<open>
  \<open>Engine.Start\<close>: the node is started, which starts the roles of the agreement, then comes the loop
  of \<open>sync\<close>; the assembly after it and the result, \<open>None\<close> while it runs.
\<close>

definition start_assembly ::
    "(string \<Rightarrow> error option) \<Rightarrow> Time \<Rightarrow> (Time \<times> bool) list \<Rightarrow> assembly \<Rightarrow> assembly \<times> (start_error + unit) option" where
  "start_assembly netListen now rounds a =
     (case Node_Start netListen (netAddress (asmNetwork a)) (asmNode a) of
        Inl err \<Rightarrow> (a, Engine_Start (Some err) (EngineOf (asmConfig a)) now rounds)
      | Inr n \<Rightarrow> (a\<lparr>asmNode := n, asmAgreement := LatticeAgreement_Start (asmAgreement a)\<rparr>,
                  Engine_Start None (EngineOf (asmConfig a)) now rounds))"

text \<open>
  \<open>main\<close>: the flags are parsed, which may end the process; with \<open>-api\<close> the node is started, an error
  of the start is only logged, and the API is served on the given port; without it the interactive
  command gets the node.
\<close>

datatype command_outcome =
    ServesAPI assembly "(start_error + unit) option" string
  | Interactive assembly
  | Exits int

definition suffren_flags :: flags where
  "suffren_flags = [(''api'', FBool False), (''id'', FString []), (''api-port'', FString ''8080'')]"

definition suffren_main ::
    "string list \<Rightarrow> (string \<Rightarrow> string) \<Rightarrow> ((string \<Rightarrow> string) \<Rightarrow> string \<Rightarrow> string) \<Rightarrow> fs \<Rightarrow>
     (string \<Rightarrow> error option) \<Rightarrow> Time \<Rightarrow> (Time \<times> bool) list \<Rightarrow> command_outcome option" where
  "suffren_main args getenv dotenv disk netListen now rounds =
     (case flag_Parse suffren_flags args of
        Inl err \<Rightarrow> Some (Exits (exit_code err))
      | Inr (fl, _) \<Rightarrow>
          (let runAPI = flag_bool fl ''api'';
               nodeIdFlag = flag_string fl ''id'';
               apiPort = flag_string fl ''api-port'';
               nodeId = choose_node_id nodeIdFlag getenv;
               env = dotenv getenv;
               ps = parseStringToPeersMap (env ''PEERS'');
               cfg = DefaultConfig env
           in case engine_New nodeId ps cfg (data_file env nodeId) disk of
                None \<Rightarrow> None
              | Some a \<Rightarrow>
                  Some (if runAPI then
                          (case start_assembly netListen now rounds a of
                             (b, started) \<Rightarrow> ServesAPI b started (''[::]:'' @ apiPort))
                        else Interactive a)))"

section \<open>The parts agree\<close>

text \<open>The reader, the server and the roles are up, once each; or none of them is.\<close>

definition node_up :: "assembly \<Rightarrow> bool" where
  "node_up a \<longleftrightarrow> reader (asmNode a) \<and> accepting (asmNode a) \<and> listenerOpen (asmNode a) \<and>
     list_all (\<lambda>r. goroutines (Router (asmAgreement a)) r = 1) [ProposerRole, AcceptorRole, LearnerRole]"

definition node_down :: "assembly \<Rightarrow> bool" where
  "node_down a \<longleftrightarrow> \<not> reader (asmNode a) \<and> \<not> accepting (asmNode a) \<and>
     list_all (\<lambda>r. goroutines (Router (asmAgreement a)) r = 0) [ProposerRole, AcceptorRole, LearnerRole]"

lemmas assembly_defs = engine_New_def start_assembly_def Node_Start_def Network_Listen_def Server_Listen_def
  NewNode_def NewNetwork_def NewLatticeAgreement_def NewMessageRouter_def LatticeAgreement_Start_def Router_Start_def

lemma start_listens:
  assumes "engine_New nodeId ps cfg path disk = Some a" "map_of ps nodeId = Some addr"
    and "SplitHostPort addr = Inr (host, port)" "netListen (''[::]:'' @ port) = None"
  shows "\<exists>b. start_assembly netListen now rounds a = (b, Engine_Start None (EngineOf cfg) now rounds) \<and> node_up b \<and>
    asmEngine b = asmEngine a \<and> netPeers (asmNetwork b) = ps \<and>
    quorumSize (ProposerOf (asmAgreement b)) = length ps div 2 + 1"
  using assms
  by (auto simp: assembly_defs NewProposer_def node_up_def peer_address_def Let_def split: option.splits)

lemma start_unlisted:
  assumes "engine_New nodeId ps cfg path disk = Some a" "map_of ps nodeId = None"
  shows "start_assembly netListen now rounds a =
      (a, Some (Inl (NodeStartFailed ''network: failed to start listening: missing port in address''))) \<and> node_down a"
  using assms
  by (auto simp: assembly_defs Engine_Start_def node_down_def peer_address_def SplitHostPort_no_colon Let_def
      split: option.splits)

section \<open>Peers for tests\<close>

text \<open>
  \<open>testutils.GeneratePeers3\<close>: three local peers on fresh ports. The counter is an \<open>int32\<close>; each
  \<open>atomic.AddInt32\<close> is one step of it, here of one caller.
\<close>

definition AddInt32 :: "int \<Rightarrow> int \<Rightarrow> int" where
  "AddInt32 counter delta = (counter + delta + 2 ^ 31) mod 2 ^ 32 - 2 ^ 31"

definition GeneratePeers3 :: "int \<Rightarrow> int \<times> (NodeId, string) gomap" where
  "GeneratePeers3 portCounter =
     (let p1 = AddInt32 portCounter 1; p2 = AddInt32 p1 1; p3 = AddInt32 p2 1
      in (p3, [(''N1'', ''localhost:'' @ show_int p1), (''N2'', ''localhost:'' @ show_int p2),
               (''N3'', ''localhost:'' @ show_int p3)]))"

text \<open>The addresses can be listened on and differ, within a call and from those of later calls.\<close>

lemma show_int_digits: "0 \<le> n \<Longrightarrow> show_int n = digits n"
  by (simp add: show_int_def pad_def)

lemma port_digits: "0 \<le> n \<Longrightarrow> c \<in> {CHR '':'', CHR ''['', CHR '']''} \<Longrightarrow> c \<notin> set (show_int n)"
  using digits_digits [of n] by (auto simp: show_int_digits list_all_iff is_digit_def code_def)

lemma show_int_inj: "0 \<le> m \<Longrightarrow> 0 \<le> n \<Longrightarrow> show_int m = show_int n \<longleftrightarrow> m = n"
  using digits_value_digits [of m] digits_value_digits [of n] by (metis show_int_digits)

lemma GeneratePeers3_ports:
  assumes "10000 \<le> k" "k < 2 ^ 31 - 3" "GeneratePeers3 k = (k', ps)"
  shows "k' = k + 3" "gm_ok ps"
    "\<forall>i < 3. SplitHostPort (snd (ps ! i)) = Inr (''localhost'', show_int (k + 1 + int i))"
proof -
  have p: "AddInt32 k 1 = k + 1" "AddInt32 (k + 1) 1 = k + 2" "AddInt32 (k + 2) 1 = k + 3"
    using assms(1,2) by (simp_all add: AddInt32_def)
  then have ps: "k' = k + 3" "ps = [(''N1'', ''localhost:'' @ show_int (k + 1)), (''N2'', ''localhost:'' @ show_int (k + 2)),
      (''N3'', ''localhost:'' @ show_int (k + 3))]"
    using assms(3) by (auto simp: GeneratePeers3_def Let_def)
  then show "k' = k + 3" "gm_ok ps" by (simp_all add: gm_ok_def)
  have "SplitHostPort (''localhost:'' @ show_int n) = Inr (''localhost'', show_int n)" if "0 \<le> n" for n
    using SplitHostPort_plain [of "''localhost''" "show_int n"] port_digits [OF that] by auto
  then show "\<forall>i < 3. SplitHostPort (snd (ps ! i)) = Inr (''localhost'', show_int (k + 1 + int i))"
    using assms(1) by (auto simp: ps(2) numeral_3_eq_3 less_Suc_eq add.commute)
qed

section \<open>A node that was not started\<close>

text \<open>Events of one engine and its callers, without a learned value.\<close>

fun host_run :: "host \<Rightarrow> host_event list \<Rightarrow> host option" where
  "host_run h [] = Some h"
| "host_run h (e # es) = (case host_step h e of None \<Rightarrow> None | Some (h, ps) \<Rightarrow> host_run h es)"

definition unanswered :: "host \<Rightarrow> bool" where
  "unanswered h \<longleftrightarrow>
     set (doneChans (engineOf h)) \<subseteq> {None} \<and>
     (\<forall>c \<in> set (clients h). chanOf c < length (doneChans (engineOf h)) \<and>
        (case phaseOf c of Waiting \<Rightarrow> True | Woken v \<Rightarrow> v = None | Returned r \<Rightarrow> r = (0, False)))"

lemma begin_unanswered:
  assumes "begin_call s a = (s', op, ch, ps)"
  shows "doneChans s' = doneChans s @ [None] \<and> ch = length (doneChans s)"
  using assms
  by (cases a) (auto simp: IncrementKey_begin_def ValueForKey_begin_def sync_begin_def registerPendingLocked_def
      addOpToBatchLocked_def set_live_def Let_def split: if_splits)

lemma call_result_None [simp]: "call_result a None = (0, False)"
  by (cases a) (simp_all add: op_result_def)

lemma finish_None [simp]: "doneChans (finish_call s c None) = doneChans s"
  by (simp add: finish_call_def sync_end_def unregisterPending_def)

lemma flusher_doneChans: "flusher s c = Some (s', p, go) \<Longrightarrow> doneChans s' = doneChans s"
  by (cases c) (auto simp: flush_def split: if_splits)

lemma unanswered_step:
  assumes u: "unanswered h" and "host_step h e = Some (h', ps)"
  shows "unanswered h'"
proof (cases e)
  case (HBegin a)
  then show ?thesis using assms begin_unanswered [of "engineOf h" a]
    by (auto simp: unanswered_def less_Suc_eq split: if_splits prod.splits)
next
  case (HWake k timeout)
  then have k: "k < length (clients h)" using assms(2) by (simp split: if_splits)
  then have "chanOf (clients h ! k) < length (doneChans (engineOf h))" using u by (simp add: unanswered_def)
  then have "doneChans (engineOf h) ! chanOf (clients h ! k) = None" using u nth_mem unfolding unanswered_def by blast
  then have "h' = h\<lparr>clients := (clients h)[k := (clients h ! k)\<lparr>phaseOf := Woken None\<rparr>]\<rparr>"
    using assms(2) HWake by (auto simp: waitForLearn_def split: if_splits)
  then show ?thesis using u k by (auto simp: unanswered_def dest!: set_update_subset_insert [THEN subsetD])
next
  case (HReturn k)
  then obtain v where k: "k < length (clients h)" "phaseOf (clients h ! k) = Woken v"
    using assms(2) by (auto split: if_splits phase.splits)
  then have "v = None" using u [unfolded unanswered_def, THEN conjunct2, rule_format, OF nth_mem [OF k(1)]] by simp
  then show ?thesis using assms HReturn k
    by (auto simp: unanswered_def Let_def dest!: set_update_subset_insert [THEN subsetD])
qed (use assms flusher_doneChans [of "engineOf h"] in
    \<open>auto simp: unanswered_def Engine_Stop_def split: if_splits option.splits sum.splits\<close>)

lemma unanswered_run: "unanswered h \<Longrightarrow> host_run h es = Some h' \<Longrightarrow> unanswered h'"
  by (induction es arbitrary: h) (auto split: option.splits dest: unanswered_step)

lemma loaded_unanswered: "load_engine ps mb path i d = Some e \<Longrightarrow> unanswered (new_host e)"
  by (auto simp: load_engine_def NewEngine_def new_host_def unanswered_def Let_def split: load_result.splits)

text \<open>An environment with three peers and a new disk.\<close>

definition three_peers :: "(NodeId, string) gomap" where
  "three_peers = [(''N1'', ''localhost:8031''), (''N2'', ''localhost:8032''), (''N3'', ''localhost:8033'')]"

definition peers_env :: "string \<Rightarrow> string" where
  "peers_env x = (if x = ''PEERS'' then ''N1:localhost:8031,N2:localhost:8032,N3:localhost:8033'' else [])"

lemma load_new_disk: "\<exists>e. load_engine ps mb path i empty_fs = Some e"
  by (simp add: load_engine_def FileStorage_Load_def visible_def empty_fs_def)

lemma three_peers_shown: "peers_env ''PEERS'' = comma (map show_peer three_peers)"
  by (simp add: peers_env_def three_peers_def show_peer_def)

lemma three_peers_ok: "gm_ok three_peers" "three_peers \<noteq> []"
    "\<forall>p \<in> set three_peers. CHR '','' \<notin> set (fst p) \<and> CHR '','' \<notin> set (snd p) \<and> CHR '':'' \<notin> set (fst p)"
  by (simp_all add: three_peers_def gm_ok_def)

lemma suffren_args_read:
  fixes b :: bool and i p :: string
  defines "fl \<equiv> [(''api'', FBool b), (''id'', FString i), (''api-port'', FString p)]"
  shows "flag_Parse suffren_flags (map flag_arg fl) = Inr (fl, [])"
proof -
  have "list_all (settable suffren_flags) fl" by (simp add: fl_def suffren_flags_def settable_def)
  from flag_Parse_args [OF this, of "[]"] show ?thesis
    by (simp add: flag_Parse.simps [of _ "[]"]) (simp add: fl_def suffren_flags_def gm_set_def)
qed

definition command_flags :: "string \<Rightarrow> flags" where
  "command_flags i = [(''api'', FBool True), (''id'', FString i), (''api-port'', FString ''8081'')]"

section \<open>Properties\<close>

text \<open>
  C32: a node joins the cluster of its environment. When \<open>PEERS\<close> is the list of the nodes, written
  \<open>name:address\<close> with commas, and the node's own entry has an address \<open>host:port\<close>, \<open>main\<close> loads the
  engine from the data file of this node, sends to exactly those peers, needs a majority of them, and
  once its port is bound on all interfaces the reader, the server and the three roles run, once each,
  and \<open>Start\<close> has the result of its loop of \<open>sync\<close>.
\<close>

theorem main_joins_cluster:
  assumes "flag_Parse suffren_flags args = Inr (fl, rest)" "flag_bool fl ''api''"
    and "gm_ok ps" "ps \<noteq> []"
    and "\<forall>p \<in> set ps. CHR '','' \<notin> set (fst p) \<and> CHR '','' \<notin> set (snd p) \<and> CHR '':'' \<notin> set (fst p)"
    and "dotenv getenv ''PEERS'' = comma (map show_peer ps)"
    and "map_of ps (choose_node_id (flag_string fl ''id'') getenv) = Some (host @ CHR '':'' # port)"
    and "set host \<inter> {CHR '':'', CHR ''['', CHR '']''} = {}" "set port \<inter> {CHR '':'', CHR ''['', CHR '']''} = {}"
    and "netListen (''[::]:'' @ port) = None"
    and "load_engine ps (ConfigMaxBatchSize (EngineOf (DefaultConfig (dotenv getenv))))
           (data_file (dotenv getenv) (choose_node_id (flag_string fl ''id'') getenv)) (choose_node_id (flag_string fl ''id'') getenv) disk = Some e"
  shows "\<exists>b. suffren_main args getenv dotenv disk netListen now rounds =
      Some (ServesAPI b (Engine_Start None (EngineOf (DefaultConfig (dotenv getenv))) now rounds) (''[::]:'' @ flag_string fl ''api-port'')) \<and>
    node_up b \<and> asmEngine b = e \<and> netPeers (asmNetwork b) = ps \<and>
    quorumSize (ProposerOf (asmAgreement b)) = length ps div 2 + 1"
proof -
  let ?i = "choose_node_id (flag_string fl ''id'') getenv" and ?env = "dotenv getenv"
  have ps: "parseStringToPeersMap (?env ''PEERS'') = ps" using peers_round_trip [OF assms(3-5)] assms(6) by simp
  obtain a where a: "engine_New ?i ps (DefaultConfig ?env) (data_file ?env ?i) disk = Some a" "asmEngine a = e"
    using assms(11) by (simp add: engine_New_def Let_def)
  from start_listens [where netListen = netListen and port = port, OF a(1) assms(7) SplitHostPort_plain [OF assms(8,9)] assms(10), of now rounds]
  show ?thesis using a assms(1,2) by (auto simp: suffren_main_def ps Let_def)
qed

theorem main_joins_cluster_witness:
  "\<exists>b r. suffren_main [''-api'', ''--id'', ''N2'', ''-api-port=8081''] peers_env (\<lambda>env. env) empty_fs (\<lambda>_. None) 0 [(0, True)] =
      Some (ServesAPI b r ''[::]:8081'') \<and> node_up b \<and> quorumSize (ProposerOf (asmAgreement b)) = 2"
proof -
  obtain e where e: "load_engine three_peers (ConfigMaxBatchSize (EngineOf (DefaultConfig peers_env)))
      (data_file peers_env ''N2'') ''N2'' empty_fs = Some e" using load_new_disk by blast
  have parsed: "flag_Parse suffren_flags [''-api'', ''--id'', ''N2'', ''-api-port=8081''] = Inr (command_flags ''N2'', [])"
    "flag_bool (command_flags ''N2'') ''api''" "flag_string (command_flags ''N2'') ''id'' = ''N2''"
    "flag_string (command_flags ''N2'') ''api-port'' = ''8081''"
    by code_simp+
  moreover have "choose_node_id ''N2'' peers_env = ''N2''" by (simp add: choose_node_id_def)
  ultimately show ?thesis
    using main_joins_cluster [where ps = three_peers and getenv = peers_env and dotenv = "\<lambda>env. env"
        and host = "''localhost''" and port = "''8032''" and netListen = "\<lambda>_. None" and disk = empty_fs and e = e
        and now = 0 and rounds = "[(0, True)]", OF parsed(1,2) three_peers_ok three_peers_shown] e
    by (force simp: three_peers_def)
qed

text \<open>
  C33: a node whose id is not in \<open>PEERS\<close> serves the API without a cluster. Its address is empty, so
  \<open>Start\<close> fails; \<open>main\<close> logs that and serves on its port all the same. No role, no server and no
  flusher runs, and in every sequence of events of the engine and its callers each call that returns
  has failed.
\<close>

theorem unlisted_node_serves_failures:
  assumes "flag_Parse suffren_flags args = Inr (fl, rest)" "flag_bool fl ''api''"
    and "choose_node_id (flag_string fl ''id'') getenv \<notin> gm_dom (parseStringToPeersMap (dotenv getenv ''PEERS''))"
    and "load_engine (parseStringToPeersMap (dotenv getenv ''PEERS''))
           (ConfigMaxBatchSize (EngineOf (DefaultConfig (dotenv getenv))))
           (data_file (dotenv getenv) (choose_node_id (flag_string fl ''id'') getenv)) (choose_node_id (flag_string fl ''id'') getenv) disk = Some e"
  shows "\<exists>a. suffren_main args getenv dotenv disk netListen now rounds =
      Some (ServesAPI a (Some (Inl (NodeStartFailed ''network: failed to start listening: missing port in address'')))
        (''[::]:'' @ flag_string fl ''api-port'')) \<and>
    node_down a \<and>
    (\<forall>es h. host_run (new_host (asmEngine a)) es = Some h \<longrightarrow>
       (\<forall>c \<in> set (clients h). \<forall>r. phaseOf c = Returned r \<longrightarrow> r = (0, False)))"
proof -
  let ?i = "choose_node_id (flag_string fl ''id'') getenv" and ?env = "dotenv getenv"
  let ?ps = "parseStringToPeersMap (?env ''PEERS'')"
  obtain a where a: "engine_New ?i ?ps (DefaultConfig ?env) (data_file ?env ?i) disk = Some a" "asmEngine a = e"
    using assms(4) by (simp add: engine_New_def Let_def)
  have "map_of ?ps ?i = None" using assms(3) by (simp add: gm_dom_def map_of_eq_None_iff)
  note s = start_unlisted [OF a(1) this, of netListen now rounds]
  have "r = (0, False)" if "host_run (new_host e) es = Some h" "c \<in> set (clients h)" "phaseOf c = Returned r" for es h c r
    using unanswered_run [OF loaded_unanswered [OF assms(4)] that(1)] that(2,3) by (fastforce simp: unanswered_def)
  then have fails: "\<forall>es h. host_run (new_host (asmEngine a)) es = Some h \<longrightarrow>
      (\<forall>c \<in> set (clients h). \<forall>r. phaseOf c = Returned r \<longrightarrow> r = (0, False))"
    unfolding a(2) by blast
  have "suffren_main args getenv dotenv disk netListen now rounds =
      Some (ServesAPI a (Some (Inl (NodeStartFailed ''network: failed to start listening: missing port in address'')))
        (''[::]:'' @ flag_string fl ''api-port''))"
    using s a(1) assms(1,2) by (simp add: suffren_main_def Let_def)
  with fails s show ?thesis by blast
qed

theorem unlisted_node_serves_failures_witness:
  "\<exists>a err. suffren_main [''-api=1'', ''-api-port'', ''8081'', ''-id=N4''] peers_env (\<lambda>env. env) empty_fs (\<lambda>_. None) 0 [(0, True)] =
      Some (ServesAPI a (Some (Inl err)) ''[::]:8081'') \<and> node_down a"
proof -
  have ps: "parseStringToPeersMap (peers_env ''PEERS'') = three_peers"
    using peers_round_trip [OF three_peers_ok] three_peers_shown by simp
  obtain e where e: "load_engine three_peers (ConfigMaxBatchSize (EngineOf (DefaultConfig peers_env)))
      (data_file peers_env ''N4'') ''N4'' empty_fs = Some e" using load_new_disk by blast
  have parsed: "flag_Parse suffren_flags [''-api=1'', ''-api-port'', ''8081'', ''-id=N4''] = Inr (command_flags ''N4'', [])"
    "flag_bool (command_flags ''N4'') ''api''" "flag_string (command_flags ''N4'') ''id'' = ''N4''"
    "flag_string (command_flags ''N4'') ''api-port'' = ''8081''"
    by code_simp+
  moreover have "choose_node_id ''N4'' peers_env = ''N4''" by (simp add: choose_node_id_def)
  moreover have "''N4'' \<notin> gm_dom three_peers" by (simp add: three_peers_def gm_dom_def)
  ultimately show ?thesis
    using unlisted_node_serves_failures [where getenv = peers_env and dotenv = "\<lambda>env. env"
        and disk = empty_fs and e = e and netListen = "\<lambda>_. None" and now = 0 and rounds = "[(0, True)]", OF parsed(1,2)]
      e ps by force
qed

end
