(* ===== verification/Limiter.thy ===== *)
theory Limiter
  imports GoTime Engine
begin

text \<open>
  \<open>internal/limiter/limiter.go\<close>: a sliding-window rate limiter on top of the engine's
  counters. The limiter talks to an engine and a clock; \<open>Backend\<close> is that interface as a record
  of the calls it makes, on a state of type \<open>'e\<close> that stands for everything the calls may
  depend on and change. \<open>platform\<close> is what the machine returns for a conversion
  \<open>uint64(f)\<close> of a float outside the range, which Go leaves open. The products and sums are
  rounded one by one (no fused multiply-add), as on amd64.
\<close>

record 'e Backend =
  callIncrementKey :: "string \<Rightarrow> uint64 \<Rightarrow> 'e \<Rightarrow> (uint64 \<times> bool) \<times> 'e"
  callValueForKey :: "string \<Rightarrow> 'e \<Rightarrow> (uint64 \<times> bool) \<times> 'e"
  callValueForKeyLocal :: "string \<Rightarrow> 'e \<Rightarrow> uint64 \<times> 'e"
  callClock :: "'e \<Rightarrow> Time \<times> 'e"

record Decision =
  Allowed :: bool
  Current :: uint64
  DecisionLimit :: uint64
  Remaining :: uint64
  ResetAt :: Time
  Error :: "string option"

record Rule =
  RuleLimit :: uint64
  Window :: Duration

text \<open>A decision with only an error set; the zero value of a \<open>time.Time\<close> is 0.\<close>

definition error_decision :: "string \<Rightarrow> Decision" where
  "error_decision err =
     \<lparr>Allowed = False, Current = 0, DecisionLimit = 0, Remaining = 0, ResetAt = 0, Error = Some err\<rparr>"

definition window_seconds :: "Duration \<Rightarrow> int" where
  "window_seconds d = (case Duration_Seconds d of Fin x \<Rightarrow> truncate_rat x | _ \<Rightarrow> 0)"

definition buildKey :: "string \<Rightarrow> string \<Rightarrow> Rule \<Rightarrow> Time \<Rightarrow> string" where
  "buildKey identifier resource rule windowStart =
     (let timeStr = rfc3339 windowStart
      in identifier @ '':'' @ resource @ '':'' @ show_int (window_seconds (Window rule)) @ ''s:'' @ timeStr)"

definition estimate :: "(f64 \<Rightarrow> uint64) \<Rightarrow> Rule \<Rightarrow> Time \<Rightarrow> Time \<Rightarrow> uint64 \<Rightarrow> uint64 \<Rightarrow> uint64" where
  "estimate platform rule now currentWindowStart prevCount currentCount =
     (let spentTimeInCurrentWindow = now - currentWindowStart;
          weightOfPreviousWindow =
            f64_sub (f64_of_int 1)
              (f64_div (f64_of_int spentTimeInCurrentWindow) (f64_of_int (Window rule)));
          estimatedTotal =
            f64_add (f64_mul (f64_of_int (uint prevCount)) weightOfPreviousWindow) (f64_of_int (uint currentCount))
      in f64_to_uint64 platform estimatedTotal)"

definition incrementAndGetTotalCountInSlidingWindow ::
    "(f64 \<Rightarrow> uint64) \<Rightarrow> 'e Backend \<Rightarrow> string \<Rightarrow> string \<Rightarrow> uint64 \<Rightarrow> Rule \<Rightarrow> 'e \<Rightarrow> (uint64 \<times> bool) \<times> 'e" where
  "incrementAndGetTotalCountInSlidingWindow platform b identifier resource v rule e =
     (let (now, e) = callClock b e;
          currentWindowStart = Time_Truncate now (Window rule);
          previousWindowStart = currentWindowStart + - Window rule;
          currentKey = buildKey identifier resource rule currentWindowStart;
          previousKey = buildKey identifier resource rule previousWindowStart;
          ((currentCount, ok), e) = callIncrementKey b currentKey v e
      in if \<not> ok then ((0, False), e)
         else
           (let (prevCount, e) = callValueForKeyLocal b previousKey e
            in ((estimate platform rule now currentWindowStart prevCount currentCount, True), e)))"

definition getTotalCountInSlidingWindow ::
    "(f64 \<Rightarrow> uint64) \<Rightarrow> 'e Backend \<Rightarrow> string \<Rightarrow> string \<Rightarrow> Rule \<Rightarrow> 'e \<Rightarrow> (uint64 \<times> bool) \<times> 'e" where
  "getTotalCountInSlidingWindow platform b identifier resource rule e =
     (let (now, e) = callClock b e;
          currentWindowStart = Time_Truncate now (Window rule);
          previousWindowStart = currentWindowStart + - Window rule;
          currentKey = buildKey identifier resource rule currentWindowStart;
          previousKey = buildKey identifier resource rule previousWindowStart;
          ((currentCount, ok), e) = callValueForKey b currentKey e
      in if \<not> ok then ((0, False), e)
         else
           (let (prevCount, e) = callValueForKeyLocal b previousKey e
            in ((estimate platform rule now currentWindowStart prevCount currentCount, True), e)))"

definition getTotalCountInSlidingWindowLocal ::
    "(f64 \<Rightarrow> uint64) \<Rightarrow> 'e Backend \<Rightarrow> string \<Rightarrow> string \<Rightarrow> Rule \<Rightarrow> 'e \<Rightarrow> uint64 \<times> 'e" where
  "getTotalCountInSlidingWindowLocal platform b identifier resource rule e =
     (let (now, e) = callClock b e;
          currentWindowStart = Time_Truncate now (Window rule);
          previousWindowStart = currentWindowStart + - Window rule;
          currentKey = buildKey identifier resource rule currentWindowStart;
          previousKey = buildKey identifier resource rule previousWindowStart;
          (prevCount, e) = callValueForKeyLocal b previousKey e;
          (currentCount, e) = callValueForKeyLocal b currentKey e
      in (estimate platform rule now currentWindowStart prevCount currentCount, e))"

definition Limiter_Check ::
    "(f64 \<Rightarrow> uint64) \<Rightarrow> 'e Backend \<Rightarrow> string \<Rightarrow> string \<Rightarrow> uint64 \<Rightarrow> Rule \<Rightarrow> 'e \<Rightarrow> Decision \<times> 'e" where
  "Limiter_Check platform b identifier resource v rule e =
     (let (consumedLocal, e) = getTotalCountInSlidingWindowLocal platform b identifier resource rule e
      in if consumedLocal \<ge> RuleLimit rule then
           (let (now, e) = callClock b e
            in (\<lparr>Allowed = False, Current = RuleLimit rule, DecisionLimit = RuleLimit rule, Remaining = 0,
                 ResetAt = Time_Truncate now (Window rule) + Window rule, Error = None\<rparr>, e))
         else
           (let ((consumed, ok), e) =
              incrementAndGetTotalCountInSlidingWindow platform b identifier resource v rule e
            in if \<not> ok then
                 (error_decision (''failed to check key: '' @ identifier @ '', resource: '' @ resource), e)
               else
                 (let allowed = (consumed \<le> RuleLimit rule);
                      remaining = (if allowed then RuleLimit rule - consumed else 0);
                      (now, e) = callClock b e
                  in (\<lparr>Allowed = allowed, Current = min consumed (RuleLimit rule),
                       DecisionLimit = RuleLimit rule, Remaining = max remaining 0,
                       ResetAt = Time_Truncate now (Window rule) + Window rule, Error = None\<rparr>, e))))"

definition Limiter_Status ::
    "(f64 \<Rightarrow> uint64) \<Rightarrow> 'e Backend \<Rightarrow> string \<Rightarrow> string \<Rightarrow> Rule \<Rightarrow> 'e \<Rightarrow> Decision \<times> 'e" where
  "Limiter_Status platform b identifier resource rule e =
     (let ((consumed, ok), e) = getTotalCountInSlidingWindow platform b identifier resource rule e
      in if \<not> ok then
           (error_decision (''failed to get status for key: '' @ identifier @ '', resource: '' @ resource), e)
         else
           (let remaining = RuleLimit rule - consumed;
                (now, e) = callClock b e
            in (\<lparr>Allowed = False, Current = min consumed (RuleLimit rule), DecisionLimit = RuleLimit rule,
                 Remaining = max remaining 0,
                 ResetAt = Time_Truncate now (Window rule) + Window rule, Error = None\<rparr>, e)))"

text \<open>
  A client that asks again and again for the same resource, with the values it requests, and what
  it was granted.
\<close>

fun checks where
  "checks platform b identifier resource rule [] e = ([], e)"
| "checks platform b identifier resource rule (v # vs) e =
     (let (d, e1) = Limiter_Check platform b identifier resource v rule e;
          (ds, e2) = checks platform b identifier resource rule vs e1
      in (d # ds, e2))"

fun granted :: "uint64 list \<Rightarrow> Decision list \<Rightarrow> nat" where
  "granted (v # vs) (d # ds) = (if Allowed d then unat v else 0) + granted vs ds"
| "granted _ _ = 0"

section \<open>The estimate\<close>

lemma f64_of_int_exact: "0 \<le> n \<Longrightarrow> n < 2 ^ 53 \<Longrightarrow> f64_of_int n = Fin (of_int n)"
  by (simp add: f64_of_int_def round53_int)

text \<open>The weight of the previous window is between 0 and 1, rounding included.\<close>

lemma weight_bounds:
  assumes "0 \<le> spent" "spent < w"
  shows "\<exists>x. f64_sub (f64_of_int 1) (f64_div (f64_of_int spent) (f64_of_int w)) = Fin x \<and> 0 \<le> x \<and> x \<le> 1"
proof -
  have w: "0 < round53 (of_int w)" and s: "0 \<le> round53 (of_int spent)" "round53 (of_int spent) \<le> round53 (of_int w)"
    using round53_mono [of 1 "of_int w"] round53_int [of 1] round53_mono [of 0 "of_int spent"]
      round53_mono [of "of_int spent" "of_int w"] assms by (simp_all add: round53_def)
  let ?q = "round53 (round53 (of_int spent) / round53 (of_int w))"
  have "0 \<le> ?q" "?q \<le> 1"
    using round53_between [of 0 "round53 (of_int spent) / round53 (of_int w)" 1] w s by simp_all
  then have "0 \<le> round53 (1 - ?q)" "round53 (1 - ?q) \<le> 1"
    using round53_between [of 0 "1 - ?q" 1] by simp_all
  then show ?thesis
    using w by (simp add: f64_sub_def f64_of_int_def round53_int)
qed

lemma weighted_sum_bounds:
  assumes "0 \<le> x" "x \<le> 1" "0 \<le> a" "0 \<le> b" "a + b < 2 ^ 53"
  shows "b \<le> truncate_rat (round53 (round53 (of_int a * x) + of_int b))"
    "truncate_rat (round53 (round53 (of_int a * x) + of_int b)) \<le> a + b"
proof -
  let ?y = "round53 (of_int a * x)"
  have "of_int a * x \<le> of_int a" using assms by (simp add: mult_left_le)
  then have "0 \<le> ?y" "?y \<le> of_int a"
    using round53_between [of 0 "of_int a * x" a] assms by simp_all
  then have z: "of_int b \<le> round53 (?y + of_int b)" "round53 (?y + of_int b) \<le> of_int (a + b)"
    using round53_between [of b "?y + of_int b" "a + b"] assms by simp_all
  moreover have "0 \<le> round53 (?y + of_int b)" using z(1) assms(4) by (meson of_int_0_le_iff order_trans)
  ultimately show "b \<le> truncate_rat (round53 (?y + of_int b))" "truncate_rat (round53 (?y + of_int b)) \<le> a + b"
    unfolding truncate_rat_def using assms(3,4) by (auto simp: le_floor_iff intro: floor_le_iff [THEN iffD2])
qed

lemma estimate_bounds:
  assumes w: "0 < Window rule" "start \<le> now" "now < start + Window rule"
    and small: "unat prev + unat cur < 2 ^ 53"
  shows "unat cur \<le> unat (estimate platform rule now start prev cur) \<and>
    unat (estimate platform rule now start prev cur) \<le> unat prev + unat cur"
proof -
  obtain x where x: "f64_sub (f64_of_int 1) (f64_div (f64_of_int (now - start)) (f64_of_int (Window rule))) = Fin x"
    "0 \<le> x" "x \<le> 1"
    using weight_bounds [of "now - start" "Window rule"] w by auto
  define a b where ab: "a = uint prev" "b = uint cur"
  have nn: "0 \<le> a" "0 \<le> b" by (simp_all add: ab)
  have "int (unat prev + unat cur) < int (2 ^ 53)" using small by (simp only: of_nat_less_iff)
  then have "int (unat prev) + int (unat cur) < 2 ^ 53" by simp
  then have sum: "a + b < 2 ^ 53" by (simp only: ab uint_nat)
  define t where "t = truncate_rat (round53 (round53 (of_int a * x) + of_int b))"
  have t: "b \<le> t" "t \<le> a + b"
    using weighted_sum_bounds [OF x(2,3) nn sum] by (simp_all add: t_def)
  have "estimate platform rule now start prev cur = word_of_int t"
    using x t nn sum unfolding estimate_def t_def ab(1) [symmetric] ab(2) [symmetric]
    by (simp add: f64_of_int_exact)
  moreover have "uint (word_of_int t :: uint64) = t"
    using t nn sum by (simp add: uint_word_of_int)
  ultimately have "int (unat (estimate platform rule now start prev cur)) = t"
    by (metis uint_nat)
  then have "int (unat cur) \<le> int (unat (estimate platform rule now start prev cur))"
    "int (unat (estimate platform rule now start prev cur)) \<le> int (unat prev) + int (unat cur)"
    using t by (simp_all only: ab uint_nat)
  then show ?thesis by linarith
qed

section \<open>The keys\<close>

lemma buildKey_eq_iff:
  "0 \<le> t \<Longrightarrow> 0 \<le> t' \<Longrightarrow>
   buildKey idn res rule t = buildKey idn res rule t' \<longleftrightarrow> t div Second = t' div Second"
  by (simp add: buildKey_def Let_def rfc3339_eq_iff)

lemma window_keys_differ:
  assumes "Second \<le> Window rule" "Window rule \<le> w"
  shows "buildKey idn res rule (w - Window rule) \<noteq> buildKey idn res rule w"
proof -
  have "(w - Window rule) div Second \<le> (w - Second) div Second"
    using assms(1) by (intro zdiv_mono1) (simp_all add: Second_def)
  also have "\<dots> < w div Second" by (simp add: Second_def)
  finally show ?thesis using assms by (simp add: buildKey_eq_iff Second_def)
qed

section \<open>The contract of a quiet engine\<close>

text \<open>
  What the limiter relies on when no other traffic reaches the node: \<open>view\<close> is the node's local
  count per key and \<open>readings\<close> the times the clock may show. An increment adds to its key, also
  when it times out, and a successful call returns the count.
\<close>

locale quiet_backend =
  fixes b :: "'e Backend" and inv :: "'e \<Rightarrow> bool" and view :: "'e \<Rightarrow> string \<Rightarrow> uint64"
    and readings :: "'e \<Rightarrow> Time set"
  assumes clock_law: "inv e \<Longrightarrow> callClock b e = (t, e') \<Longrightarrow>
      inv e' \<and> view e' = view e \<and> t \<in> readings e \<and> readings e' \<subseteq> readings e"
    and local_law: "inv e \<Longrightarrow> callValueForKeyLocal b k e = (x, e') \<Longrightarrow>
      inv e' \<and> view e' = view e \<and> readings e' \<subseteq> readings e \<and> x = view e k"
    and value_law: "inv e \<Longrightarrow> callValueForKey b k e = ((x, ok), e') \<Longrightarrow>
      inv e' \<and> view e' = view e \<and> readings e' \<subseteq> readings e \<and> (ok \<longrightarrow> x = view e k)"
    and increment_law: "inv e \<Longrightarrow> callIncrementKey b k v e = ((x, ok), e') \<Longrightarrow>
      inv e' \<and> view e' = (view e)(k := view e k + v) \<and> readings e' \<subseteq> readings e \<and>
      (ok \<longrightarrow> x = view e k + v)"
begin

text \<open>All clock readings fall into the window that starts at \<open>w\<close>.\<close>

definition in_window :: "Rule \<Rightarrow> Time \<Rightarrow> 'e \<Rightarrow> bool" where
  "in_window rule w e \<longleftrightarrow> 0 < Window rule \<and> w mod Window rule = 0 \<and>
     (\<forall>t \<in> readings e. w \<le> t \<and> t < w + Window rule)"

lemma truncate_in_window:
  "in_window rule w e \<Longrightarrow> t \<in> readings e \<Longrightarrow>
   Time_Truncate t (Window rule) = w \<and> w \<le> t \<and> t < w + Window rule"
proof -
  assume a: "in_window rule w e" "t \<in> readings e"
  then have w: "0 < Window rule" "w mod Window rule = 0" "w \<le> t" "t < w + Window rule"
    by (auto simp: in_window_def)
  have "t mod Window rule = (w + (t - w)) mod Window rule" by simp
  also have "\<dots> = (t - w) mod Window rule" using w(2) by (metis add_0 mod_add_left_eq)
  also have "\<dots> = t - w" using w by simp
  finally show ?thesis using w by (simp add: Time_Truncate_def)
qed

lemma local_total:
  assumes "inv e" "in_window rule w e"
    and "getTotalCountInSlidingWindowLocal platform b idn res rule e = (c, e')"
  shows "inv e' \<and> view e' = view e \<and> in_window rule w e' \<and>
    (\<exists>t. w \<le> t \<and> t < w + Window rule \<and>
       c = estimate platform rule t w (view e (buildKey idn res rule (w - Window rule)))
             (view e (buildKey idn res rule w)))"
proof -
  obtain t e1 where t: "callClock b e = (t, e1)" by force
  note c = clock_law [OF assms(1) t]
  obtain p e2 where p: "callValueForKeyLocal b (buildKey idn res rule (w - Window rule)) e1 = (p, e2)" by force
  note l1 = local_law [OF _ p]
  obtain q e3 where q: "callValueForKeyLocal b (buildKey idn res rule w) e2 = (q, e3)" by force
  note l2 = local_law [OF _ q]
  have tr: "Time_Truncate t (Window rule) = w" "w \<le> t" "t < w + Window rule"
    using truncate_in_window [OF assms(2)] c by auto
  have "c = estimate platform rule t w p q" "e' = e3"
    using assms(3) by (simp_all add: getTotalCountInSlidingWindowLocal_def t p q tr(1))
  then show ?thesis
    using c l1 l2 tr assms(2) by (auto simp: in_window_def)
qed

lemma increment_total:
  assumes "inv e" "in_window rule w e"
    and "incrementAndGetTotalCountInSlidingWindow platform b idn res v rule e = ((c, ok), e')"
  defines "K \<equiv> buildKey idn res rule w"
  shows "inv e' \<and> view e' = (view e)(K := view e K + v) \<and> in_window rule w e' \<and>
    (ok \<longrightarrow> (\<exists>t. w \<le> t \<and> t < w + Window rule \<and>
       c = estimate platform rule t w (view e' (buildKey idn res rule (w - Window rule))) (view e K + v)))"
proof -
  obtain t e1 where t: "callClock b e = (t, e1)" by force
  note c = clock_law [OF assms(1) t]
  obtain x o1 e2 where i: "callIncrementKey b K v e1 = ((x, o1), e2)" by (metis surj_pair)
  note l1 = increment_law [OF _ i]
  obtain p e3 where p: "callValueForKeyLocal b (buildKey idn res rule (w - Window rule)) e2 = (p, e3)" by force
  note l2 = local_law [OF _ p]
  have tr: "Time_Truncate t (Window rule) = w" "w \<le> t" "t < w + Window rule"
    using truncate_in_window [OF assms(2)] c by auto
  have "(if o1 then ((estimate platform rule t w p x, True), e3) else ((0, False), e2)) = ((c, ok), e')"
    using assms(3) i
    by (cases o1) (simp_all add: incrementAndGetTotalCountInSlidingWindow_def t p tr(1) K_def)
  then show ?thesis
    using c l1 l2 tr assms(2) by (auto simp: in_window_def split: if_splits)
qed

text \<open>A check either refuses on the local estimate and leaves the counts alone, or adds the value.\<close>

definition estimated :: "(f64 \<Rightarrow> uint64) \<Rightarrow> Rule \<Rightarrow> Time \<Rightarrow> string \<Rightarrow> string \<Rightarrow> 'e \<Rightarrow> uint64 \<Rightarrow> bool" where
  "estimated platform rule w idn res e c \<longleftrightarrow>
     (\<exists>t. w \<le> t \<and> t < w + Window rule \<and>
        c = estimate platform rule t w (view e (buildKey idn res rule (w - Window rule)))
              (view e (buildKey idn res rule w)))"

lemma check_cases:
  assumes "inv e" "in_window rule w e"
    and "Limiter_Check platform b idn res v rule e = (d, e')"
  obtains (refused) c where "estimated platform rule w idn res e c" "RuleLimit rule \<le> c"
      "\<not> Allowed d" "Error d = None" "inv e'" "in_window rule w e'" "view e' = view e"
  | (failed) "\<not> Allowed d" "Error d \<noteq> None" "inv e'" "in_window rule w e'"
      "view e' = (view e)(buildKey idn res rule w := view e (buildKey idn res rule w) + v)"
  | (counted) c c' where "estimated platform rule w idn res e c" "c < RuleLimit rule"
      "estimated platform rule w idn res e' c'" "Allowed d \<longleftrightarrow> c' \<le> RuleLimit rule" "Error d = None"
      "inv e'" "in_window rule w e'"
      "view e' = (view e)(buildKey idn res rule w := view e (buildKey idn res rule w) + v)"
proof -
  obtain c0 e1 where l: "getTotalCountInSlidingWindowLocal platform b idn res rule e = (c0, e1)" by force
  have lt: "inv e1" "view e1 = view e" "in_window rule w e1" "estimated platform rule w idn res e c0"
    using local_total [OF assms(1,2) l] by (auto simp: estimated_def)
  obtain t0 e2 where t0: "callClock b e1 = (t0, e2)" by force
  obtain c ok e3 where i: "incrementAndGetTotalCountInSlidingWindow platform b idn res v rule e1 = ((c, ok), e3)"
    by (metis surj_pair)
  obtain t1 e4 where t1: "callClock b e3 = (t1, e4)" by force
  have it: "inv e3" "view e3 = (view e)(buildKey idn res rule w := view e (buildKey idn res rule w) + v)"
      "in_window rule w e3" and est: "ok \<Longrightarrow> estimated platform rule w idn res e3 c"
    using increment_total [OF lt(1,3) i] lt(2) by (auto simp: estimated_def)
  have c0: "inv e2" "view e2 = view e" "in_window rule w e2"
    using clock_law [OF lt(1) t0] lt by (auto simp: in_window_def)
  have c1: "inv e4" "view e4 = view e3" "in_window rule w e4"
    using clock_law [OF it(1) t1] it by (auto simp: in_window_def)
  have est4: "ok \<Longrightarrow> estimated platform rule w idn res e4 c" using est c1(2) by (simp add: estimated_def)
  note ck = assms(3) [unfolded Limiter_Check_def l]
  show thesis
  proof (cases "RuleLimit rule \<le> c0")
    case True
    then have "\<not> Allowed d" "Error d = None" "e' = e2" using ck by (auto simp: t0 Let_def)
    then show thesis using refused [OF lt(4) True] c0 by simp
  next
    case False
    show thesis
    proof (cases ok)
      case True
      then have d: "Allowed d \<longleftrightarrow> c \<le> RuleLimit rule" "Error d = None" "e' = e4"
        using ck False by (auto simp: i t1 Let_def)
      then show thesis using counted [OF lt(4) _ _ d(1,2)] False est4 [OF True] c1 it(2) by simp
    next
      case no: False
      then have "\<not> Allowed d" "Error d \<noteq> None" "e' = e3"
        using ck False by (auto simp: i error_decision_def Let_def)
      then show thesis using failed it by simp
    qed
  qed
qed

lemma unat_add_small: "unat x + unat y < 2 ^ 53 \<Longrightarrow> unat (x + y) = unat x + unat y" for x y :: uint64
  by (rule unat_add_no_overflow) (erule less_trans, simp)

lemma estimated_bounds:
  assumes "in_window rule w e" "estimated platform rule w idn res e c"
    and "unat (view e (buildKey idn res rule (w - Window rule))) + unat (view e (buildKey idn res rule w)) < 2 ^ 53"
  shows "unat (view e (buildKey idn res rule w)) \<le> unat c"
    "unat c \<le> unat (view e (buildKey idn res rule (w - Window rule))) + unat (view e (buildKey idn res rule w))"
  using assms estimate_bounds [of rule w] by (auto simp: estimated_def in_window_def)

lemma granted_bound:
  assumes "inv e" "in_window rule w e" "checks platform b idn res rule vs e = (ds, e')"
    and "buildKey idn res rule (w - Window rule) \<noteq> buildKey idn res rule w"
    and "unat (view e (buildKey idn res rule (w - Window rule))) + unat (view e (buildKey idn res rule w)) +
           sum_list (map unat vs) < 2 ^ 53"
  shows "granted vs ds = 0 \<or> unat (view e (buildKey idn res rule w)) + granted vs ds \<le> unat (RuleLimit rule)"
  using assms
proof (induction vs arbitrary: e ds)
  case (Cons v vs)
  let ?K = "buildKey idn res rule w" and ?P = "buildKey idn res rule (w - Window rule)"
  obtain d e1 where d: "Limiter_Check platform b idn res v rule e = (d, e1)" by force
  obtain ds1 where ds: "checks platform b idn res rule vs e1 = (ds1, e')" "ds = d # ds1"
    using Cons.prems(3) d by (auto split: prod.splits)
  have add: "unat (view e ?K + v) = unat (view e ?K) + unat v"
    by (rule unat_add_small) (use Cons.prems(5) in simp)
  from Cons.prems(1,2) d show ?case
  proof (cases rule: check_cases)
    case (refused c)
    then have "granted vs ds1 = 0 \<or> unat (view e ?K) + granted vs ds1 \<le> unat (RuleLimit rule)"
      using Cons.IH [OF refused(5,6) ds(1)] Cons.prems(4,5) by simp
    then show ?thesis using refused(3) by (simp add: ds(2))
  next
    case failed
    then have "granted vs ds1 = 0 \<or> unat (view e ?K) + unat v + granted vs ds1 \<le> unat (RuleLimit rule)"
      using Cons.IH [OF failed(3,4) ds(1)] Cons.prems(4,5) by (simp add: add)
    then show ?thesis using failed(1) by (auto simp: ds(2))
  next
    case (counted c c')
    have view: "view e1 ?K = view e ?K + v" "view e1 ?P = view e ?P"
      using counted(8) Cons.prems(4) by simp_all
    have "granted vs ds1 = 0 \<or> unat (view e ?K) + unat v + granted vs ds1 \<le> unat (RuleLimit rule)"
      using Cons.IH [OF counted(6,7) ds(1)] Cons.prems(4,5) by (simp add: add view)
    moreover have "unat (view e ?K) + unat v \<le> unat c'"
      using estimated_bounds(1) [OF counted(7,3)] Cons.prems(5) by (simp add: add view)
    ultimately show ?thesis using counted(4) by (auto simp: ds(2) word_le_nat_alt)
  qed
qed simp

text \<open>With nothing in the previous window the decision is exact.\<close>

lemma check_exact:
  assumes "inv e" "in_window rule w e" "Limiter_Check platform b idn res v rule e = (d, e')"
    and "buildKey idn res rule (w - Window rule) \<noteq> buildKey idn res rule w"
    and "view e (buildKey idn res rule (w - Window rule)) = 0"
    and "unat (view e (buildKey idn res rule w)) + unat v < 2 ^ 53" "Error d = None"
  shows "Allowed d \<longleftrightarrow>
    unat (view e (buildKey idn res rule w)) < unat (RuleLimit rule) \<and>
    unat (view e (buildKey idn res rule w)) + unat v \<le> unat (RuleLimit rule)"
  using assms(1-3)
proof (cases rule: check_cases)
  case (refused c)
  have "unat c = unat (view e (buildKey idn res rule w))"
    using estimated_bounds [OF assms(2) refused(1)] assms(5,6) by simp
  then show ?thesis using refused(2,3) by (simp add: word_le_nat_alt)
next
  case failed
  then show ?thesis using assms(7) by simp
next
  case (counted c c')
  have "unat c = unat (view e (buildKey idn res rule w))"
    using estimated_bounds [OF assms(2) counted(1)] assms(5,6) by simp
  moreover have "unat (view e (buildKey idn res rule w) + v) = unat (view e (buildKey idn res rule w)) + unat v"
    by (rule unat_add_small [OF assms(6)])
  then have "unat c' = unat (view e (buildKey idn res rule w)) + unat v"
    using estimated_bounds [OF counted(7,3)] assms(4,5,6) by (simp add: counted(8))
  ultimately show ?thesis using counted(2,4) by (simp add: word_le_nat_alt word_less_nat_alt)
qed

end

section \<open>Properties\<close>

lemma Time_Truncate_div: "0 < d \<Longrightarrow> Time_Truncate t d = d * (t div d)"
  by (simp add: Time_Truncate_def minus_mod_eq_mult_div)

lemma Time_Truncate_bounds: "0 < d \<Longrightarrow> Time_Truncate t d \<le> t \<and> t < Time_Truncate t d + d"
  by (simp add: Time_Truncate_def)

lemma estimate_at_start:
  assumes "0 < Window rule" "unat prev + unat cur < 2 ^ 53"
  shows "estimate platform rule start start prev cur = prev + cur"
proof -
  have "0 < round53 (of_int (Window rule))"
    using round53_mono [of 1 "of_int (Window rule)"] round53_int [of 1] assms(1) by simp
  then have w: "f64_sub (f64_of_int 1) (f64_div (f64_of_int 0) (f64_of_int (Window rule))) = Fin 1"
    by (simp add: f64_sub_def f64_of_int_def round53_int)
  have "int (unat prev + unat cur) < int (2 ^ 53)" using assms(2) by (simp only: of_nat_less_iff)
  then have "int (unat prev) + int (unat cur) < 2 ^ 53" by simp
  define a b where ab: "a = uint prev" "b = uint cur"
  have small: "a + b < 2 ^ 53" using \<open>int (unat prev) + int (unat cur) < 2 ^ 53\<close> by (simp only: ab uint_nat)
  have nn: "0 \<le> a" "0 \<le> b" by (simp_all add: ab)
  have "round53 (of_int a) = of_int a" "round53 (of_int a + of_int b) = of_int (a + b)"
    using round53_int [of a] round53_int [of "a + b"] small nn by simp_all
  then have "estimate platform rule start start prev cur = word_of_int (a + b)"
    using w nn small unfolding estimate_def ab [symmetric] by (simp add: f64_of_int_exact truncate_rat_def)
  then show ?thesis by (simp add: ab wi_hom_syms(1))
qed



text \<open>
  C24: windows do not share counters. For a rule of at least a second, two readings of the clock
  lead to the same current key if and only if they lie in the same window; here the key contains
  the window's start as an RFC 3339 text, computed through the Gregorian calendar.
\<close>

theorem windows_have_own_keys:
  assumes "Second \<le> Window rule" "0 \<le> now" "0 \<le> now'"
  shows "buildKey idn res rule (Time_Truncate now (Window rule)) =
      buildKey idn res rule (Time_Truncate now' (Window rule)) \<longleftrightarrow>
    now div Window rule = now' div Window rule"
proof -
  let ?W = "Window rule" let ?a = "now div ?W" let ?b = "now' div ?W"
  have W: "0 < ?W" using assms(1) by (simp add: Second_def)
  have nn: "0 \<le> ?W * ?a" "0 \<le> ?W * ?b"
    using assms(2,3) W by (simp_all add: pos_imp_zdiv_nonneg_iff)
  have less: "?W * a div Second < ?W * b div Second" if "a < b" for a b
  proof -
    have "?W * (a + 1) \<le> ?W * b" using W that by simp
    then have "?W * a + Second \<le> ?W * b" using assms(1) by (simp add: algebra_simps)
    then have "(?W * a + Second) div Second \<le> ?W * b div Second"
      by (intro zdiv_mono1) (simp_all add: Second_def)
    then show ?thesis by (simp add: Second_def)
  qed
  have "?W * ?a div Second = ?W * ?b div Second \<longleftrightarrow> ?a = ?b"
    using less [of ?a ?b] less [of ?b ?a] by (cases ?a ?b rule: linorder_cases) auto
  then show ?thesis using nn W by (simp add: Time_Truncate_div buildKey_eq_iff)
qed

theorem windows_have_own_keys_witness:
  "buildKey ''u'' ''r'' \<lparr>RuleLimit = 4, Window = 60 * Second\<rparr> (60 * Second) \<noteq>
     buildKey ''u'' ''r'' \<lparr>RuleLimit = 4, Window = 60 * Second\<rparr> (120 * Second)"
  using windows_have_own_keys [of "\<lparr>RuleLimit = 4, Window = 60 * Second\<rparr>" "90 * Second" "130 * Second" "''u''" "''r''"]
  by (simp add: Time_Truncate_def Second_def)

section \<open>Where keys and estimates fail\<close>

text \<open>The separator is not escaped, so different identifiers and resources can share a counter.\<close>

lemma separator_collision:
  "buildKey (idn @ '':'' @ r1) r2 rule w = buildKey idn (r1 @ '':'' @ r2) rule w"
  by (simp add: buildKey_def Let_def)

text \<open>Windows below a second: two windows in a row have the same key.\<close>

lemma subsecond_windows_share_key:
  "Window rule = 500000000 \<Longrightarrow> 0 \<le> t \<Longrightarrow>
   buildKey idn res rule (t * Second) = buildKey idn res rule (t * Second + Window rule)"
  by (subst buildKey_eq_iff) (simp_all add: Second_def)

text \<open>A window of zero divides 0 by 0; the total is what the machine makes of a NaN.\<close>

lemma zero_window_is_nan:
  "Window rule = 0 \<Longrightarrow> estimate platform rule now (Time_Truncate now 0) prev cur = platform NaN"
  by (simp add: estimate_def Time_Truncate_def f64_of_int_def f64_sub_def)

end
