(* ===== verification/LimiterEngine.thy ===== *)
theory LimiterEngine
  imports Limiter
begin

text \<open>
  The limiter on the engine of its own node, for one client at a time. \<open>env\<close> is the engine, the
  clock as the list of its coming readings (the last one stays), and for each coming call whether
  a quorum answers it before the timeout. An answered call is flushed, and what the flusher
  proposed is learned: with no other traffic the quorum decides the proposal unchanged.
\<close>

record env =
  envEngine :: Engine
  envClock :: "Time list"
  envAnswers :: "bool list"

fun next_reading :: "Time list \<Rightarrow> Time \<times> Time list" where
  "next_reading [] = (0, [])"
| "next_reading [t] = (t, [t])"
| "next_reading (t # ts) = (t, ts)"

definition env_clock :: "env \<Rightarrow> Time \<times> env" where
  "env_clock e = (case next_reading (envClock e) of (t, ts) \<Rightarrow> (t, e\<lparr>envClock := ts\<rparr>))"

definition quorum_answer :: "Engine \<Rightarrow> Engine" where
  "quorum_answer s = (case flush s of (s, None) \<Rightarrow> s | (s, Some p) \<Rightarrow> onLearn s p)"

definition env_call :: "string \<Rightarrow> Engine \<times> uint64 \<times> channel \<Rightarrow> env \<Rightarrow> (uint64 \<times> bool) \<times> env" where
  "env_call key begun e =
     (let (s, op, done) = begun;
          (answer, rest) = (case envAnswers e of [] \<Rightarrow> (True, []) | a # as \<Rightarrow> (a, as));
          s = (if answer then quorum_answer s else s);
          (s, learned) = (case waitForLearn (\<not> answer) s done of None \<Rightarrow> (s, None) | Some r \<Rightarrow> r)
      in (op_result key learned, e\<lparr>envEngine := unregisterPending s op, envAnswers := rest\<rparr>))"

definition env_backend :: "env Backend" where
  "env_backend =
     \<lparr>callIncrementKey = (\<lambda>key v e. env_call key (IncrementKey_begin (envEngine e) key v) e),
      callValueForKey = (\<lambda>key e. env_call key (ValueForKey_begin (envEngine e)) e),
      callValueForKeyLocal = (\<lambda>key e. (ValueForKeyLocal (envEngine e) key, e)),
      callClock = env_clock\<rparr>"

definition env_ok :: "env \<Rightarrow> bool" where
  "env_ok e \<longleftrightarrow>
     envClock e \<noteq> [] \<and> pending (envEngine e) = [] \<and> 0 \<le> unflushedOps (envEngine e) \<and>
     localCounters (envEngine e) < length (objects (envEngine e)) \<and> CounterMap_wf (live (envEngine e))"

section \<open>The engine keeps the limiter's contract\<close>

text \<open>The state between a call's first section and its wake-up.\<close>

definition one_pending :: "Engine \<Rightarrow> uint64 \<Rightarrow> channel \<Rightarrow> bool" where
  "one_pending s op d \<longleftrightarrow>
     pending s = [(op, \<lparr>proposedRef = localCounters s, doneChan = d\<rparr>)] \<and>
     d < length (doneChans s) \<and> doneChans s ! d = None \<and> 0 < unflushedOps s \<and>
     localCounters s < length (objects s) \<and> CounterMap_wf (live s)"

lemma register_one_pending:
  assumes "pending s = []" "0 \<le> unflushedOps s" "localCounters s < length (objects s)" "CounterMap_wf (live s)"
    and "registerPendingLocked s (localCounters s) = (s', op, d)"
  shows "one_pending (addOpToBatchLocked s') op d \<and> live (addOpToBatchLocked s') = live s"
  using assms
  by (auto simp: registerPendingLocked_def addOpToBatchLocked_def one_pending_def live_def gm_set_def Let_def)

lemma quorum_answer_learns:
  assumes "one_pending s op d"
  defines "s' \<equiv> quorum_answer s"
  shows "pending s' = []" "doneChans s' ! d = Some (live s')" "localCounters s' < length (objects s')"
    "CounterMap_wf (live s')" "CounterMap_rep (live s') = CounterMap_rep (live s)" "unflushedOps s' = 0"
proof -
  note p = assms(1) [unfolded one_pending_def]
  let ?m = "CounterMap_MergeInPlace (live s) (live s)"
  have wf: "CounterMap_wf ?m" using p by (simp add: CounterMap_Merge_wf)
  have rep: "CounterMap_rep ?m = CounterMap_rep (live s)" using p by (simp add: CounterMap_Merge_rep)
  then have isin: "CounterMap_IsIn ?m (live s)" using p wf by (simp add: CounterMap_IsIn_iff)
  let ?s = "set_live ?m (s\<lparr>unflushedOps := 0\<rparr>)"
  have lv: "objects ?s ! localCounters s = ?m" "live ?s = ?m" "doneChans ?s ! d = None"
    using p by (simp_all add: live_def)
  have "flush s = (s\<lparr>unflushedOps := 0\<rparr>, Some (live s))" using p by (simp add: flush_def)
  then have "s' = signal_loop (live s) (pending s) ?s"
    by (simp add: s'_def quorum_answer_def onLearn_def Let_def)
  also have "\<dots> = ?s\<lparr>doneChans := (doneChans s)[d := Some ?m], pending := []\<rparr>"
    using p lv isin wf by (simp add: gm_delete_def)
  finally have s': "s' = ?s\<lparr>doneChans := (doneChans s)[d := Some ?m], pending := []\<rparr>" .
  have live: "live s' = ?m" using lv by (simp add: s' live_def)
  show "pending s' = []" "doneChans s' ! d = Some (live s')" "localCounters s' < length (objects s')"
    "CounterMap_wf (live s')" "CounterMap_rep (live s') = CounterMap_rep (live s)" "unflushedOps s' = 0"
    unfolding live using p wf rep by (simp_all add: s')
qed

lemma env_call_law:
  assumes "one_pending s op d" "env_call key (s, op, d) e = ((x, ok), e')" "envClock e \<noteq> []"
  shows "env_ok e' \<and> ValueForKeyLocal (envEngine e') = CounterMap_ValueForKey (live s) \<and>
    envClock e' = envClock e \<and> (ok \<longrightarrow> x = CounterMap_ValueForKey (live s) key)"
proof -
  note p = assms(1) [unfolded one_pending_def]
  note q = quorum_answer_learns [OF assms(1)]
  define answer where "answer = (case envAnswers e of [] \<Rightarrow> True | a # as \<Rightarrow> a)"
  have same: "CounterMap_ValueForKey (live (quorum_answer s)) = CounterMap_ValueForKey (live s)"
    by (rule ext) (rule CounterMap_ValueForKey_rep, use p q in auto)
  have answers: "\<exists>rest. (case envAnswers e of [] \<Rightarrow> (True, []) | a # as \<Rightarrow> (a, as)) = (answer, rest)"
    by (simp add: answer_def split: list.splits)
  show ?thesis
  proof (cases answer)
    case True
    let ?s = "unregisterPending ((quorum_answer s)\<lparr>doneChans := (doneChans (quorum_answer s))[d := None]\<rparr>) op"
    have "live ?s = live (quorum_answer s)" by (simp add: unregisterPending_def live_def)
    moreover have "envEngine e' = ?s" "envClock e' = envClock e" "x = CounterMap_ValueForKey (live (quorum_answer s)) key"
      using assms(2) answers True q(2) by (auto simp: env_call_def waitForLearn_def op_result_def Let_def)
    ultimately show ?thesis
      using q same assms(3) by (simp add: env_ok_def ValueForKeyLocal_def fun_eq_iff unregisterPending_def gm_delete_def)
  next
    case False
    have "live (unregisterPending s op) = live s" by (simp add: unregisterPending_def live_def)
    moreover have "envEngine e' = unregisterPending s op" "envClock e' = envClock e" "\<not> ok"
      using assms(2) answers False by (auto simp: env_call_def waitForLearn_def op_result_def Let_def)
    ultimately show ?thesis
      using p assms(3) by (simp add: env_ok_def ValueForKeyLocal_def fun_eq_iff unregisterPending_def gm_delete_def)
  qed
qed

lemma IncrementKey_begin_law:
  assumes "env_ok e" "IncrementKey_begin (envEngine e) key v = (s, op, d)"
  shows "one_pending s op d \<and>
    CounterMap_ValueForKey (live s) =
      (CounterMap_ValueForKey (live (envEngine e)))(key := CounterMap_ValueForKey (live (envEngine e)) key + v)"
proof -
  note ok = assms(1) [unfolded env_ok_def]
  let ?s = "envEngine e"
  let ?m = "CounterMap_IncrementKey (live ?s) key (engineId ?s) v"
  obtain s0 where "registerPendingLocked (set_live ?m ?s) (localCounters (set_live ?m ?s)) = (s0, op, d)"
      "s = addOpToBatchLocked s0"
    using assms(2) by (auto simp: IncrementKey_begin_def Let_def split: prod.splits)
  with register_one_pending [of "set_live ?m ?s" s0 op d] ok have "one_pending s op d" "live s = ?m"
    by (auto simp: CounterMap_IncrementKey_wf)
  then show ?thesis using ok by (auto simp: CounterMap_ValueForKey_IncrementKey fun_eq_iff)
qed

lemma ValueForKey_begin_law:
  assumes "env_ok e" "ValueForKey_begin (envEngine e) = (s, op, d)"
  shows "one_pending s op d \<and> live s = live (envEngine e)"
proof -
  obtain s0 where "registerPendingLocked (envEngine e) (localCounters (envEngine e)) = (s0, op, d)"
      "s = addOpToBatchLocked s0"
    using assms(2) by (auto simp: ValueForKey_begin_def Let_def split: prod.splits)
  with register_one_pending [of "envEngine e" s0 op d] assms(1) show ?thesis by (auto simp: env_ok_def)
qed

lemma next_reading_facts:
  "ts \<noteq> [] \<Longrightarrow> next_reading ts = (t, ts') \<Longrightarrow> t \<in> set ts \<and> set ts' \<subseteq> set ts \<and> ts' \<noteq> []"
  by (cases ts rule: next_reading.cases) auto

interpretation limiter_engine:
  quiet_backend env_backend env_ok "\<lambda>e. ValueForKeyLocal (envEngine e)" "\<lambda>e. set (envClock e)"
proof
  fix e t e' assume "env_ok e" "callClock env_backend e = (t, e')"
  then show "env_ok e' \<and> ValueForKeyLocal (envEngine e') = ValueForKeyLocal (envEngine e) \<and>
      t \<in> set (envClock e) \<and> set (envClock e') \<subseteq> set (envClock e)"
    using next_reading_facts [of "envClock e"]
    by (auto simp: env_backend_def env_clock_def env_ok_def split: prod.splits)
next
  fix e k x e' assume "env_ok e" "callValueForKeyLocal env_backend k e = (x, e')"
  then show "env_ok e' \<and> ValueForKeyLocal (envEngine e') = ValueForKeyLocal (envEngine e) \<and>
      set (envClock e') \<subseteq> set (envClock e) \<and> x = ValueForKeyLocal (envEngine e) k"
    by (auto simp: env_backend_def)
next
  fix e k x ok e' assume e: "env_ok e" "callValueForKey env_backend k e = ((x, ok), e')"
  obtain s op d where b: "ValueForKey_begin (envEngine e) = (s, op, d)" by (metis prod_cases3)
  from ValueForKey_begin_law [OF e(1) b] env_call_law [of s op d k e x ok e'] e b
  show "env_ok e' \<and> ValueForKeyLocal (envEngine e') = ValueForKeyLocal (envEngine e) \<and>
      set (envClock e') \<subseteq> set (envClock e) \<and> (ok \<longrightarrow> x = ValueForKeyLocal (envEngine e) k)"
    by (simp add: env_backend_def env_ok_def ValueForKeyLocal_def fun_eq_iff)
next
  fix e k v x ok e' assume e: "env_ok e" "callIncrementKey env_backend k v e = ((x, ok), e')"
  obtain s op d where b: "IncrementKey_begin (envEngine e) k v = (s, op, d)" by (metis prod_cases3)
  from IncrementKey_begin_law [OF e(1) b] env_call_law [of s op d k e x ok e'] e b
  show "env_ok e' \<and> ValueForKeyLocal (envEngine e') =
        (ValueForKeyLocal (envEngine e))(k := ValueForKeyLocal (envEngine e) k + v) \<and>
      set (envClock e') \<subseteq> set (envClock e) \<and> (ok \<longrightarrow> x = ValueForKeyLocal (envEngine e) k + v)"
    by (simp add: env_backend_def env_ok_def ValueForKeyLocal_def fun_eq_iff)
qed

section \<open>Example\<close>

text \<open>A single node and a rule of four requests per minute; the clock shows 16:00:30 on 5 July 2026.\<close>

definition minute_rule :: Rule where
  "minute_rule = \<lparr>RuleLimit = 4, Window = 60 * Second\<rparr>"

definition window_16h :: Time where
  "window_16h = 63918864000 * Second"

definition env1 :: "bool list \<Rightarrow> env" where
  "env1 answers =
     \<lparr>envEngine = NewEngine ''N1'' [(''N1'', ''a'')] 50 (\<lambda>ids. Inr (NewCounterMap ids) :: unit + CounterMap),
      envClock = [window_16h + 30 * Second], envAnswers = answers\<rparr>"

lemma env1_ok: "env_ok (env1 answers)"
  by (simp add: env_ok_def env1_def NewEngine_def live_def)

lemma env1_count: "ValueForKeyLocal (envEngine (env1 answers)) key = 0"
  by (simp add: ValueForKeyLocal_def env1_def NewEngine_def live_def NewCounterMap_def CounterMap_ValueForKey_def)

lemma minute_facts:
  "RuleLimit minute_rule = 4" "Window minute_rule = 60000000000" "Second = 1000000000"
  "window_16h = 63918864000000000000" "envClock (env1 answers) = [63918864030000000000]"
  by (simp_all add: minute_rule_def window_16h_def Second_def env1_def)

section \<open>Properties\<close>







text \<open>
  C25: a check that reports an error is refused and carries only the error, but its amount stays
  counted in the current window: the increment is in the node's state before the quorum is asked.
\<close>

theorem failed_check_still_counts:
  fixes idn res rule w
  defines "key \<equiv> buildKey idn res rule w"
  assumes "env_ok e" and "0 < Window rule" "w mod Window rule = 0"
    and "\<forall>t \<in> set (envClock e). w \<le> t \<and> t < w + Window rule"
    and "Limiter_Check platform env_backend idn res v rule e = (d, e')" "Error d \<noteq> None"
  shows "d = error_decision (''failed to check key: '' @ idn @ '', resource: '' @ res) \<and>
    ValueForKeyLocal (envEngine e') key = ValueForKeyLocal (envEngine e) key + v"
proof -
  have win: "limiter_engine.in_window rule w e"
    using assms(3,4,5) by (simp add: limiter_engine.in_window_def)
  have "d = error_decision (''failed to check key: '' @ idn @ '', resource: '' @ res)"
    using assms(6,7) by (auto simp: Limiter_Check_def Let_def split: prod.splits if_splits)
  moreover from assms(2) win assms(6)
  have "ValueForKeyLocal (envEngine e') key = ValueForKeyLocal (envEngine e) key + v"
    by (cases rule: limiter_engine.check_cases) (use assms(7) in \<open>simp_all add: key_def\<close>)
  ultimately show ?thesis ..
qed

theorem failed_check_still_counts_witness:
  "ValueForKeyLocal (envEngine (snd (Limiter_Check (\<lambda>_. 0) env_backend ''u'' ''r'' 3 minute_rule (env1 [False]))))
     (buildKey ''u'' ''r'' minute_rule window_16h) = 3"
proof -
  let ?r = "Limiter_Check (\<lambda>_. 0) env_backend ''u'' ''r'' 3 minute_rule (env1 [False])"
  have "Error (fst ?r) \<noteq> None" by code_simp
  then show ?thesis
    using failed_check_still_counts [of "env1 [False]" minute_rule window_16h "\<lambda>_. 0" "''u''" "''r''" 3 "fst ?r" "snd ?r"]
    by (simp add: env1_ok env1_count minute_facts)
qed

text \<open>
  \<open>Status\<close> subtracts without a guard. After a request for more than the limit, which is refused
  but counted, the status of a rule of 4 per minute reports \<open>2 ^ 64 - 1\<close> requests as remaining.
\<close>

theorem status_remaining_wraps:
  "let (d, e) = Limiter_Check (\<lambda>_. 0) env_backend ''u'' ''r'' 5 minute_rule (env1 []);
       (d', _) = Limiter_Status (\<lambda>_. 0) env_backend ''u'' ''r'' minute_rule e
   in \<not> Allowed d \<and> Error d' = None \<and> Current d' = 4 \<and> DecisionLimit d' = 4 \<and> Remaining d' = - 1"
  by code_simp

end
