(* ===== verification/Api.thy ===== *)
theory Api
  imports LimiterEngine GoJson
begin

text \<open>
  \<open>internal/api\<close>: the HTTP API on top of the limiter. A handler is a function of the request's
  body, the response writer and the state \<open>'e\<close> behind the limiter. \<open>http_response\<close> is the
  writer of \<open>net/http\<close>: the first \<open>WriteHeader\<close> counts, a \<open>Write\<close> without it sends 200.
  \<open>zone\<close> is the offset of the server's local time zone, in which \<open>ResetAt\<close> is formatted.
\<close>

record Request =
  Identifier :: string
  Resource :: string
  ReqLimit :: uint64
  ReqWindow :: string
  ValueRequested :: uint64

record CheckResponse =
  RespAllowed :: bool
  RespCurrent :: uint64
  RespLimit :: uint64
  RespRemaining :: uint64
  RespResetAt :: string

record StatusResponse =
  StatCurrent :: uint64
  StatLimit :: uint64
  StatRemaining :: uint64
  StatResetAt :: string

section \<open>The writer\<close>

record http_response =
  headers :: "(string, string) gomap"
  sentStatus :: "int option"
  sentBody :: string

definition base_WriteHeader :: "int \<Rightarrow> http_response \<Rightarrow> http_response" where
  "base_WriteHeader c w = (if sentStatus w = None then w\<lparr>sentStatus := Some c\<rparr> else w)"

definition base_Write :: "string \<Rightarrow> http_response \<Rightarrow> http_response" where
  "base_Write b w = (let w = base_WriteHeader 200 w in w\<lparr>sentBody := sentBody w @ b\<rparr>)"

text \<open>The wrapper of the logging middleware.\<close>

record responseWriter =
  inner :: http_response
  status :: int
  wroteHeader :: bool

definition wrapResponseWriter :: "http_response \<Rightarrow> responseWriter" where
  "wrapResponseWriter w = \<lparr>inner = w, status = 200, wroteHeader = False\<rparr>"

definition rw_Status :: "responseWriter \<Rightarrow> int" where
  "rw_Status rw = status rw"

definition rw_WriteHeader :: "int \<Rightarrow> responseWriter \<Rightarrow> responseWriter" where
  "rw_WriteHeader c rw =
     (if wroteHeader rw then rw
      else rw\<lparr>status := c, inner := base_WriteHeader c (inner rw), wroteHeader := True\<rparr>)"

definition rw_Write :: "string \<Rightarrow> responseWriter \<Rightarrow> responseWriter" where
  "rw_Write b rw =
     (let rw = (if \<not> wroteHeader rw then rw_WriteHeader 200 rw else rw)
      in rw\<lparr>inner := base_Write b (inner rw)\<rparr>)"

definition set_header :: "string \<Rightarrow> string \<Rightarrow> responseWriter \<Rightarrow> responseWriter" where
  "set_header k v rw = rw\<lparr>inner := (inner rw)\<lparr>headers := gm_set k v (headers (inner rw))\<rparr>\<rparr>"

text \<open>\<open>http.Error\<close>.\<close>

definition http_Error :: "string \<Rightarrow> int \<Rightarrow> responseWriter \<Rightarrow> responseWriter" where
  "http_Error msg c rw =
     rw_Write (msg @ [CHR 0x0A])
       (rw_WriteHeader c
         (set_header ''X-Content-Type-Options'' ''nosniff''
           (set_header ''Content-Type'' ''text/plain; charset=utf-8''
             (rw\<lparr>inner := (inner rw)\<lparr>headers := gm_delete ''Content-Length'' (headers (inner rw))\<rparr>\<rparr>))))"

section \<open>Reading the request\<close>

text \<open>A field of the JSON object: \<open>null\<close> changes nothing, a value of another type is an error.\<close>

definition string_field :: "json \<Rightarrow> string \<Rightarrow> string option" where
  "string_field v old = (case v of JNull \<Rightarrow> Some old | JStr s \<Rightarrow> Some s | _ \<Rightarrow> None)"

definition uint_field :: "json \<Rightarrow> uint64 \<Rightarrow> uint64 option" where
  "uint_field v old =
     (case v of JNull \<Rightarrow> Some old
      | JNum lit \<Rightarrow> (case ParseUint lit of Inl e \<Rightarrow> None | Inr x \<Rightarrow> Some x)
      | _ \<Rightarrow> None)"

fun request_fields :: "(string \<times> json) list \<Rightarrow> Request \<Rightarrow> Request option" where
  "request_fields [] r = Some r"
| "request_fields ((f, v) # ms) r =
     (if field_matches ''identifier'' f then
        (case string_field v (Identifier r) of None \<Rightarrow> None | Some s \<Rightarrow> request_fields ms (r\<lparr>Identifier := s\<rparr>))
      else if field_matches ''resource'' f then
        (case string_field v (Resource r) of None \<Rightarrow> None | Some s \<Rightarrow> request_fields ms (r\<lparr>Resource := s\<rparr>))
      else if field_matches ''limit'' f then
        (case uint_field v (ReqLimit r) of None \<Rightarrow> None | Some x \<Rightarrow> request_fields ms (r\<lparr>ReqLimit := x\<rparr>))
      else if field_matches ''window'' f then
        (case string_field v (ReqWindow r) of None \<Rightarrow> None | Some s \<Rightarrow> request_fields ms (r\<lparr>ReqWindow := s\<rparr>))
      else if field_matches ''value_requested'' f then
        (case uint_field v (ValueRequested r) of None \<Rightarrow> None | Some x \<Rightarrow> request_fields ms (r\<lparr>ValueRequested := x\<rparr>))
      else request_fields ms r)"

definition zero_request :: Request where
  "zero_request = \<lparr>Identifier = [], Resource = [], ReqLimit = 0, ReqWindow = [], ValueRequested = 0\<rparr>"

definition decode_body :: "string \<Rightarrow> Request option" where
  "decode_body body =
     (case json_decode body of
        Some JNull \<Rightarrow> Some zero_request
      | Some (JObj ms) \<Rightarrow> request_fields ms zero_request
      | _ \<Rightarrow> None)"

definition decodeRequest :: "string \<Rightarrow> responseWriter \<Rightarrow> responseWriter \<times> (Request \<times> Duration) option" where
  "decodeRequest body w =
     (case decode_body body of
        None \<Rightarrow> (http_Error ''Invalid JSON'' 400 w, None)
      | Some req \<Rightarrow>
          (case ParseDuration (ReqWindow req) of
             None \<Rightarrow> (http_Error ''Invalid window duration'' 400 w, None)
           | Some window \<Rightarrow> (w, Some (req, window))))"

section \<open>The handlers\<close>

definition encode_check :: "CheckResponse \<Rightarrow> string" where
  "encode_check r =
     json_print (JObj [(''allowed'', JBool (RespAllowed r)), (''current'', JNum (digits (uint (RespCurrent r)))),
       (''limit'', JNum (digits (uint (RespLimit r)))), (''remaining'', JNum (digits (uint (RespRemaining r)))),
       (''reset_at'', JStr (RespResetAt r))]) @ [CHR 0x0A]"

definition encode_status :: "StatusResponse \<Rightarrow> string" where
  "encode_status r =
     json_print (JObj [(''current'', JNum (digits (uint (StatCurrent r)))),
       (''limit'', JNum (digits (uint (StatLimit r)))), (''remaining'', JNum (digits (uint (StatRemaining r)))),
       (''reset_at'', JStr (StatResetAt r))]) @ [CHR 0x0A]"

definition handleCheck ::
    "(f64 \<Rightarrow> uint64) \<Rightarrow> (Time \<Rightarrow> int) \<Rightarrow> 'e Backend \<Rightarrow> string \<Rightarrow> responseWriter \<Rightarrow> 'e \<Rightarrow> responseWriter \<times> 'e" where
  "handleCheck platform zone b body w e =
     (case decodeRequest body w of
        (w, None) \<Rightarrow> (w, e)
      | (w, Some (req, window)) \<Rightarrow>
          (let (decision, e) = Limiter_Check platform b (Identifier req) (Resource req) (ValueRequested req)
                                 \<lparr>RuleLimit = ReqLimit req, Window = window\<rparr> e
           in if Error decision \<noteq> None then (http_Error ''Timeout, network unreachable'' 503 w, e)
              else
                (let w = rw_WriteHeader 200 (set_header ''Content-Type'' ''application/json'' w);
                     resp = \<lparr>RespAllowed = Allowed decision, RespCurrent = Current decision,
                             RespLimit = DecisionLimit decision, RespRemaining = Remaining decision,
                             RespResetAt = rfc3339_zone (zone (ResetAt decision)) (ResetAt decision)\<rparr>
                 in (rw_Write (encode_check resp) w, e))))"

definition handleStatus ::
    "(f64 \<Rightarrow> uint64) \<Rightarrow> (Time \<Rightarrow> int) \<Rightarrow> 'e Backend \<Rightarrow> string \<Rightarrow> responseWriter \<Rightarrow> 'e \<Rightarrow> responseWriter \<times> 'e" where
  "handleStatus platform zone b body w e =
     (case decodeRequest body w of
        (w, None) \<Rightarrow> (w, e)
      | (w, Some (req, window)) \<Rightarrow>
          (let (decision, e) = Limiter_Status platform b (Identifier req) (Resource req)
                                 \<lparr>RuleLimit = ReqLimit req, Window = window\<rparr> e
           in if Error decision \<noteq> None then (http_Error ''Ratelimite unavailable'' 503 w, e)
              else
                (let w = rw_WriteHeader 200 (set_header ''Content-Type'' ''application/json'' w);
                     resp = \<lparr>StatCurrent = Current decision, StatLimit = DecisionLimit decision,
                             StatRemaining = Remaining decision,
                             StatResetAt = rfc3339_zone (zone (ResetAt decision)) (ResetAt decision)\<rparr>
                 in (rw_Write (encode_status resp) w, e))))"

text \<open>
  The patterns that \<open>NewServer\<close> registers; the middleware runs the handler on the wrapped writer
  and logs the status it recorded.
\<close>

datatype route = CheckRoute | StatusRoute

definition routes :: "((string \<times> string) \<times> route) list" where
  "routes = [((''POST'', ''/check''), CheckRoute), ((''POST'', ''/status''), StatusRoute)]"

definition handle_route ::
    "(f64 \<Rightarrow> uint64) \<Rightarrow> (Time \<Rightarrow> int) \<Rightarrow> 'e Backend \<Rightarrow> route \<Rightarrow> string \<Rightarrow> responseWriter \<Rightarrow> 'e \<Rightarrow> responseWriter \<times> 'e" where
  "handle_route platform zone b r =
     (case r of CheckRoute \<Rightarrow> handleCheck platform zone b | StatusRoute \<Rightarrow> handleStatus platform zone b)"

definition LoggingMiddleware ::
    "(string \<Rightarrow> responseWriter \<Rightarrow> 'e \<Rightarrow> responseWriter \<times> 'e) \<Rightarrow> string \<Rightarrow> http_response \<Rightarrow> 'e \<Rightarrow>
     http_response \<times> int \<times> 'e" where
  "LoggingMiddleware serve body w e =
     (let wrapped = wrapResponseWriter w;
          (wrapped, e) = serve body wrapped e
      in (inner wrapped, status wrapped, e))"

definition new_response :: http_response where
  "new_response = \<lparr>headers = [], sentStatus = None, sentBody = []\<rparr>"

section \<open>Requests and responses as text\<close>

definition encode_request :: "Request \<Rightarrow> json" where
  "encode_request r =
     JObj [(''identifier'', JStr (Identifier r)), (''resource'', JStr (Resource r)),
       (''limit'', JNum (digits (uint (ReqLimit r)))), (''window'', JStr (ReqWindow r)),
       (''value_requested'', JNum (digits (uint (ValueRequested r))))]"

definition check_json :: "Decision \<Rightarrow> string \<Rightarrow> json" where
  "check_json d reset =
     JObj [(''allowed'', JBool (Allowed d)), (''current'', JNum (digits (uint (Current d)))),
       (''limit'', JNum (digits (uint (DecisionLimit d)))), (''remaining'', JNum (digits (uint (Remaining d)))),
       (''reset_at'', JStr reset)]"

lemma field_names_valid:
  "valid_utf8 ''identifier''" "valid_utf8 ''resource''" "valid_utf8 ''limit''" "valid_utf8 ''window''"
  "valid_utf8 ''value_requested''" "valid_utf8 ''allowed''" "valid_utf8 ''current''" "valid_utf8 ''remaining''"
  "valid_utf8 ''reset_at''"
  by code_simp+

lemma uint_digits_literal [simp]: "uint_literal (digits (uint x))" for x :: uint64
  by (rule digits_literal) simp

lemma field_matches_self [simp]: "field_matches f f"
  by (simp add: field_matches_def)

lemma field_names_differ:
  "\<not> field_matches ''identifier'' ''resource''" "\<not> field_matches ''identifier'' ''limit''"
  "\<not> field_matches ''identifier'' ''window''" "\<not> field_matches ''identifier'' ''value_requested''"
  "\<not> field_matches ''resource'' ''limit''" "\<not> field_matches ''resource'' ''window''"
  "\<not> field_matches ''resource'' ''value_requested''" "\<not> field_matches ''limit'' ''window''"
  "\<not> field_matches ''limit'' ''value_requested''" "\<not> field_matches ''window'' ''value_requested''"
  by code_simp+

text \<open>The body that a client encodes from a request is decoded to that request.\<close>

lemma decode_request:
  assumes "valid_utf8 (Identifier r)" "valid_utf8 (Resource r)" "valid_utf8 (ReqWindow r)"
  shows "decode_body (json_print (encode_request r)) = Some r"
proof -
  have "json_decode (json_print (encode_request r)) = Some (encode_request r)"
    by (rule json_read_line(2)) (simp_all add: encode_request_def assms field_names_valid max_depth_def)
  then show ?thesis
    by (simp add: decode_body_def encode_request_def field_names_differ string_field_def uint_field_def
        ParseUint_digits zero_request_def)
qed

section \<open>The status line\<close>

lemma http_Error_fresh:
  "inner (http_Error msg c (wrapResponseWriter new_response)) =
     \<lparr>headers = [(''Content-Type'', ''text/plain; charset=utf-8''), (''X-Content-Type-Options'', ''nosniff'')],
      sentStatus = Some c, sentBody = msg @ [CHR 0x0A]\<rparr>"
  "status (http_Error msg c (wrapResponseWriter new_response)) = c"
  by (simp_all add: http_Error_def rw_Write_def rw_WriteHeader_def base_Write_def base_WriteHeader_def set_header_def
      wrapResponseWriter_def new_response_def gm_set_def gm_delete_def Let_def)

lemma json_response_fresh:
  fixes b :: string
  defines "rw \<equiv> rw_Write b (rw_WriteHeader 200 (set_header ''Content-Type'' ''application/json'' (wrapResponseWriter new_response)))"
  shows "sentStatus (inner rw) = Some 200" "sentBody (inner rw) = b" "status rw = 200"
  by (simp_all add: rw_def rw_Write_def rw_WriteHeader_def base_Write_def base_WriteHeader_def set_header_def
      wrapResponseWriter_def new_response_def Let_def)

text \<open>A text of ASCII characters is valid.\<close>

definition ascii :: "string \<Rightarrow> bool" where
  "ascii s \<longleftrightarrow> list_all (\<lambda>c. code c < 128) s"

lemma ascii_valid: "ascii s \<Longrightarrow> valid_utf8 s"
proof (induction s)
  case (Cons c s)
  then have "utf8_width (c # s) = 1" by (simp add: ascii_def lead_byte_def)
  then show ?case using Cons by (simp add: valid_utf8_Cons ascii_def del: utf8_width.simps)
qed (simp add: valid_utf8.simps)

lemma ascii_pad: "ascii (pad w n)"
proof -
  have "is_digit c \<Longrightarrow> code c < 128" for c by (simp add: is_digit_def)
  then have "ascii (digits \<bar>n\<bar>)"
    using digits_digits [of "\<bar>n\<bar>"] unfolding ascii_def by (simp add: list_all_iff)
  then show ?thesis by (auto simp: pad_def ascii_def Let_def list_all_iff code_def)
qed

lemma reset_text_valid: "valid_utf8 (rfc3339_zone offset t)"
proof -
  have lits: "ascii ''-''" "ascii ''T''" "ascii '':''" "ascii ''Z''" "ascii ''+''" by code_simp+
  have app: "ascii (s @ u) = (ascii s \<and> ascii u)" for s u by (simp add: ascii_def)
  have colon: "ascii (CHR '':'' # s) = ascii s" for s by (simp add: ascii_def)
  have "ascii (rfc3339 x)" for x
    unfolding rfc3339_def Let_def by (simp only: app split: prod.splits) (simp add: ascii_pad lits)
  then have "ascii (butlast (rfc3339 x))" for x
    unfolding ascii_def list_all_iff by (meson in_set_butlastD)
  moreover have "ascii (zone_suffix offset)"
    unfolding zone_suffix_def Let_def by (simp add: app colon ascii_pad lits)
  ultimately show ?thesis unfolding rfc3339_zone_def by (intro ascii_valid) (simp only: app)
qed

section \<open>Properties\<close>

text \<open>
  C26: the answer to \<open>POST /check\<close>. Whatever the body, one status line is sent and the middleware
  logs that status. A body that is no JSON of the expected types, or whose window is no duration,
  is answered with 400 and the limiter is not asked; a failed check is answered with 503; otherwise
  the status is 200 and a client that reads the body as JSON gets exactly the decision.
\<close>

theorem check_response:
  assumes "LoggingMiddleware (handleCheck platform zone b) body new_response e = (resp, logged, e')"
  shows "sentStatus resp = Some logged \<and>
    (case decode_body body of
       None \<Rightarrow> logged = 400 \<and> sentBody resp = ''Invalid JSON'' @ [CHR 0x0A] \<and> e' = e
     | Some req \<Rightarrow>
         (case ParseDuration (ReqWindow req) of
            None \<Rightarrow> logged = 400 \<and> sentBody resp = ''Invalid window duration'' @ [CHR 0x0A] \<and> e' = e
          | Some window \<Rightarrow>
              (case Limiter_Check platform b (Identifier req) (Resource req) (ValueRequested req)
                      \<lparr>RuleLimit = ReqLimit req, Window = window\<rparr> e of
                 (d, e1) \<Rightarrow> e' = e1 \<and>
                   (if Error d \<noteq> None then logged = 503
                    else logged = 200 \<and>
                      json_unmarshal (sentBody resp) =
                        Some (check_json d (rfc3339_zone (zone (ResetAt d)) (ResetAt d)))))))"
proof -
  let ?w = "wrapResponseWriter new_response"
  have body: "json_unmarshal (encode_check \<lparr>RespAllowed = Allowed d, RespCurrent = Current d, RespLimit = DecisionLimit d,
      RespRemaining = Remaining d, RespResetAt = rfc3339_zone (zone (ResetAt d)) (ResetAt d)\<rparr>) =
      Some (check_json d (rfc3339_zone (zone (ResetAt d)) (ResetAt d)))" for d
    unfolding encode_check_def check_json_def
    by (simp only: CheckResponse.simps)
      (rule json_read_line(1), simp_all add: field_names_valid reset_text_valid max_depth_def)
  show ?thesis
    using assms
    by (auto simp: LoggingMiddleware_def handleCheck_def decodeRequest_def Let_def http_Error_fresh json_response_fresh body
        split: option.splits prod.splits)
qed

theorem check_response_witness:
  "let req = \<lparr>Identifier = ''u'', Resource = ''r'', ReqLimit = 4, ReqWindow = ''1m'', ValueRequested = 3\<rparr>;
       (resp, logged, e) = LoggingMiddleware (handleCheck (\<lambda>_. 0) (\<lambda>_. 0) env_backend)
         (json_print (encode_request req)) new_response (env1 [])
   in sentStatus resp = Some 200 \<and> logged = 200"
proof -
  let ?req = "\<lparr>Identifier = ''u'', Resource = ''r'', ReqLimit = 4, ReqWindow = ''1m'', ValueRequested = 3\<rparr>"
  obtain resp logged e where r: "LoggingMiddleware (handleCheck (\<lambda>_. 0) (\<lambda>_. 0) env_backend)
      (json_print (encode_request ?req)) new_response (env1 []) = (resp, logged, e)" by (metis prod_cases3)
  have "valid_utf8 ''u''" "valid_utf8 ''r''" "valid_utf8 ''1m''" by code_simp+
  then have "decode_body (json_print (encode_request ?req)) = Some ?req" by (intro decode_request) simp_all
  moreover have "ParseDuration ''1m'' = Some 60000000000" by code_simp
  moreover obtain d e1 where d: "Limiter_Check (\<lambda>_. 0) env_backend ''u'' ''r'' 3
      \<lparr>RuleLimit = 4, Window = 60000000000\<rparr> (env1 []) = (d, e1)" by force
  moreover have "Error (fst (Limiter_Check (\<lambda>_. 0) env_backend ''u'' ''r'' 3
      \<lparr>RuleLimit = 4, Window = 60000000000\<rparr> (env1 []))) = None" by code_simp
  ultimately show ?thesis using check_response [OF r] by (simp add: r)
qed

end
