(* ===== verification/Bench.thy ===== *)
theory Bench
  imports Api
begin

text \<open>
  The load generator \<open>cmd/bench\<close>: the requests it sends, its worker pool, and the report it
  computes from the results. The HTTP client is a parameter, through the results it gives; printing
  is left out, the numbers printed are the fields of \<open>report\<close>. As in \<open>Limiter\<close> every float
  operation is rounded by itself, as on amd64.
\<close>

section \<open>The requests\<close>

text \<open>\<open>json.Marshal\<close> of a map writes the keys in order.\<close>

definition bench_payload :: "string \<Rightarrow> json" where
  "bench_payload ident =
     JObj [(''identifier'', JStr ident), (''limit'', JNum ''10000000''), (''resource'', JStr ''api_bench''),
           (''value_requested'', JNum ''1''), (''window'', JStr ''60s'')]"

text \<open>\<open>rand.Intn(n)\<close> panics unless \<open>0 < n\<close>; \<open>rnd n\<close> is what it returns for this request otherwise.\<close>

definition rand_Intn :: "(int \<Rightarrow> int) \<Rightarrow> int \<Rightarrow> go_panic + int" where
  "rand_Intn rnd n = (if n \<le> 0 then Inl InvalidArgument else Inr (rnd n))"

definition bench_body :: "bool \<Rightarrow> int \<Rightarrow> (int \<Rightarrow> int) \<Rightarrow> go_panic + string" where
  "bench_body randomId keyRange rnd =
     (if randomId then
        (case rand_Intn rnd keyRange of
           Inl p \<Rightarrow> Inl p
         | Inr k \<Rightarrow> Inr (json_print (bench_payload (''user_'' @ show_int k))))
      else Inr (json_print (bench_payload ''bench_user'')))"

text \<open>An index into a slice: a negative or too large one panics.\<close>

definition slice_at :: "'a list \<Rightarrow> int \<Rightarrow> go_panic + 'a" where
  "slice_at xs i = (if 0 \<le> i \<and> i < int (length xs) then Inr (xs ! nat i) else Inl IndexOutOfRange)"

definition bench_urls :: "string \<Rightarrow> string list" where
  "bench_urls targetUrls = map TrimSpace (Split (CHR '','') targetUrls)"

definition bench_request ::
    "string list \<Rightarrow> bool \<Rightarrow> int \<Rightarrow> (int \<Rightarrow> int) \<Rightarrow> go_panic + string \<times> string" where
  "bench_request urls randomId keyRange rnd =
     (case bench_body randomId keyRange rnd of
        Inl p \<Rightarrow> Inl p
      | Inr body \<Rightarrow>
          (case rand_Intn rnd (int (length urls)) of
             Inl p \<Rightarrow> Inl p
           | Inr k \<Rightarrow> (case slice_at urls k of Inl p \<Rightarrow> Inl p | Inr url \<Rightarrow> Inr (url, body))))"

section \<open>The worker pool\<close>

record Result =
  ResDuration :: Duration
  ResStatusCode :: int
  ResErr :: "error option"

text \<open>What a worker sends for a request: its duration with the client's error or the status code.\<close>

fun request_result :: "Duration \<Rightarrow> error + int \<Rightarrow> Result" where
  "request_result duration (Inl err) = \<lparr>ResDuration = duration, ResStatusCode = 0, ResErr = Some err\<rparr>"
| "request_result duration (Inr st) = \<lparr>ResDuration = duration, ResStatusCode = st, ResErr = None\<rparr>"

text \<open>
  \<open>feeding\<close> jobs are still to be sent by \<open>main\<close>, \<open>queued\<close> are in the channel \<open>jobs\<close>, \<open>idle\<close>
  workers wait for one and \<open>busy\<close> ones handle one; \<open>resultsChan\<close> is the channel \<open>results\<close>. Both
  channels have room for \<open>n\<close> elements.
\<close>

record pool =
  feeding :: nat
  queued :: nat
  jobsClosed :: bool
  idle :: nat
  busy :: nat
  resultsChan :: "Result list"

datatype pool_event = FeedJob | CloseJobs | TakeJob | FinishJob Duration "error + int" | WorkerExits

definition new_pool :: "nat \<Rightarrow> nat \<Rightarrow> pool" where
  "new_pool n concurrency =
     \<lparr>feeding = n, queued = 0, jobsClosed = False, idle = concurrency, busy = 0, resultsChan = []\<rparr>"

fun pool_step :: "nat \<Rightarrow> pool \<Rightarrow> pool_event \<Rightarrow> pool option" where
  "pool_step n s FeedJob =
     (if 0 < feeding s \<and> queued s < n then Some (s\<lparr>feeding := feeding s - 1, queued := queued s + 1\<rparr>) else None)"
| "pool_step n s CloseJobs = (if feeding s = 0 \<and> \<not> jobsClosed s then Some (s\<lparr>jobsClosed := True\<rparr>) else None)"
| "pool_step n s TakeJob =
     (if 0 < idle s \<and> 0 < queued s
      then Some (s\<lparr>queued := queued s - 1, idle := idle s - 1, busy := busy s + 1\<rparr>) else None)"
| "pool_step n s (FinishJob duration resp) =
     (if 0 < busy s \<and> length (resultsChan s) < n
      then Some (s\<lparr>resultsChan := resultsChan s @ [request_result duration resp], busy := busy s - 1, idle := idle s + 1\<rparr>) else None)"
| "pool_step n s WorkerExits =
     (if 0 < idle s \<and> jobsClosed s \<and> queued s = 0 then Some (s\<lparr>idle := idle s - 1\<rparr>) else None)"

text \<open>\<open>wg.Wait()\<close> in \<open>main\<close>, after \<open>close(jobs)\<close>, returns.\<close>

definition pool_done :: "pool \<Rightarrow> bool" where
  "pool_done s \<longleftrightarrow> jobsClosed s \<and> idle s = 0 \<and> busy s = 0"

fun pool_run :: "nat \<Rightarrow> pool \<Rightarrow> pool_event list \<Rightarrow> pool option" where
  "pool_run n s [] = Some s"
| "pool_run n s (e # es) = (case pool_step n s e of None \<Rightarrow> None | Some t \<Rightarrow> pool_run n t es)"

definition pool_inv :: "nat \<Rightarrow> nat \<Rightarrow> pool \<Rightarrow> bool" where
  "pool_inv n c s \<longleftrightarrow>
     feeding s + queued s + busy s + length (resultsChan s) = n \<and> (jobsClosed s \<longrightarrow> feeding s = 0) \<and>
     idle s + busy s \<le> c \<and> (idle s + busy s < c \<longrightarrow> jobsClosed s \<and> queued s = 0)"

definition pool_work :: "pool \<Rightarrow> nat" where
  "pool_work s = 3 * feeding s + 2 * queued s + 2 * busy s + idle s + (if jobsClosed s then 0 else 1)"

lemma pool_step_inv: "pool_inv n c s \<Longrightarrow> pool_step n s e = Some t \<Longrightarrow> pool_inv n c t"
  by (cases e) (auto simp: pool_inv_def split: if_splits)

lemma pool_step_work: "pool_step n s e = Some t \<Longrightarrow> pool_work t < pool_work s"
  by (cases e) (auto simp: pool_work_def split: if_splits)

lemma pool_run_facts:
  "pool_inv n c s \<Longrightarrow> pool_run n s es = Some t \<Longrightarrow> pool_inv n c t \<and> length es + pool_work t \<le> pool_work s"
proof (induction es arbitrary: s)
  case (Cons e es)
  then obtain u where u: "pool_step n s e = Some u" "pool_run n u es = Some t" by (auto split: option.splits)
  show ?case using Cons.IH [OF pool_step_inv [OF Cons.prems(1) u(1)] u(2)] pool_step_work [OF u(1)] by simp
qed simp

text \<open>A pool that is not done can go on: no send on a channel blocks for ever.\<close>

lemma pool_progress:
  assumes "pool_inv n c s" "0 < c" "\<not> pool_done s"
  shows "\<exists>e t. pool_step n s e = Some t"
proof -
  consider "0 < feeding s" | "feeding s = 0" "\<not> jobsClosed s" | "jobsClosed s" "0 < busy s"
    | "jobsClosed s" "busy s = 0" "0 < idle s"
    using assms(3) by (auto simp: pool_done_def)
  then show ?thesis
  proof cases
    case 1
    then have "pool_step n s FeedJob \<noteq> None" using assms(1) by (auto simp: pool_inv_def)
    then show ?thesis by blast
  next
    case 2
    then have "pool_step n s CloseJobs \<noteq> None" by simp
    then show ?thesis by blast
  next
    case 3
    then have "pool_step n s (FinishJob 0 (Inr 200)) \<noteq> None" using assms(1) by (auto simp: pool_inv_def)
    then show ?thesis by blast
  next
    case 4
    then have "pool_step n s (if queued s = 0 then WorkerExits else TakeJob) \<noteq> None" by auto
    then show ?thesis by blast
  qed
qed

lemma pool_done_results:
  "pool_inv n c s \<Longrightarrow> 0 < c \<Longrightarrow> pool_done s \<Longrightarrow> length (resultsChan s) = n"
  by (auto simp: pool_inv_def pool_done_def)

section \<open>The report\<close>

record tally =
  allDurations :: "Duration list"
  totalReqDuration :: Duration
  statusCounts :: "(int, int) gomap"
  errCounts :: "(string, int) gomap"

text \<open>The sum of two durations wraps around.\<close>

definition int64 :: "int \<Rightarrow> int" where
  "int64 x = (x + 2 ^ 63) mod 2 ^ 64 - 2 ^ 63"

fun tally_loop :: "Result list \<Rightarrow> tally \<Rightarrow> tally" where
  "tally_loop [] t = t"
| "tally_loop (res # rs) t =
     (let t = t\<lparr>allDurations := allDurations t @ [ResDuration res], 
                  totalReqDuration := int64 (totalReqDuration t + ResDuration res)\<rparr>
      in tally_loop rs
           (case ResErr res of
              Some err \<Rightarrow> t\<lparr>errCounts := gm_set err (gm_get (errCounts t) err + 1) (errCounts t)\<rparr>
            | None \<Rightarrow> t\<lparr>statusCounts := gm_set (ResStatusCode res) (gm_get (statusCounts t) (ResStatusCode res) + 1) (statusCounts t)\<rparr>))"

definition getPercentile :: "(f64 \<Rightarrow> int) \<Rightarrow> Duration list \<Rightarrow> f64 \<Rightarrow> go_panic + Duration" where
  "getPercentile platform ds p =
     (let index = f64_to_int64 platform (f64_ceil (f64_mul (f64_of_int (int (length ds))) p)) - 1;
          index = (if index < 0 then 0 else index);
          index = (if index \<ge> int (length ds) then int (length ds) - 1 else index)
      in slice_at ds index)"

definition bins :: int where
  "bins = 10"

definition bin_of :: "(f64 \<Rightarrow> int) \<Rightarrow> f64 \<Rightarrow> f64 \<Rightarrow> Duration \<Rightarrow> int" where
  "bin_of platform mn step d =
     (let sec = Duration_Seconds d;
          idx = f64_to_int64 platform (f64_div (f64_sub sec mn) step)
      in if idx = bins then idx - 1 else idx)"

fun count_loop :: "(Duration \<Rightarrow> int) \<Rightarrow> Duration list \<Rightarrow> int list \<Rightarrow> go_panic + int list" where
  "count_loop bin [] counts = Inr counts"
| "count_loop bin (d # ds) counts =
     (case slice_at counts (bin d) of
        Inl p \<Rightarrow> Inl p
      | Inr c \<Rightarrow> count_loop bin ds (counts[nat (bin d) := c + 1]))"

definition bar_length :: "(f64 \<Rightarrow> int) \<Rightarrow> int \<Rightarrow> int \<Rightarrow> int" where
  "bar_length platform maxCount cnt =
     (if maxCount > 0 then
        f64_to_int64 platform
          (f64_round (f64_mul (f64_div (f64_of_int cnt) (f64_of_int maxCount)) (f64_of_int 40)))
      else 0)"

fun max_count :: "int list \<Rightarrow> int \<Rightarrow> int" where
  "max_count [] m = m"
| "max_count (c # cs) m = max_count cs (if c > m then c else m)"

text \<open>The rows: end of the bin, count and length of the bar; no rows for no durations.\<close>

definition printHistogram :: "(f64 \<Rightarrow> int) \<Rightarrow> Duration list \<Rightarrow> go_panic + (f64 \<times> int \<times> int) list" where
  "printHistogram platform ds =
     (if ds = [] then Inr []
      else
        (let mn = Duration_Seconds (ds ! 0);
             mx = Duration_Seconds (ds ! (length ds - 1));
             mx = (if f64_eq mn mx then f64_add mn (Fin (round53 (1 / 1000))) else mx);
             step = f64_div (f64_sub mx mn) (f64_of_int bins)
         in case count_loop (bin_of platform mn step) ds (replicate (nat bins) 0) of
              Inl p \<Rightarrow> Inl p
            | Inr counts \<Rightarrow>
                (let maxCount = max_count counts 0
                 in Inr (map (\<lambda>i. (f64_add mn (f64_mul (f64_of_int (int i + 1)) step), counts ! i,
                                   bar_length platform maxCount (counts ! i))) [0..<nat bins]))))"

definition percentiles :: "rat list" where
  "percentiles = [1 / 10, 1 / 4, 1 / 2, 3 / 4, 9 / 10, 19 / 20, 99 / 100]"

fun latency_lines :: "(f64 \<Rightarrow> int) \<Rightarrow> Duration list \<Rightarrow> rat list \<Rightarrow> go_panic + Duration list" where
  "latency_lines platform ds [] = Inr []"
| "latency_lines platform ds (p # ps) =
     (case getPercentile platform ds (Fin (round53 p)) of
        Inl e \<Rightarrow> Inl e
      | Inr x \<Rightarrow> (case latency_lines platform ds ps of Inl e \<Rightarrow> Inl e | Inr xs \<Rightarrow> Inr (x # xs)))"

record report =
  fastest :: Duration
  slowest :: Duration
  average :: Duration
  reqPerSec :: f64
  histogram :: "(f64 \<times> int \<times> int) list"
  latencies :: "Duration list"
  reportStatus :: "(int, int) gomap"
  reportErrs :: "(string, int) gomap"

definition bench_report :: "(f64 \<Rightarrow> int) \<Rightarrow> int \<Rightarrow> Duration \<Rightarrow> Result list \<Rightarrow> go_panic + report" where
  "bench_report platform nRequests totalDuration results =
     (let t = tally_loop results \<lparr>allDurations = [], totalReqDuration = 0, statusCounts = [], errCounts = []\<rparr>;
          ds = sort (allDurations t);
          total = totalReqDuration t
      in case slice_at ds 0 of
           Inl p \<Rightarrow> Inl p
         | Inr f \<Rightarrow>
             (case slice_at ds (int (length ds) - 1) of
                Inl p \<Rightarrow> Inl p
              | Inr s \<Rightarrow>
                  (case printHistogram platform ds of
                     Inl p \<Rightarrow> Inl p
                   | Inr rows \<Rightarrow>
                       (case latency_lines platform ds percentiles of
                          Inl p \<Rightarrow> Inl p
                        | Inr xs \<Rightarrow>
                            Inr \<lparr>fastest = f, slowest = s,
                                 average = sgn total * (\<bar>total\<bar> div int (length ds)),
                                 reqPerSec = f64_div (f64_of_int nRequests) (Duration_Seconds totalDuration),
                                 histogram = rows, latencies = xs,
                                 reportStatus = statusCounts t, reportErrs = errCounts t\<rparr>))))"

section \<open>Percentiles\<close>

lemma sorted_counts_at:
  fixes xs :: "'a::linorder list"
  assumes "sorted xs" "1 \<le> k" "k \<le> length xs"
  shows "k \<le> length (filter (\<lambda>y. y \<le> xs ! (k - 1)) xs)"
    "length xs - k + 1 \<le> length (filter (\<lambda>y. xs ! (k - 1) \<le> y) xs)"
proof -
  have "{..<k} \<subseteq> {i. i < length xs \<and> xs ! i \<le> xs ! (k - 1)}"
    using assms by (auto intro: sorted_nth_mono)
  from card_mono [OF _ this] show "k \<le> length (filter (\<lambda>y. y \<le> xs ! (k - 1)) xs)"
    by (simp add: length_filter_conv_card)
  have "{k - 1..<length xs} \<subseteq> {i. i < length xs \<and> xs ! (k - 1) \<le> xs ! i}"
    using assms by (auto intro: sorted_nth_mono)
  from card_mono [OF _ this] show "length xs - k + 1 \<le> length (filter (\<lambda>y. xs ! (k - 1) \<le> y) xs)"
    using assms by (simp add: length_filter_conv_card)
qed

lemma percentile_rank:
  assumes "ds \<noteq> []" "length ds < 2 ^ 53" "0 < p" "p \<le> 1"
  defines "k \<equiv> nat \<lceil>round53 (of_nat (length ds) * p)\<rceil>"
  shows "1 \<le> k" "k \<le> length ds" "getPercentile platform ds (Fin p) = Inr (ds ! (k - 1))"
proof -
  let ?n = "int (length ds)" and ?x = "round53 (of_nat (length ds) * p)"
  have n: "0 < length ds" using assms(1) by simp
  have "0 < ?x" using n assms(3) by (intro round53_pos mult_pos_pos) simp_all
  moreover have "?x \<le> of_int ?n"
  proof -
    have "of_nat (length ds) * p \<le> of_int ?n" using assms(3,4) mult_left_le [of p "of_nat (length ds) :: rat"] by simp
    from round53_mono [OF this] show ?thesis using round53_int [of ?n] assms(2) by simp
  qed
  ultimately have c: "1 \<le> \<lceil>?x\<rceil>" "\<lceil>?x\<rceil> \<le> ?n" by (simp_all add: ceiling_le_iff)
  then show k: "1 \<le> k" "k \<le> length ds" by (simp_all add: k_def nat_le_iff le_nat_iff)
  have len: "f64_of_int ?n = Fin (of_nat (length ds))" using round53_int [of ?n] assms(2) by (simp add: f64_of_int_def)
  have t: "truncate_rat (of_int \<lceil>?x\<rceil>) = \<lceil>?x\<rceil>" using c(1) by (simp add: truncate_rat_def)
  have "?n < 9007199254740992" using assms(2) by simp
  then have "- 9223372036854775808 \<le> \<lceil>?x\<rceil>" "\<lceil>?x\<rceil> < 9223372036854775808" using c by linarith+
  then have "f64_to_int64 platform (f64_ceil (f64_mul (f64_of_int ?n) (Fin p))) = \<lceil>?x\<rceil>"
    unfolding len by (simp add: t)
  then have "getPercentile platform ds (Fin p) = slice_at ds (\<lceil>?x\<rceil> - 1)"
    using c by (simp add: getPercentile_def Let_def)
  then show "getPercentile platform ds (Fin p) = Inr (ds ! (k - 1))"
    using c by (simp add: slice_at_def k_def nat_diff_distrib)
qed

section \<open>The histogram\<close>

text \<open>Seconds of a duration, for durations that \<open>time.Since\<close> can give.\<close>

definition secs :: "Duration \<Rightarrow> rat" where
  "secs d = round53 (of_int (d div Second) + round53 (of_int (d mod Second) / 1000000000))"

lemma Duration_Seconds_secs:
  assumes "0 \<le> d" "d < 2 ^ 63"
  shows "Duration_Seconds d = Fin (secs d)"
proof -
  have m: "0 \<le> d mod Second" "d mod Second < Second" "0 \<le> d div Second" "d div Second < 2 ^ 53"
    using assms by (simp_all add: Second_def)
  have s: "sgn d * (\<bar>d\<bar> div Second) = d div Second" "sgn d * (\<bar>d\<bar> mod Second) = d mod Second"
    using assms(1) by (cases "d = 0"; simp)+
  have r: "round53 (of_int (d div Second)) = of_int (d div Second)"
    "round53 (of_int (d mod Second)) = of_int (d mod Second)"
    "round53 1000000000 = 1000000000"
    using m round53_int [of "d div Second"] round53_int [of "d mod Second"] round53_int [of 1000000000]
    by (simp_all add: Second_def)
  show ?thesis
    unfolding Duration_Seconds_def Let_def s f64_of_int_def of_int_numeral r by (simp add: secs_def)
qed

lemma secs_mono:
  assumes "0 \<le> c" "c \<le> d"
  shows "secs c \<le> secs d"
proof -
  have m: "0 \<le> x mod Second" "x mod Second < Second" for x by (simp_all add: Second_def)
  have f: "0 \<le> round53 (of_int (x mod Second) / 1000000000)" "round53 (of_int (x mod Second) / 1000000000) \<le> 1" for x
  proof -
    have "(of_int (x mod Second) :: rat) \<le> of_int 1000000000"
      unfolding of_int_le_iff using m(2) [of x] by (simp add: Second_def)
    then show "0 \<le> round53 (of_int (x mod Second) / 1000000000)" "round53 (of_int (x mod Second) / 1000000000) \<le> 1"
      using round53_mono [of "of_int (x mod Second) / 1000000000" 1] m(1) [of x] by simp_all
  qed
  have "(of_int (c div Second) :: rat) + round53 (of_int (c mod Second) / 1000000000)
      \<le> of_int (d div Second) + round53 (of_int (d mod Second) / 1000000000)"
  proof (cases "c div Second = d div Second")
    case True
    then have "c mod Second \<le> d mod Second" using assms(2) by (metis add_le_cancel_left div_mult_mod_eq)
    then have "(of_int (c mod Second) :: rat) / 1000000000 \<le> of_int (d mod Second) / 1000000000"
      by (simp add: divide_right_mono)
    from round53_mono [OF this] show ?thesis using True by simp
  next
    case False
    then have "c div Second + 1 \<le> d div Second" using zdiv_mono1 [OF assms(2), of Second] by (simp add: Second_def)
    then have "(of_int (c div Second) :: rat) + 1 \<le> of_int (d div Second)" by (metis of_int_1 of_int_add of_int_le_iff)
    then show ?thesis using f(2) [of c] f(1) [of d] by linarith
  qed
  then show ?thesis unfolding secs_def by (rule round53_mono)
qed

lemma secs_bounds:
  assumes "0 \<le> d" "d < 2 ^ 63"
  shows "0 \<le> secs d" "secs d \<le> 2 ^ 34"
proof -
  have "secs 0 = 0" by (simp add: secs_def)
  then show "0 \<le> secs d" using secs_mono [of 0 d] assms by simp
  have "secs d \<le> secs (2 ^ 34 * Second)" using assms by (intro secs_mono) (simp_all add: Second_def)
  also have "\<dots> = round53 (of_int (2 ^ 34))" by (simp add: secs_def Second_def)
  also have "\<dots> = 2 ^ 34" by (subst round53_int) simp_all
  finally show "secs d \<le> 2 ^ 34" .
qed

text \<open>
  The quotient that selects the bin lies between 0 and a little above 10: the width of the bins is
  rounded, by at most one part in \<open>2^53\<close>.
\<close>

lemma bin_quotient:
  assumes "0 \<le> x" "x \<le> m" "0 < m"
  shows "0 \<le> round53 (x / round53 (m / 10))" "round53 (x / round53 (m / 10)) < 11"
proof -
  let ?w = "round53 (m / 10)"
  have w: "0 < ?w" "m / 10 - m / 10 / 2 ^ 53 \<le> ?w"
    using assms(3) round53_pos [of "m / 10"] round53_error(1) [of "m / 10"] by simp_all
  then have "2 * m \<le> 21 * ?w" using assms(3) by (simp add: field_simps)
  then have q: "0 \<le> x / ?w" "x / ?w \<le> 21 / 2"
    using assms(1,2) w(1) by (simp_all add: field_simps)
  show "0 \<le> round53 (x / ?w)" using q(1) by simp
  have "round53 (x / ?w) \<le> round53 (21 / 2)" by (rule round53_mono [OF q(2)])
  also have "\<dots> \<le> 21 / 2 + 21 / 2 / 2 ^ 53" by (rule round53_error(2)) simp
  finally show "round53 (x / ?w) < 11" by simp
qed

lemma truncate_bin:
  assumes "0 \<le> y" "y < 11"
  shows "0 \<le> truncate_rat y" "truncate_rat y \<le> 10"
  using assms floor_less_iff [of y 11] by (simp_all add: truncate_rat_def)

lemma to_int64_small: "0 \<le> truncate_rat x \<Longrightarrow> truncate_rat x < 2 ^ 63 \<Longrightarrow> f64_to_int64 platform (Fin x) = truncate_rat x"
  by simp

lemma bin_of_range:
  assumes d: "0 \<le> d" "d < 2 ^ 63" "mn \<le> secs d" "secs d \<le> mx" and lt: "mn < mx"
  defines "step \<equiv> f64_div (f64_sub (Fin mx) (Fin mn)) (f64_of_int bins)"
  shows "0 \<le> bin_of platform (Fin mn) step d" "bin_of platform (Fin mn) step d < bins"
proof -
  let ?m = "round53 (mx - mn)" and ?x = "round53 (secs d - mn)"
  have "f64_of_int bins = Fin 10" using round53_int [of 10] by (simp add: f64_of_int_def bins_def)
  then have step: "step = Fin (round53 (?m / 10))" by (simp add: step_def f64_sub_def)
  have m: "0 < ?m" using lt by (simp add: round53_pos)
  have x: "0 \<le> ?x" "?x \<le> ?m" using d(3,4) round53_mono [of "secs d - mn" "mx - mn"] by simp_all
  let ?q = "round53 (?x / round53 (?m / 10))"
  have t: "0 \<le> truncate_rat ?q" "truncate_rat ?q \<le> 10"
    by (rule truncate_bin; rule bin_quotient [OF x m])+
  have "round53 (?m / 10) \<noteq> 0" using round53_pos [of "?m / 10"] m by simp
  then have "f64_to_int64 platform (f64_div (f64_sub (Duration_Seconds d) (Fin mn)) step) = truncate_rat ?q"
    using t by (simp add: Duration_Seconds_secs [OF d(1,2)] step f64_sub_def)
  then show "0 \<le> bin_of platform (Fin mn) step d" "bin_of platform (Fin mn) step d < bins"
    using t by (simp_all add: bin_of_def Let_def bins_def)
qed

text \<open>When all durations have the same seconds, the upper end is moved up by a millisecond.\<close>

lemma widened:
  assumes "0 \<le> mn" "mn \<le> 2 ^ 34"
  shows "mn < round53 (mn + round53 (1 / 1000))"
proof -
  define c where "c = round53 (1 / 1000)"
  have c: "1 / 2000 \<le> c" "c \<le> 1"
    using round53_error(1) [of "1 / 1000"] round53_mono [of "1 / 1000" 1] by (simp_all add: c_def)
  have "(mn + c) / 2 ^ 53 \<le> 1 / 10000" using assms(2) c(2) by simp
  moreover have "mn + c - (mn + c) / 2 ^ 53 \<le> round53 (mn + c)" using assms(1) c(1) by (intro round53_error(1)) simp
  ultimately have "mn < round53 (mn + c)" using c(1) by linarith
  then show ?thesis by (simp add: c_def)
qed

lemma sum_list_increment: "i < length xs \<Longrightarrow> sum_list (xs[i := xs ! i + 1]) = sum_list xs + 1" for xs :: "int list"
  by (induction xs arbitrary: i) (auto split: nat.splits)

lemma count_loop_total:
  assumes "\<forall>d \<in> set ds. 0 \<le> bin d \<and> bin d < int (length counts)" "\<forall>c \<in> set counts. 0 \<le> c"
  shows "\<exists>cs. count_loop bin ds counts = Inr cs \<and> length cs = length counts \<and>
    sum_list cs = sum_list counts + int (length ds) \<and> (\<forall>c \<in> set cs. 0 \<le> c)"
  using assms
proof (induction ds arbitrary: counts)
  case (Cons d ds)
  let ?i = "nat (bin d)" and ?cs = "counts[nat (bin d) := counts ! nat (bin d) + 1]"
  have i: "0 \<le> bin d" "?i < length counts" using Cons.prems(1) by auto
  have "sum_list ?cs = sum_list counts + 1" by (rule sum_list_increment [OF i(2)])
  moreover have "\<forall>c \<in> set ?cs. 0 \<le> c"
    using Cons.prems(2) i(2) set_update_subset_insert [of counts ?i] nth_mem [OF i(2)] by fastforce
  ultimately show ?case
    using Cons.IH [of ?cs] Cons.prems(1) i by (auto simp: slice_at_def)
qed simp

lemma max_count_bounds: "m \<le> max_count cs m" "c \<in> set cs \<Longrightarrow> c \<le> max_count cs m" "max_count cs m \<in> insert m (set cs)"
proof (induction cs arbitrary: m)
  case (Cons a cs)
  { case 1 show ?case using Cons(1) [of "if a > m then a else m"] by (auto split: if_splits) }
  { case 2 then show ?case using Cons(1,2) [of "if a > m then a else m"] by (auto split: if_splits) }
  { case 3 show ?case using Cons(3) [of "if a > m then a else m"] by (auto split: if_splits) }
qed simp_all

lemma bar_length_bounds:
  assumes "0 \<le> c" "c \<le> m" "m < 2 ^ 53"
  shows "0 \<le> bar_length platform m c" "bar_length platform m c \<le> 40"
proof -
  have "0 \<le> bar_length platform m c \<and> bar_length platform m c \<le> 40"
  proof (cases "0 < m")
    case True
    have f: "f64_of_int c = Fin (of_int c)" "f64_of_int m = Fin (of_int m)" "f64_of_int 40 = Fin 40"
      using round53_int [of c] round53_int [of m] round53_int [of 40] assms by (simp_all add: f64_of_int_def)
    let ?q = "round53 (of_int c / of_int m)"
    have q: "0 \<le> ?q" "?q \<le> 1" using assms True round53_mono [of "of_int c / of_int m" 1] by simp_all
    have y: "0 \<le> round53 (?q * 40)" "round53 (?q * 40) \<le> 40"
      using q round53_mono [of "?q * 40" 40] round53_int [of 40] by simp_all
    let ?r = "\<lfloor>round53 (?q * 40) + 1 / 2\<rfloor>"
    have r: "0 \<le> ?r" "?r \<le> 40" using y by (simp_all add: floor_le_iff)
    then have "truncate_rat (of_int ?r) = ?r" by (simp add: truncate_rat_def)
    then have "f64_to_int64 platform (Fin (of_int ?r)) = ?r" using r by (subst to_int64_small) simp_all
    then show ?thesis using True y(1) r by (simp add: bar_length_def f del: f64_to_int64.simps)
  qed (simp add: bar_length_def)
  then show "0 \<le> bar_length platform m c" "bar_length platform m c \<le> 40" by simp_all
qed

text \<open>The lower and the upper end of the histogram, around the seconds of all durations.\<close>

lemma histogram_range:
  assumes ds: "ds \<noteq> []" "sorted ds" "\<forall>d \<in> set ds. 0 \<le> d \<and> d < 2 ^ 63"
  obtains mn mx where "Duration_Seconds (ds ! 0) = Fin mn"
    "(if f64_eq (Fin mn) (Duration_Seconds (ds ! (length ds - 1)))
      then f64_add (Fin mn) (Fin (round53 (1 / 1000))) else Duration_Seconds (ds ! (length ds - 1))) = Fin mx"
    "mn < mx" "\<forall>d \<in> set ds. mn \<le> secs d \<and> secs d \<le> mx"
proof -
  let ?lo = "ds ! 0" and ?hi = "ds ! (length ds - 1)"
  have ends: "?lo \<in> set ds" "?hi \<in> set ds" using ds(1) by simp_all
  then have f: "Duration_Seconds ?lo = Fin (secs ?lo)" "Duration_Seconds ?hi = Fin (secs ?hi)"
    using ds(3) by (auto simp: Duration_Seconds_secs)
  have sec: "secs ?lo \<le> secs d" "secs d \<le> secs ?hi" if d: "d \<in> set ds" for d
  proof -
    obtain i where "i < length ds" "d = ds ! i" using d by (metis in_set_conv_nth)
    then have "?lo \<le> d" "d \<le> ?hi" using ds(2) by (auto intro: sorted_nth_mono)
    then show "secs ?lo \<le> secs d" "secs d \<le> secs ?hi" using ds(3) d ends by (auto intro!: secs_mono)
  qed
  let ?mx = "if secs ?lo = secs ?hi then round53 (secs ?lo + round53 (1 / 1000)) else secs ?hi"
  have "0 \<le> secs ?lo" "secs ?lo \<le> 2 ^ 34" using secs_bounds [of ?lo] ds(3) ends by auto
  from widened [OF this] have lt: "secs ?lo < ?mx" using sec(1) [OF ends(2)] by auto
  moreover have "\<forall>d \<in> set ds. secs ?lo \<le> secs d \<and> secs d \<le> ?mx"
    using sec lt order_trans [OF sec(2) less_imp_le] by (auto split: if_splits)
  moreover have "(if f64_eq (Fin (secs ?lo)) (Duration_Seconds ?hi)
      then f64_add (Fin (secs ?lo)) (Fin (round53 (1 / 1000))) else Duration_Seconds ?hi) = Fin ?mx"
    unfolding f(2) by simp
  ultimately show thesis by (intro that [OF f(1)])
qed

lemma histogram_counts:
  assumes ds: "ds \<noteq> []" "sorted ds" "\<forall>d \<in> set ds. 0 \<le> d \<and> d < 2 ^ 63" "length ds < 2 ^ 53"
  obtains rows where "printHistogram platform ds = Inr rows" "length rows = 10"
    "sum_list (map (fst \<circ> snd) rows) = int (length ds)"
    "\<forall>(e, c, b) \<in> set rows. 0 \<le> c \<and> 0 \<le> b \<and> b \<le> 40"
proof -
  obtain mn mx where r: "Duration_Seconds (ds ! 0) = Fin mn"
    "(if f64_eq (Fin mn) (Duration_Seconds (ds ! (length ds - 1)))
      then f64_add (Fin mn) (Fin (round53 (1 / 1000))) else Duration_Seconds (ds ! (length ds - 1))) = Fin mx"
    "mn < mx" "\<forall>d \<in> set ds. mn \<le> secs d \<and> secs d \<le> mx"
    by (rule histogram_range [OF ds(1-3)])
  let ?step = "f64_div (f64_sub (Fin mx) (Fin mn)) (f64_of_int bins)"
  have "\<forall>d \<in> set ds. 0 \<le> bin_of platform (Fin mn) ?step d \<and> bin_of platform (Fin mn) ?step d < int (length (replicate (nat bins) 0))"
    using ds(3) r(3,4) bin_of_range by (simp add: bins_def)
  from count_loop_total [OF this] obtain cs where
    cs: "count_loop (bin_of platform (Fin mn) ?step) ds (replicate (nat bins) 0) = Inr cs" "length cs = 10"
      "sum_list cs = int (length ds)" "\<forall>c \<in> set cs. 0 \<le> c"
    by (auto simp: bins_def sum_list_replicate)
  have "sum_list cs \<ge> c" if "c \<in> set cs" for c by (rule member_le_sum_list) (use that cs(4) in auto)
  then have m: "max_count cs 0 < 2 ^ 53" using cs(3) ds(4) max_count_bounds(3) [of cs 0] by fastforce
  let ?rows = "map (\<lambda>i. (f64_add (Fin mn) (f64_mul (f64_of_int (int i + 1)) ?step), cs ! i,
      bar_length platform (max_count cs 0) (cs ! i))) [0..<nat bins]"
  have "printHistogram platform ds = Inr ?rows"
    using ds(1) unfolding printHistogram_def Let_def r(1,2) cs(1) by simp
  moreover have "map (fst \<circ> snd) ?rows = cs" using cs(2) by (intro nth_equalityI) (simp_all add: bins_def)
  moreover have "\<forall>(e, c, b) \<in> set ?rows. 0 \<le> c \<and> 0 \<le> b \<and> b \<le> 40"
    using cs(2,4) m max_count_bounds(2) [of _ cs 0] bar_length_bounds by (auto simp: bins_def)
  ultimately show thesis using that [of ?rows] cs(3) by (simp add: bins_def)
qed

section \<open>The tally\<close>

lemma int64_id: "- (2 ^ 63) \<le> x \<Longrightarrow> x < 2 ^ 63 \<Longrightarrow> int64 x = x"
  by (simp add: int64_def)

lemma int64_step: "int64 (int64 x + y) = int64 (x + y)"
proof -
  have "int64 x + y + 2 ^ 63 = (x + 2 ^ 63) mod 2 ^ 64 + y" by (simp add: int64_def)
  then show ?thesis by (simp only: int64_def mod_add_left_eq) (simp add: algebra_simps)
qed

lemma int64_idem: "int64 (int64 x) = int64 x"
  using int64_step [of x 0] by simp

lemma tally_loop_int64: "int64 (totalReqDuration t) = totalReqDuration t \<Longrightarrow>
    int64 (totalReqDuration (tally_loop rs t)) = totalReqDuration (tally_loop rs t)"
  by (induction rs t rule: tally_loop.induct) (auto simp: Let_def int64_idem split: option.splits)

lemma tally_loop_facts:
  assumes "gm_ok (statusCounts t)" "gm_ok (errCounts t)" "tally_loop rs t = t'"
  shows "allDurations t' = allDurations t @ map ResDuration rs"
    "int64 (totalReqDuration t') = int64 (totalReqDuration t + sum_list (map ResDuration rs))"
    "sum_list (map snd (statusCounts t')) + sum_list (map snd (errCounts t')) =
       sum_list (map snd (statusCounts t)) + sum_list (map snd (errCounts t)) + int (length rs)"
proof -
  have "allDurations t' = allDurations t @ map ResDuration rs \<and>
    int64 (totalReqDuration t') = int64 (totalReqDuration t + sum_list (map ResDuration rs)) \<and>
    sum_list (map snd (statusCounts t')) + sum_list (map snd (errCounts t')) =
       sum_list (map snd (statusCounts t)) + sum_list (map snd (errCounts t)) + int (length rs)"
    using assms
  proof (induction rs arbitrary: t)
    case (Cons r rs)
    define u where "u = (let t = t\<lparr>allDurations := allDurations t @ [ResDuration r], 
        totalReqDuration := int64 (totalReqDuration t + ResDuration r)\<rparr>
      in case ResErr r of
           Some err \<Rightarrow> t\<lparr>errCounts := gm_set err (gm_get (errCounts t) err + 1) (errCounts t)\<rparr>
         | None \<Rightarrow> t\<lparr>statusCounts := gm_set (ResStatusCode r) (gm_get (statusCounts t) (ResStatusCode r) + 1) (statusCounts t)\<rparr>)"
    have u: "gm_ok (statusCounts u)" "gm_ok (errCounts u)" "tally_loop rs u = t'"
      "allDurations u = allDurations t @ [ResDuration r]" "totalReqDuration u = int64 (totalReqDuration t + ResDuration r)"
      "sum_list (map snd (statusCounts u)) + sum_list (map snd (errCounts u)) =
         sum_list (map snd (statusCounts t)) + sum_list (map snd (errCounts t)) + 1"
      using Cons.prems by (auto simp: u_def Let_def sum_list_gm_set gm_ok_set split: option.splits)
    from Cons.IH [OF u(1-3)] show ?case unfolding u(4-6) int64_step by (simp add: add.assoc)
  qed simp
  then show "allDurations t' = allDurations t @ map ResDuration rs"
    "int64 (totalReqDuration t') = int64 (totalReqDuration t + sum_list (map ResDuration rs))"
    "sum_list (map snd (statusCounts t')) + sum_list (map snd (errCounts t')) =
       sum_list (map snd (statusCounts t)) + sum_list (map snd (errCounts t)) + int (length rs)" by blast+
qed

lemma sum_list_bounds:
  fixes xs :: "int list"
  assumes "\<forall>x \<in> set xs. a \<le> x \<and> x \<le> b"
  shows "int (length xs) * a \<le> sum_list xs" "sum_list xs \<le> int (length xs) * b"
  using assms by (induction xs) (auto simp: algebra_simps)

lemma average_bounds:
  fixes xs :: "int list"
  assumes "\<forall>x \<in> set xs. a \<le> x \<and> x \<le> b" "0 \<le> a" "xs \<noteq> []"
  shows "a \<le> sgn (sum_list xs) * (\<bar>sum_list xs\<bar> div int (length xs))"
    "sgn (sum_list xs) * (\<bar>sum_list xs\<bar> div int (length xs)) \<le> b"
proof -
  note s = sum_list_bounds [OF assms(1)]
  have n: "0 < int (length xs)" using assms(3) by simp
  have "0 \<le> int (length xs) * a" using assms(2) by simp
  then have pos: "0 \<le> sum_list xs" using s(1) by linarith
  then have e: "sgn (sum_list xs) * (\<bar>sum_list xs\<bar> div int (length xs)) = sum_list xs div int (length xs)"
    by (cases "sum_list xs = 0") simp_all
  have "a * int (length xs) div int (length xs) \<le> sum_list xs div int (length xs)"
    "sum_list xs div int (length xs) \<le> b * int (length xs) div int (length xs)"
    using s n by (intro zdiv_mono1; simp add: mult.commute)+
  then show "a \<le> sgn (sum_list xs) * (\<bar>sum_list xs\<bar> div int (length xs))"
    "sgn (sum_list xs) * (\<bar>sum_list xs\<bar> div int (length xs)) \<le> b"
    using n unfolding e by simp_all
qed

lemma latency_ranks:
  assumes "ds \<noteq> []" "sorted ds" "length ds < 2 ^ 53" "\<forall>p \<in> set ps. 0 < p \<and> p \<le> 1"
  shows "\<exists>xs. latency_lines platform ds ps = Inr xs \<and>
    list_all2 (\<lambda>p x. x \<in> set ds \<and>
      \<lceil>round53 (of_nat (length ds) * round53 p)\<rceil> \<le> int (length (filter (\<lambda>d. d \<le> x) ds))) ps xs"
  using assms(4)
proof (induction ps)
  case (Cons p ps)
  then have p: "0 < round53 p" "round53 p \<le> 1" using round53_mono [of p 1] by (auto intro!: round53_pos)
  let ?k = "nat \<lceil>round53 (of_nat (length ds) * round53 p)\<rceil>"
  note k = percentile_rank [OF assms(1,3) p]
  have "?k \<le> length (filter (\<lambda>d. d \<le> ds ! (?k - 1)) ds)" by (rule sorted_counts_at [OF assms(2) k(1,2)])
  then have "\<lceil>round53 (of_nat (length ds) * round53 p)\<rceil> \<le> int (length (filter (\<lambda>d. d \<le> ds ! (?k - 1)) ds))"
    unfolding nat_le_iff .
  moreover have "ds ! (?k - 1) \<in> set ds" using k(1,2) by (intro nth_mem) simp
  ultimately show ?case using Cons k(3) [of platform] by auto
qed simp

lemma sorted_ends:
  assumes "sorted ds" "x \<in> set ds"
  shows "ds ! 0 \<le> x" "x \<le> ds ! (length ds - 1)"
proof -
  obtain i where "i < length ds" "x = ds ! i" using assms(2) by (metis in_set_conv_nth)
  then show "ds ! 0 \<le> x" "x \<le> ds ! (length ds - 1)" using assms(1) by (auto intro: sorted_nth_mono)
qed

text \<open>Three results: two responses and a request that failed.\<close>

definition three_results :: "Result list" where
  "three_results =
     [request_result 5000000 (Inr 200), request_result 2000000 (Inl ''timeout''), request_result 9000000 (Inr 200)]"

text \<open>
  The worker pool ends and loses nothing. With at least one worker every schedule of \<open>n\<close> requests
  has at most \<open>3 n + c + 1\<close> steps; as long as \<open>wg.Wait\<close> has not returned some goroutine can make a
  step, so no send on a channel blocks for ever; and when it has, there is one result per request.
\<close>

lemma pool_completes:
  assumes "0 < c" "pool_run n (new_pool n c) es = Some s"
  shows "length es \<le> 3 * n + c + 1 \<and> (pool_done s \<or> (\<exists>e t. pool_step n s e = Some t)) \<and>
    (pool_done s \<longrightarrow> length (resultsChan s) = n)"
proof -
  have "pool_inv n c (new_pool n c)" by (simp add: pool_inv_def new_pool_def)
  from pool_run_facts [OF this assms(2)] have inv: "pool_inv n c s" "length es \<le> pool_work (new_pool n c)" by simp_all
  moreover have "pool_work (new_pool n c) = 3 * n + c + 1" by (simp add: pool_work_def new_pool_def)
  ultimately show ?thesis using pool_progress [OF inv(1) assms(1)] pool_done_results [OF inv(1) assms(1)] by auto
qed

text \<open>The fields of the report, from the sorted durations.\<close>

lemma report_fields:
  assumes "results \<noteq> []" "length results < 2 ^ 53"
    and "\<forall>r \<in> set results. 0 \<le> ResDuration r" "sum_list (map ResDuration results) < 2 ^ 63"
  defines "ds \<equiv> sort (map ResDuration results)"
    and "t \<equiv> tally_loop results \<lparr>allDurations = [], totalReqDuration = 0, statusCounts = [], errCounts = []\<rparr>"
  obtains rows xs where "bench_report platform n elapsed results =
      Inr \<lparr>fastest = ds ! 0, slowest = ds ! (length ds - 1),
        average = sgn (totalReqDuration t) * (\<bar>totalReqDuration t\<bar> div int (length results)),
        reqPerSec = f64_div (f64_of_int n) (Duration_Seconds elapsed), histogram = rows,
        latencies = xs, reportStatus = statusCounts t, reportErrs = errCounts t\<rparr>"
    and "length rows = 10" "sum_list (map (fst \<circ> snd) rows) = int (length results)"
      "\<forall>(e, c, b) \<in> set rows. 0 \<le> c \<and> 0 \<le> b \<and> b \<le> 40"
    and "list_all2 (\<lambda>p x. x \<in> set ds \<and>
      \<lceil>round53 (of_nat (length results) * round53 p)\<rceil> \<le> int (length (filter (\<lambda>d. d \<le> x) ds))) percentiles xs"
proof -
  have len: "length ds = length results" by (simp add: ds_def)
  have small: "d < 2 ^ 63" if "d \<in> set (map ResDuration results)" for d
    using member_le_sum_list [OF that] assms(3,4) by fastforce
  have ne: "ds \<noteq> []" using assms(1) len by (metis length_0_conv)
  then have ds: "ds \<noteq> []" "sorted ds" "\<forall>d \<in> set ds. 0 \<le> d \<and> d < 2 ^ 63" "length ds < 2 ^ 53"
    using assms(2,3) len small by (auto simp: ds_def)
  obtain rows where rows: "printHistogram platform ds = Inr rows" "length rows = 10"
      "sum_list (map (fst \<circ> snd) rows) = int (length ds)" "\<forall>(e, c, b) \<in> set rows. 0 \<le> c \<and> 0 \<le> b \<and> b \<le> 40"
    by (rule histogram_counts [OF ds])
  have "\<forall>p \<in> set percentiles. 0 < p \<and> p \<le> 1" by (simp add: percentiles_def)
  from latency_ranks [OF ds(1,2,4) this] obtain xs where xs: "latency_lines platform ds percentiles = Inr xs"
      "list_all2 (\<lambda>p x. x \<in> set ds \<and>
        \<lceil>round53 (of_nat (length ds) * round53 p)\<rceil> \<le> int (length (filter (\<lambda>d. d \<le> x) ds))) percentiles xs"
    by blast
  have all: "sort (allDurations t) = ds"
    using tally_loop_facts(1) [OF _ _ refl, of "\<lparr>allDurations = [], totalReqDuration = 0, statusCounts = [], errCounts = []\<rparr>" results]
    by (simp add: t_def ds_def)
  have top: "nat (int (length ds) - 1) = length ds - 1" by arith
  have "bench_report platform n elapsed results =
      Inr \<lparr>fastest = ds ! 0, slowest = ds ! (length ds - 1),
        average = sgn (totalReqDuration t) * (\<bar>totalReqDuration t\<bar> div int (length results)),
        reqPerSec = f64_div (f64_of_int n) (Duration_Seconds elapsed), histogram = rows,
        latencies = xs, reportStatus = statusCounts t, reportErrs = errCounts t\<rparr>"
    using ds(1) rows(1) xs(1) len assms(1) unfolding bench_report_def Let_def t_def [symmetric] all
    by (simp add: slice_at_def top [unfolded len])
  then show thesis by (rule that [OF _ rows(2) _ rows(4)]) (use rows(3) xs(2) len in simp_all)
qed

section \<open>Properties\<close>

text \<open>
  C39: the report. With at least one result, durations that are not negative and a sum of durations
  that fits its type, the report is computed without a panic on every platform: the average lies
  between the fastest and the slowest request, the histogram has ten rows whose counts add up to the
  number of results and whose bars are at most 40 characters long, the counts of statuses and errors
  add up to it too, and every latency is a duration that occurred, with at least the share of the
  results at or below it that was asked for (its rank is rounded up from the rounded product).
\<close>

theorem report_is_complete:
  assumes "results \<noteq> []" "length results < 2 ^ 53"
    and "\<forall>r \<in> set results. 0 \<le> ResDuration r" "sum_list (map ResDuration results) < 2 ^ 63"
  shows "\<exists>rep. bench_report platform n elapsed results = Inr rep \<and>
    fastest rep \<le> average rep \<and> average rep \<le> slowest rep \<and>
    length (histogram rep) = 10 \<and> sum_list (map (fst \<circ> snd) (histogram rep)) = int (length results) \<and>
    (\<forall>(e, c, b) \<in> set (histogram rep). 0 \<le> c \<and> 0 \<le> b \<and> b \<le> 40) \<and>
    sum_list (map snd (reportStatus rep)) + sum_list (map snd (reportErrs rep)) = int (length results) \<and>
    list_all2 (\<lambda>p x. x \<in> ResDuration ` set results \<and>
      \<lceil>round53 (of_nat (length results) * round53 p)\<rceil>
        \<le> int (length (filter (\<lambda>r. ResDuration r \<le> x) results))) percentiles (latencies rep)"
proof -
  let ?empty = "\<lparr>allDurations = [], totalReqDuration = 0, statusCounts = [], errCounts = []\<rparr>"
  note t = tally_loop_facts [OF _ _ refl, of ?empty results, simplified]
  let ?ds = "sort (map ResDuration results)"
  have "0 \<le> sum_list (map ResDuration results)" using assms(3) by (intro sum_list_nonneg) auto
  then have total: "totalReqDuration (tally_loop results ?empty) = sum_list (map ResDuration results)"
    using t(2) tally_loop_int64 [of ?empty results] assms(4) by (simp add: int64_id)
  have "?ds \<noteq> []" using assms(1) by (metis length_sort length_map length_0_conv)
  then have "?ds ! 0 \<in> set ?ds" by (metis nth_mem length_greater_0_conv)
  then have "\<forall>x \<in> set (map ResDuration results). ?ds ! 0 \<le> x \<and> x \<le> ?ds ! (length ?ds - 1)" "0 \<le> ?ds ! 0"
    using sorted_ends [of ?ds] assms(3) by auto
  note avg = average_bounds [OF this]
  have filt: "length (filter (\<lambda>d. d \<le> x) ?ds) = length (filter (\<lambda>r. ResDuration r \<le> x) results)" for x
    by (simp add: filter_sort filter_map comp_def)
  show ?thesis
    by (rule report_fields [OF assms, where platform = platform and n = n and elapsed = elapsed])
      (use avg assms(1) t(3) in \<open>simp add: total filt\<close>)
qed

theorem report_is_complete_witness:
  "\<exists>rep. bench_report (\<lambda>_. 0) 3 Second three_results = Inr rep \<and> fastest rep \<le> average rep \<and>
     length (histogram rep) = 10 \<and> sum_list (map (fst \<circ> snd) (histogram rep)) = 3"
proof -
  have "length three_results = 3" "three_results \<noteq> []" "\<forall>r \<in> set three_results. 0 \<le> ResDuration r"
    "sum_list (map ResDuration three_results) < 2 ^ 63"
    by (simp_all add: three_results_def)
  with report_is_complete [of three_results "\<lambda>_. 0" 3 Second] show ?thesis by auto
qed

text \<open>Without results, as with \<open>-n 0\<close> or \<open>-c 0\<close>, the report indexes an empty slice.\<close>

lemma empty_report_panics: "bench_report platform n elapsed [] = Inl IndexOutOfRange"
  by (simp add: bench_report_def slice_at_def)

text \<open>
  A request of the generator goes to one of its urls, and the server reads its body as it is meant:
  one unit of ten million per minute. With random identifiers from an empty range the worker panics.
\<close>

lemma bench_payload_is_read:
  assumes "valid_utf8 i"
  shows "decode_body (json_print (bench_payload i)) =
    Some \<lparr>Identifier = i, Resource = ''api_bench'', ReqLimit = 10000000, ReqWindow = ''60s'', ValueRequested = 1\<rparr>"
proof -
  have lits: "uint_literal ''10000000''" "uint_literal ''1''" "valid_utf8 ''api_bench''" "valid_utf8 ''60s''"
      "ParseUint ''10000000'' = Inr 10000000" "ParseUint ''1'' = Inr 1" by code_simp+
  have "json_decode (json_print (bench_payload i)) = Some (bench_payload i)"
    by (rule json_read_line(2)) (simp_all add: bench_payload_def assms lits field_names_valid max_depth_def)
  then show ?thesis
    by (simp add: decode_body_def bench_payload_def field_names_differ string_field_def uint_field_def lits zero_request_def)
qed

lemma bench_request_is_read:
  assumes "randomId \<Longrightarrow> 0 < keyRange" "\<And>n. 0 < n \<Longrightarrow> 0 \<le> rnd n \<and> rnd n < n"
  shows "\<exists>url body i. bench_request (bench_urls targets) randomId keyRange rnd = Inr (url, body) \<and>
    url \<in> set (bench_urls targets) \<and>
    decode_body body =
      Some \<lparr>Identifier = i, Resource = ''api_bench'', ReqLimit = 10000000, ReqWindow = ''60s'', ValueRequested = 1\<rparr>"
proof -
  let ?i = "if randomId then ''user_'' @ show_int (rnd keyRange) else ''bench_user''"
  have "list_all (\<lambda>c. code c < 128) (''user_'' @ ''bench_user'')" by code_simp
  then have "ascii ?i"
    using ascii_pad [of 0 "rnd keyRange"] by (auto simp: ascii_def show_int_def list_all_iff)
  note read = bench_payload_is_read [OF ascii_valid [OF this]]
  have body: "bench_body randomId keyRange rnd = Inr (json_print (bench_payload ?i))"
    using assms(1) by (auto simp: bench_body_def rand_Intn_def)
  let ?n = "int (length (bench_urls targets))"
  have "0 < ?n" using Split_nonempty [of "CHR '',''" targets] by (simp add: bench_urls_def)
  then have "slice_at (bench_urls targets) (rnd ?n) = Inr (bench_urls targets ! nat (rnd ?n))" "nat (rnd ?n) < length (bench_urls targets)"
      "rand_Intn rnd ?n = Inr (rnd ?n)"
    using assms(2) [of ?n] by (auto simp: slice_at_def rand_Intn_def)
  then have "bench_request (bench_urls targets) randomId keyRange rnd =
      Inr (bench_urls targets ! nat (rnd ?n), json_print (bench_payload ?i))" "bench_urls targets ! nat (rnd ?n) \<in> set (bench_urls targets)"
    by (simp_all add: bench_request_def body)
  with read show ?thesis by blast
qed

lemma empty_key_range_panics: "keyRange \<le> 0 \<Longrightarrow> bench_request urls True keyRange rnd = Inl InvalidArgument"
  by (simp add: bench_request_def bench_body_def rand_Intn_def)

lemma bench_window: "ParseDuration ''60s'' = Some (60 * Second)"
  by code_simp

end
