(* ===== verification/BenchMain.thy ===== *)
theory BenchMain
  imports Bench GoFlag
begin

text \<open>
  All of \<open>main\<close> of \<open>cmd/bench\<close>: its flags, the workers with the requests they send, and the report.
  \<open>rnds k\<close> are the random numbers of the job taken as number \<open>k\<close>, \<open>sched\<close> is the order of the steps
  of the goroutines with the results of the HTTP client in it, \<open>elapsed\<close> the total duration.
\<close>

definition bench_flags :: flags where
  "bench_flags =
     [(''n'', FInt 1000), (''c'', FInt 50), (''url'', FString ''http://localhost:8081/check''),
      (''random-id'', FBool False), (''key-range'', FInt 1000000)]"

definition takes :: "pool_event list \<Rightarrow> nat" where
  "takes es = length (filter ((=) TakeJob) es)"

fun bench_requests ::
    "string list \<Rightarrow> bool \<Rightarrow> int \<Rightarrow> (int \<Rightarrow> int) list \<Rightarrow> go_panic + (string \<times> string) list" where
  "bench_requests urls randomId keyRange [] = Inr []"
| "bench_requests urls randomId keyRange (rnd # rnds) =
     (case bench_request urls randomId keyRange rnd of
        Inl p \<Rightarrow> Inl p
      | Inr req \<Rightarrow>
          (case bench_requests urls randomId keyRange rnds of Inl p \<Rightarrow> Inl p | Inr reqs \<Rightarrow> Inr (req # reqs)))"

datatype bench_outcome = BenchExits int | BenchPanics go_panic | Reports "(string \<times> string) list" report

text \<open>
  \<open>None\<close> for a schedule that is not one or that has not come to its end. A negative size of a channel
  and a negative number of workers panic.
\<close>

definition bench_main ::
    "(f64 \<Rightarrow> int) \<Rightarrow> string list \<Rightarrow> (nat \<Rightarrow> int \<Rightarrow> int) \<Rightarrow> pool_event list \<Rightarrow> Duration \<Rightarrow> bench_outcome option" where
  "bench_main platform args rnds sched elapsed =
     (case flag_Parse bench_flags args of
        Inl err \<Rightarrow> Some (BenchExits (exit_code err))
      | Inr (fl, _) \<Rightarrow>
          (let nRequests = flag_int fl ''n'';
               concurrency = flag_int fl ''c'';
               urls = bench_urls (flag_string fl ''url'')
           in if nRequests < 0 \<or> concurrency < 0 then Some (BenchPanics InvalidArgument)
              else case pool_run (nat nRequests) (new_pool (nat nRequests) (nat concurrency)) sched of
                     None \<Rightarrow> None
                   | Some s \<Rightarrow>
                       (case bench_requests urls (flag_bool fl ''random-id'') (flag_int fl ''key-range'')
                               (map rnds [0..<takes sched]) of
                          Inl p \<Rightarrow> Some (BenchPanics p)
                        | Inr reqs \<Rightarrow>
                            if \<not> pool_done s then None
                            else (case bench_report platform nRequests elapsed (resultsChan s) of
                                    Inl p \<Rightarrow> Some (BenchPanics p)
                                  | Inr rep \<Rightarrow> Some (Reports reqs rep)))))"

section \<open>Requests and results\<close>

text \<open>All five flags given on the command line are the variables of \<open>main\<close>.\<close>

lemma bench_args_read:
  fixes n c k :: int and u :: string and b :: bool
  assumes "\<forall>x \<in> {n, c, k}. - (2 ^ 63) \<le> x \<and> x < 2 ^ 63"
  defines "fl \<equiv> [(''n'', FInt n), (''c'', FInt c), (''url'', FString u), (''random-id'', FBool b), (''key-range'', FInt k)]"
  shows "flag_Parse bench_flags (map flag_arg fl) = Inr (fl, [])"
proof -
  have "list_all (settable bench_flags) fl" using assms(1) by (simp add: fl_def bench_flags_def settable_def)
  from flag_Parse_args [OF this, of "[]"] show ?thesis
    by (simp add: flag_Parse.simps [of _ "[]"]) (simp add: fl_def bench_flags_def gm_set_def)
qed

text \<open>Every job that is taken is being handled or has its result.\<close>

lemma pool_run_takes:
  "pool_run n s es = Some t \<Longrightarrow> takes es + busy s + length (resultsChan s) = busy t + length (resultsChan t)"
proof (induction es arbitrary: s)
  case (Cons e es)
  then obtain u where u: "pool_step n s e = Some u" "pool_run n u es = Some t" by (auto split: option.splits)
  have "takes [e] + busy s + length (resultsChan s) = busy u + length (resultsChan u)"
    using u(1) by (cases e) (auto simp: takes_def split: if_splits)
  then show ?case using Cons.IH [OF u(2)] by (simp add: takes_def split: if_splits)
qed (simp add: takes_def)

definition meant :: "string list \<Rightarrow> string \<times> string \<Rightarrow> bool" where
  "meant urls req \<longleftrightarrow> fst req \<in> set urls \<and>
     (case decode_body (snd req) of
        None \<Rightarrow> False
      | Some r \<Rightarrow> Resource r = ''api_bench'' \<and> ReqLimit r = 10000000 \<and> ReqWindow r = ''60s'' \<and> ValueRequested r = 1)"

lemma bench_requests_meant:
  assumes "randomId \<Longrightarrow> 0 < keyRange" "\<And>rnd n. rnd \<in> set rnds \<Longrightarrow> 0 < n \<Longrightarrow> 0 \<le> rnd n \<and> rnd n < n"
  shows "\<exists>reqs. bench_requests (bench_urls targets) randomId keyRange rnds = Inr reqs \<and> length reqs = length rnds \<and>
    list_all (meant (bench_urls targets)) reqs"
  using assms(2)
proof (induction rnds)
  case (Cons rnd rnds)
  then have "\<And>n. 0 < n \<Longrightarrow> 0 \<le> rnd n \<and> rnd n < n" by simp
  from bench_request_is_read [OF assms(1) this, of randomId targets] obtain req where
    "bench_request (bench_urls targets) randomId keyRange rnd = Inr req" "meant (bench_urls targets) req"
    by (fastforce simp: meant_def)
  then show ?case using Cons by auto
qed simp

lemma report_adds_up:
  assumes "results \<noteq> []" "length results < 2 ^ 53"
    and "\<forall>r \<in> set results. 0 \<le> ResDuration r" "sum_list (map ResDuration results) < 2 ^ 63"
  obtains rep where "bench_report platform n elapsed results = Inr rep"
    "sum_list (map (fst \<circ> snd) (histogram rep)) = int (length results)"
    "sum_list (map snd (reportStatus rep)) + sum_list (map snd (reportErrs rep)) = int (length results)"
proof -
  let ?empty = "\<lparr>allDurations = [], totalReqDuration = 0, statusCounts = [], errCounts = []\<rparr>"
  note counts = tally_loop_facts(3) [OF _ _ refl, of ?empty results, simplified]
  show thesis
    by (rule report_fields [OF assms, where platform = platform and n = n and elapsed = elapsed], rule that, assumption)
      (simp_all add: counts)
qed

section \<open>Properties\<close>



end
