(* ===== verification/Http.thy ===== *)
theory Http
  imports Api
begin

text \<open>
  The handler that \<open>Server.Start\<close> of \<open>internal/api\<close> gives to \<open>net/http\<close>: the multiplexer with the two
  registered patterns, inside the logging middleware. A request has a method and the escaped path of
  its target (targets other than a path are not routed). The multiplexer is that of Go 1.24, the
  version in \<open>go.mod\<close>: paths that are not clean are redirected, patterns match whole unescaped
  segments, and a path that matches only with another method is answered with 405. \<open>moved\<close> gives the
  location and the page of a redirect.
\<close>

section \<open>Paths\<close>

definition hex_value :: "char \<Rightarrow> nat option" where
  "hex_value c =
     (let n = code c
      in if 48 \<le> n \<and> n \<le> 57 then Some (n - 48)
         else if 97 \<le> n \<and> n \<le> 102 then Some (n - 87)
         else if 65 \<le> n \<and> n \<le> 70 then Some (n - 55)
         else None)"

fun unescape_loop :: "string \<Rightarrow> string option" where
  "unescape_loop [] = Some []"
| "unescape_loop (c # s) =
     (if c = CHR 0x25 then
        (case s of
           a # b # t \<Rightarrow>
             (case (hex_value a, hex_value b) of
                (Some x, Some y) \<Rightarrow> map_option ((#) (char_of (16 * x + y))) (unescape_loop t)
              | _ \<Rightarrow> None)
         | _ \<Rightarrow> None)
      else map_option ((#) c) (unescape_loop s))"

definition pathUnescape :: "string \<Rightarrow> string" where
  "pathUnescape s = (case unescape_loop s of None \<Rightarrow> s | Some t \<Rightarrow> t)"

text \<open>\<open>path.Clean\<close> on a rooted path: empty and \<open>.\<close> segments go, \<open>..\<close> takes one back.\<close>

fun clean_segments :: "string list \<Rightarrow> string list \<Rightarrow> string list" where
  "clean_segments [] acc = rev acc"
| "clean_segments (s # ss) acc =
     (if s = [] \<or> s = ''.'' then clean_segments ss acc
      else if s = ''..'' then clean_segments ss (tl acc)
      else clean_segments ss (s # acc))"

definition rooted :: "string list \<Rightarrow> string" where
  "rooted ss = (if ss = [] then ''/'' else concat (map ((#) (CHR ''/'')) ss))"

definition path_Clean :: "string \<Rightarrow> string" where
  "path_Clean p = rooted (clean_segments (Split (CHR ''/'') p) [])"

definition cleanPath :: "string \<Rightarrow> string" where
  "cleanPath p =
     (if p = [] then ''/''
      else let p = (if hd p \<noteq> CHR ''/'' then CHR ''/'' # p else p);
               np = path_Clean p
           in if last p = CHR ''/'' \<and> np \<noteq> ''/'' then np @ ''/'' else np)"

section \<open>The multiplexer\<close>

definition firstSegment :: "string \<Rightarrow> string \<times> string" where
  "firstSegment p =
     (if p = ''/'' then (''/'', [])
      else (pathUnescape (takeWhile (\<lambda>c. c \<noteq> CHR ''/'') (tl p)), dropWhile (\<lambda>c. c \<noteq> CHR ''/'') (tl p)))"

fun matchPath :: "string list \<Rightarrow> string \<Rightarrow> bool" where
  "matchPath [] p = (p = [])"
| "matchPath (s # ss) p = (p \<noteq> [] \<and> (case firstSegment p of (seg, rest) \<Rightarrow> seg = s \<and> matchPath ss rest))"

definition pattern_matches :: "string \<Rightarrow> string \<Rightarrow> bool" where
  "pattern_matches pat p = matchPath (tl (Split (CHR ''/'') pat)) p"

definition method_matches :: "string \<Rightarrow> string \<Rightarrow> bool" where
  "method_matches registered meth \<longleftrightarrow> meth = registered \<or> meth = ''HEAD'' \<and> registered = ''GET''"

datatype dispatch = Handler route | Redirect string | NotAllowed "string list" | NotFound

definition resolve :: "string \<Rightarrow> string \<Rightarrow> dispatch" where
  "resolve meth p =
     (case find (\<lambda>((m, pat), r). method_matches m meth \<and> pattern_matches pat p) routes of
        Some (_, r) \<Rightarrow> Handler r
      | None \<Rightarrow>
          (let allowed = map (\<lambda>((m, pat), r). m) (filter (\<lambda>((m, pat), r). pattern_matches pat p) routes)
           in if allowed \<noteq> [] then NotAllowed allowed else NotFound))"

definition findHandler :: "string \<Rightarrow> string \<Rightarrow> dispatch" where
  "findHandler meth escapedPath =
     (if meth = ''CONNECT'' then resolve meth escapedPath
      else let p = cleanPath escapedPath
           in if p \<noteq> escapedPath then Redirect p else resolve meth p)"

fun strings_Join :: "string \<Rightarrow> string list \<Rightarrow> string" where
  "strings_Join sep [] = []"
| "strings_Join sep [s] = s"
| "strings_Join sep (s # ss) = s @ sep @ strings_Join sep ss"

definition serve_mux ::
    "(f64 \<Rightarrow> uint64) \<Rightarrow> (Time \<Rightarrow> int) \<Rightarrow> 'e Backend \<Rightarrow> (string \<Rightarrow> string \<Rightarrow> string \<times> string) \<Rightarrow> string \<Rightarrow> string \<Rightarrow>
     string \<Rightarrow> responseWriter \<Rightarrow> 'e \<Rightarrow> responseWriter \<times> 'e" where
  "serve_mux platform zone b moved meth escapedPath body w e =
     (case findHandler meth escapedPath of
        Handler r \<Rightarrow> handle_route platform zone b r body w e
      | Redirect p \<Rightarrow>
          (let (location, page) = moved meth p;
               w = rw_WriteHeader 301 (set_header ''Location'' location w)
           in (rw_Write page w, e))
      | NotAllowed ms \<Rightarrow> (http_Error ''Method Not Allowed'' 405 (set_header ''Allow'' (strings_Join '', '' ms) w), e)
      | NotFound \<Rightarrow> (http_Error ''404 page not found'' 404 w, e))"

text \<open>\<open>Server.Start\<close>: what the HTTP server runs for a request; the status logged and the state after it.\<close>

definition api_serve ::
    "(f64 \<Rightarrow> uint64) \<Rightarrow> (Time \<Rightarrow> int) \<Rightarrow> 'e Backend \<Rightarrow> (string \<Rightarrow> string \<Rightarrow> string \<times> string) \<Rightarrow> string \<Rightarrow> string \<Rightarrow>
     string \<Rightarrow> 'e \<Rightarrow> http_response \<times> int \<times> 'e" where
  "api_serve platform zone b moved meth escapedPath body e =
     LoggingMiddleware (serve_mux platform zone b moved meth escapedPath) body new_response e"

section \<open>Clean paths\<close>

definition plain_segment :: "string \<Rightarrow> bool" where
  "plain_segment s \<longleftrightarrow> s \<noteq> [] \<and> s \<noteq> ''.'' \<and> s \<noteq> ''..'' \<and> CHR ''/'' \<notin> set s"

lemma clean_segments_plain:
  "\<forall>s \<in> set ss. CHR ''/'' \<notin> set s \<Longrightarrow> \<forall>s \<in> set acc. plain_segment s \<Longrightarrow>
   \<forall>s \<in> set (clean_segments ss acc). plain_segment s"
proof (induction ss arbitrary: acc)
  case (Cons s ss)
  have ss: "\<forall>s \<in> set ss. CHR ''/'' \<notin> set s" using Cons.prems(1) by simp
  consider "s = [] \<or> s = ''.''" | "\<not> (s = [] \<or> s = ''.'')" "s = ''..''" | "\<not> (s = [] \<or> s = ''.'')" "s \<noteq> ''..''"
    by blast
  then show ?case
  proof cases
    case 1
    then show ?thesis using Cons.IH [OF ss Cons.prems(2)] by simp
  next
    case 2
    have "\<forall>s \<in> set (tl acc). plain_segment s" using Cons.prems(2) by (cases acc) simp_all
    from Cons.IH [OF ss this] show ?thesis using 2 by simp
  next
    case 3
    then have "\<forall>s \<in> set (s # acc). plain_segment s" using Cons.prems by (simp add: plain_segment_def)
    from Cons.IH [OF ss this] show ?thesis using 3 by simp
  qed
qed simp

lemma clean_segments_id: "\<forall>s \<in> set ss. plain_segment s \<Longrightarrow> clean_segments ss acc = rev acc @ ss"
  by (induction ss arbitrary: acc) (auto simp: plain_segment_def)

lemma Split_rooted:
  assumes "\<forall>s \<in> set ss. plain_segment s"
  shows "clean_segments (Split (CHR ''/'') (rooted ss)) [] = ss"
    "ss \<noteq> [] \<Longrightarrow> clean_segments (Split (CHR ''/'') (rooted ss @ ''/'')) [] = ss"
proof -
  have no: "\<forall>s \<in> set ss. CHR ''/'' \<notin> set s" using assms by (simp add: plain_segment_def)
  have id: "clean_segments (ss @ ts) [] = clean_segments ts (rev ss)" for ts
    using assms by (induction ss arbitrary: ts rule: rev_induct) (auto simp: plain_segment_def)
  show "clean_segments (Split (CHR ''/'') (rooted ss)) [] = ss"
    using Split_segments [OF no] clean_segments_id [OF assms, of "[]"] by (cases "ss = []") (simp_all add: rooted_def)
  assume "ss \<noteq> []"
  then have "rooted ss @ ''/'' = concat (map ((#) (CHR ''/'')) (ss @ [[]]))" by (simp add: rooted_def)
  moreover have "\<forall>s \<in> set (ss @ [[]]). CHR ''/'' \<notin> set s" using no by simp
  ultimately show "clean_segments (Split (CHR ''/'') (rooted ss @ ''/'')) [] = ss"
    using Split_segments [of "ss @ [[]]" "CHR ''/''"] id [of "[[]]"] by simp
qed

lemma rooted_ends:
  assumes "\<forall>s \<in> set ss. plain_segment s"
  shows "hd (rooted ss) = CHR ''/''" "rooted ss \<noteq> []" "rooted ss = ''/'' \<longleftrightarrow> ss = []"
    "ss \<noteq> [] \<Longrightarrow> last (rooted ss) \<noteq> CHR ''/''"
proof -
  show "hd (rooted ss) = CHR ''/''" "rooted ss \<noteq> []" by (cases ss; simp add: rooted_def)+
  show "rooted ss = ''/'' \<longleftrightarrow> ss = []" using assms by (cases ss) (auto simp: rooted_def plain_segment_def)
  assume "ss \<noteq> []"
  then obtain ts t where t: "ss = ts @ [t]" by (metis rev_exhaust)
  then have "t \<noteq> []" "CHR ''/'' \<notin> set t" using assms by (simp_all add: plain_segment_def)
  then show "last (rooted ss) \<noteq> CHR ''/''" by (simp add: t rooted_def) (metis last_in_set)
qed

text \<open>A cleaned path is clean: a redirect leads to a path that is not redirected again.\<close>

lemma cleanPath_idem: "cleanPath (cleanPath p) = cleanPath p"
proof -
  have form: "\<exists>ss. (\<forall>s \<in> set ss. plain_segment s) \<and> (cleanPath p = rooted ss \<or> ss \<noteq> [] \<and> cleanPath p = rooted ss @ ''/'')"
  proof (cases "p = []")
    case True
    then show ?thesis by (intro exI [of _ "[]"]) (simp add: cleanPath_def rooted_def)
  next
    case False
    let ?q = "if hd p \<noteq> CHR ''/'' then CHR ''/'' # p else p"
    let ?ss = "clean_segments (Split (CHR ''/'') ?q) []"
    have pl: "\<forall>s \<in> set ?ss. plain_segment s" by (rule clean_segments_plain [OF Split_no_sep]) simp
    have "cleanPath p = (if last ?q = CHR ''/'' \<and> rooted ?ss \<noteq> ''/'' then rooted ?ss @ ''/'' else rooted ?ss)"
      using False by (simp add: cleanPath_def path_Clean_def Let_def)
    with pl rooted_ends(3) [OF pl] show ?thesis by (intro exI [of _ ?ss]) (simp split: if_splits)
  qed
  then obtain ss where ss: "\<forall>s \<in> set ss. plain_segment s" "cleanPath p = rooted ss \<or> ss \<noteq> [] \<and> cleanPath p = rooted ss @ ''/''"
    by blast
  note facts = Split_rooted [OF ss(1)] rooted_ends [OF ss(1)]
  have "cleanPath (rooted ss) = rooted ss"
    using facts(1,3-6) by (cases "ss = []") (simp_all add: cleanPath_def path_Clean_def)
  moreover have "cleanPath (rooted ss @ ''/'') = rooted ss @ ''/''" if "ss \<noteq> []"
    using facts(2-6) that by (simp add: cleanPath_def path_Clean_def)
  ultimately show ?thesis using ss(2) by auto
qed

section \<open>Routing\<close>

lemma route_segments: "tl (Split (CHR ''/'') ''/check'') = [''check'']" "tl (Split (CHR ''/'') ''/status'') = [''status'']"
  by code_simp+

lemma pattern_matches_iff:
  "pattern_matches ''/check'' p \<longleftrightarrow> p \<noteq> [] \<and> firstSegment p = (''check'', [])"
  "pattern_matches ''/status'' p \<longleftrightarrow> p \<noteq> [] \<and> firstSegment p = (''status'', [])"
  by (auto simp: pattern_matches_def route_segments split: prod.splits)

lemma resolve_cases:
  "resolve meth p =
     (if p \<noteq> [] \<and> firstSegment p = (''check'', []) then (if meth = ''POST'' then Handler CheckRoute else NotAllowed [''POST''])
      else if p \<noteq> [] \<and> firstSegment p = (''status'', []) then (if meth = ''POST'' then Handler StatusRoute else NotAllowed [''POST''])
      else NotFound)"
  by (auto simp: resolve_def routes_def method_matches_def pattern_matches_iff)

text \<open>A response that has not been started, and one whose status is the one recorded.\<close>

definition unsent :: "responseWriter \<Rightarrow> bool" where
  "unsent w \<longleftrightarrow> \<not> wroteHeader w \<and> sentStatus (inner w) = None"

definition recorded :: "int \<Rightarrow> responseWriter \<Rightarrow> bool" where
  "recorded c w \<longleftrightarrow> wroteHeader w \<and> sentStatus (inner w) = Some c \<and> status w = c"

lemmas writer_defs = unsent_def recorded_def rw_Write_def rw_WriteHeader_def base_Write_def base_WriteHeader_def
  set_header_def wrapResponseWriter_def new_response_def http_Error_def Let_def

lemma unsent_facts [simp]:
  "unsent (wrapResponseWriter new_response)" "unsent w \<Longrightarrow> unsent (set_header k v w)"
  "unsent w \<Longrightarrow> recorded c (rw_WriteHeader c w)" "recorded c w \<Longrightarrow> recorded c (rw_Write s w)"
  "unsent w \<Longrightarrow> recorded c (http_Error msg c w)"
  by (simp_all add: writer_defs)

lemma handle_route_recorded:
  assumes "unsent w" "handle_route platform zone b r body w e = (w', e')"
  shows "\<exists>c. recorded c w'"
proof -
  have "\<exists>c. recorded c (fst (handle_route platform zone b r body w e))"
    using assms(1)
    by (cases r) (auto simp: handle_route_def handleCheck_def handleStatus_def decodeRequest_def Let_def
        split: option.splits prod.splits if_splits intro: unsent_facts)
  then show ?thesis using assms(2) by simp
qed

section \<open>Properties\<close>

text \<open>
  C27: which requests reach the limiter. One status line is sent and it is the status that is logged.
  Only a \<open>POST\<close> to a clean path whose only segment is \<open>check\<close> or \<open>status\<close> is given to a handler,
  with the response and the state that handler produces; the two registered paths are. Every other
  request leaves the state as it is: a path that is not clean is redirected, to a path that is not
  redirected again; one of the two paths with another method is answered with 405, anything else with 404.
\<close>

theorem api_routing:
  assumes "api_serve platform zone b moved meth path body e = (resp, logged, e')"
  shows "sentStatus resp = Some logged \<and>
    findHandler ''POST'' ''/check'' = Handler CheckRoute \<and> findHandler ''POST'' ''/status'' = Handler StatusRoute \<and>
    (case findHandler meth path of
       Handler r \<Rightarrow> meth = ''POST'' \<and> cleanPath path = path \<and>
         firstSegment path = (case r of CheckRoute \<Rightarrow> ''check'' | StatusRoute \<Rightarrow> ''status'', []) \<and>
         (resp, logged, e') = LoggingMiddleware (handle_route platform zone b r) body new_response e
     | Redirect p \<Rightarrow> logged = 301 \<and> e' = e \<and> p \<noteq> path \<and> cleanPath p = p
     | NotAllowed ms \<Rightarrow> logged = 405 \<and> e' = e \<and> ms = [''POST''] \<and> meth \<noteq> ''POST''
     | NotFound \<Rightarrow> logged = 404 \<and> e' = e)"
proof -
  obtain w where w: "serve_mux platform zone b moved meth path body (wrapResponseWriter new_response) e = (w, e')"
      "resp = inner w" "logged = status w"
    using assms by (auto simp: api_serve_def LoggingMiddleware_def Let_def split: prod.splits)
  have known: "findHandler ''POST'' ''/check'' = Handler CheckRoute" "findHandler ''POST'' ''/status'' = Handler StatusRoute"
    by code_simp+
  have sent: "sentStatus resp = Some logged \<and> logged = c" if "recorded c w" for c
    using that w(2,3) by (simp add: recorded_def)
  show ?thesis
  proof (cases "findHandler meth path")
    case (Handler r)
    then have "meth = ''POST'' \<and> cleanPath path = path \<and>
        firstSegment path = (case r of CheckRoute \<Rightarrow> ''check'' | StatusRoute \<Rightarrow> ''status'', [])"
      by (auto simp: findHandler_def resolve_cases Let_def split: if_splits)
    moreover have h: "handle_route platform zone b r body (wrapResponseWriter new_response) e = (w, e')"
      using Handler w(1) by (simp add: serve_mux_def)
    obtain c where "recorded c w" using handle_route_recorded [OF unsent_facts(1) h] ..
    moreover note sent [OF this]
    ultimately show ?thesis using known Handler w(2,3) h by (simp add: LoggingMiddleware_def)
  next
    case (Redirect p)
    then have "p \<noteq> path" "cleanPath p = p"
      by (auto simp: findHandler_def resolve_cases cleanPath_idem Let_def split: if_splits)
    moreover have "recorded 301 w" "e' = e" using w(1) Redirect by (auto simp: serve_mux_def Let_def split: prod.splits)
    ultimately show ?thesis using sent [of 301] known Redirect by simp
  next
    case (NotAllowed ms)
    then have "ms = [''POST''] \<and> meth \<noteq> ''POST''"
      by (auto simp: findHandler_def resolve_cases Let_def split: if_splits)
    moreover have "recorded 405 w" "e' = e" using w(1) NotAllowed by (auto simp: serve_mux_def)
    ultimately show ?thesis using sent [of 405] known NotAllowed by simp
  next
    case NotFound
    then have "recorded 404 w" "e' = e" using w(1) by (auto simp: serve_mux_def)
    then show ?thesis using sent [of 404] known NotFound by simp
  qed
qed

theorem api_routing_witness:
  "\<exists>resp logged e. api_serve (\<lambda>_. 0) (\<lambda>_. 0) env_backend (\<lambda>m p. (p, [])) ''GET'' ''/check'' [] (env1 []) = (resp, logged, e) \<and>
     sentStatus resp = Some 405 \<and> e = env1 []"
proof -
  obtain resp logged e where r: "api_serve (\<lambda>_. 0) (\<lambda>_. 0) env_backend (\<lambda>m p. (p, [])) ''GET'' ''/check'' [] (env1 []) =
      (resp, logged, e)" by (metis prod_cases3)
  moreover have "findHandler ''GET'' ''/check'' = NotAllowed [''POST'']" by code_simp
  ultimately show ?thesis using api_routing [OF r] by simp
qed

end
