(* ===== verification/Connection.thy ===== *)
theory Connection
  imports Protocol GoText "HOL-Library.Sublist"
begin

text \<open>
  \<open>internal/p2p/connection.go\<close> down to the bytes: \<open>Send\<close> through \<open>gob.Encoder\<close> and \<open>bufio.Writer\<close>,
  \<open>Receive\<close> through \<open>gob.Decoder\<close>. A gob stream is a sequence of frames, each a length and that many
  bytes; a frame defines a type or holds a value. What the frames hold is a parameter: \<open>content m\<close> are
  the bytes of a value, \<open>descs hist m\<close> the type definitions sent before it on an encoder that has
  encoded \<open>hist\<close>, and \<open>parse fs f\<close> what the decoder makes of a frame after the frames \<open>fs\<close>.
\<close>

type_synonym bytes = "byte list"

section \<open>Frames\<close>

text \<open>Gob's unsigned integers: one byte below 128, else the negated byte count and the big-endian bytes.\<close>

function be_bytes :: "nat \<Rightarrow> bytes" where
  "be_bytes n = (if n < 256 then [of_nat n] else be_bytes (n div 256) @ [of_nat n])"
  by auto
termination
  by (relation "measure id") auto

declare be_bytes.simps [simp del]

definition be_value :: "bytes \<Rightarrow> nat" where
  "be_value bs = foldl (\<lambda>v b. v * 256 + unat b) 0 bs"

definition gob_uint :: "nat \<Rightarrow> bytes" where
  "gob_uint n = (if n < 128 then [of_nat n] else (let bs = be_bytes n in of_nat (256 - length bs) # bs))"

text \<open>Reading from a stream that ends: a value and the rest, the end at a boundary, within, or bad data.\<close>

datatype 'a read = Got 'a bytes | AtEOF | CutOff | Malformed

fun read_uint :: "bytes \<Rightarrow> nat read" where
  "read_uint [] = AtEOF"
| "read_uint (b # bs) =
     (if unat b < 128 then Got (unat b) bs
      else let n = 256 - unat b
           in if n > 8 then Malformed
              else if length bs < n then CutOff
              else Got (be_value (take n bs)) (drop n bs))"

text \<open>The sanity bound of the package on 64-bit machines.\<close>

definition tooBig :: nat where
  "tooBig = 2 ^ 33"

definition gob_frame :: "bytes \<Rightarrow> bytes" where
  "gob_frame f = gob_uint (length f) @ f"

definition read_frame :: "bytes \<Rightarrow> bytes read" where
  "read_frame bs =
     (case read_uint bs of
        Got n rest \<Rightarrow> if n \<ge> tooBig then Malformed else if length rest < n then CutOff else Got (take n rest) (drop n rest)
      | AtEOF \<Rightarrow> AtEOF | CutOff \<Rightarrow> CutOff | Malformed \<Rightarrow> Malformed)"

section \<open>Sending\<close>

text \<open>
  \<open>written\<close> are the bytes TCP has accepted, \<open>wfaults\<close> the results of the coming writes: \<open>None\<close> for all
  bytes, or the number accepted and the error. A write that accepts everything has no error.
\<close>

record 'm Connection =
  writerBuf :: bytes
  writerErr :: "error option"
  encoded :: "'m list"
  written :: bytes
  wfaults :: "(nat \<times> error) option list"

definition NewConnection :: "(nat \<times> error) option list \<Rightarrow> 'm Connection" where
  "NewConnection fs = \<lparr>writerBuf = [], writerErr = None, encoded = [], written = [], wfaults = fs\<rparr>"

definition conn_Write :: "bytes \<Rightarrow> 'm Connection \<Rightarrow> nat \<times> error option \<times> 'm Connection" where
  "conn_Write p c =
     (case wfaults c of
        Some (k, err) # fs \<Rightarrow>
          (let n = min k (length p - 1) in (n, Some err, c\<lparr>wfaults := fs, written := written c @ take n p\<rparr>))
      | fs \<Rightarrow> (length p, None, c\<lparr>wfaults := tl fs, written := written c @ p\<rparr>))"

definition bufSize :: nat where
  "bufSize = 4096"

definition bufio_Flush :: "'m Connection \<Rightarrow> 'm Connection" where
  "bufio_Flush c =
     (if writerErr c \<noteq> None \<or> writerBuf c = [] then c
      else case conn_Write (writerBuf c) c of
             (n, err, c) \<Rightarrow> c\<lparr>writerBuf := drop n (writerBuf c), writerErr := err\<rparr>)"

text \<open>\<open>bufio.Writer.Write\<close>: its loop runs at most twice, once to fill the buffer and once past it.\<close>

definition write_through :: "bytes \<Rightarrow> 'm Connection \<Rightarrow> 'm Connection" where
  "write_through p c =
     (if writerErr c \<noteq> None then c
      else if length p \<le> bufSize then c\<lparr>writerBuf := p\<rparr>
      else case conn_Write p c of (n, err, c) \<Rightarrow> c\<lparr>writerErr := err\<rparr>)"

definition bufio_Write :: "bytes \<Rightarrow> 'm Connection \<Rightarrow> 'm Connection" where
  "bufio_Write p c =
     (let available = bufSize - length (writerBuf c)
      in if writerErr c \<noteq> None then c
         else if length p \<le> available then c\<lparr>writerBuf := writerBuf c @ p\<rparr>
         else if writerBuf c = [] then write_through p c
         else write_through (drop available p) (bufio_Flush (c\<lparr>writerBuf := writerBuf c @ take available p\<rparr>)))"

fun encode_frames :: "bytes list \<Rightarrow> 'm Connection \<Rightarrow> error option \<times> 'm Connection" where
  "encode_frames [] c = (None, c)"
| "encode_frames (f # fs) c =
     (if length f \<ge> tooBig then (Some ''gob: encoder: message too big'', c)
      else let c = bufio_Write (gob_frame f) c
           in case writerErr c of Some err \<Rightarrow> (Some err, c) | None \<Rightarrow> encode_frames fs c)"

definition Conn_Send ::
    "('m list \<Rightarrow> 'm \<Rightarrow> bytes list) \<Rightarrow> ('m \<Rightarrow> bytes) \<Rightarrow> 'm \<Rightarrow> 'm Connection \<Rightarrow> error option \<times> 'm Connection" where
  "Conn_Send descs content message c =
     (case encode_frames (descs (encoded c) message @ [content message]) (c\<lparr>encoded := encoded c @ [message]\<rparr>) of
        (Some err, c) \<Rightarrow> (Some err, c)
      | (None, c) \<Rightarrow> (let c = bufio_Flush c in (writerErr c, c)))"

text \<open>Sends on one connection, until one fails: the client then closes it.\<close>

fun send_loop ::
    "('m list \<Rightarrow> 'm \<Rightarrow> bytes list) \<Rightarrow> ('m \<Rightarrow> bytes) \<Rightarrow> 'm list \<Rightarrow> 'm Connection \<Rightarrow> 'm list \<times> 'm Connection" where
  "send_loop descs content [] c = ([], c)"
| "send_loop descs content (m # ms) c =
     (case Conn_Send descs content m c of
        (Some err, c) \<Rightarrow> ([], c)
      | (None, c) \<Rightarrow> (case send_loop descs content ms c of (sent, c) \<Rightarrow> (m # sent, c)))"

lemma NewConnection_simps [simp]:
  "written (NewConnection fs) = []" "writerBuf (NewConnection fs) = []" "writerErr (NewConnection fs) = None"
  "encoded (NewConnection fs) = []"
  by (simp_all add: NewConnection_def)

section \<open>Receiving\<close>

datatype 'm item = TypeDef | Value 'm | Garbage

lemma read_uint_shorter: "read_uint bs = Got n rest \<Longrightarrow> length rest < length bs"
  by (cases bs) (auto simp: Let_def split: if_splits)

lemma read_frame_shorter: "read_frame bs = Got f rest \<Longrightarrow> length rest < length bs"
  using read_uint_shorter [of bs] by (fastforce simp: read_frame_def split: read.splits if_splits)

text \<open>
  \<open>Receive\<close>, that is \<open>Decode\<close>: type definitions are taken in until a value comes; the end of the
  stream is \<open>io.EOF\<close> only before the first frame.
\<close>

function Conn_Receive ::
    "(bytes list \<Rightarrow> bytes \<Rightarrow> 'm item) \<Rightarrow> bool \<Rightarrow> bytes list \<Rightarrow> bytes \<Rightarrow> ('m \<times> bytes list) read" where
  "Conn_Receive parse firstMessage fs bs =
     (case read_frame bs of
        Got f rest \<Rightarrow>
          (case parse fs f of
             TypeDef \<Rightarrow> Conn_Receive parse False (fs @ [f]) rest
           | Value m \<Rightarrow> Got (m, fs @ [f]) rest
           | Garbage \<Rightarrow> Malformed)
      | AtEOF \<Rightarrow> if firstMessage then AtEOF else CutOff
      | CutOff \<Rightarrow> CutOff
      | Malformed \<Rightarrow> Malformed)"
  by auto
termination
  by (relation "measure (\<lambda>(_, _, _, bs). length bs)") (auto dest: read_frame_shorter)

declare Conn_Receive.simps [simp del]

lemma Conn_Receive_shorter: "Conn_Receive parse b fs bs = Got x rest \<Longrightarrow> length rest < length bs"
  by (induction parse b fs bs rule: Conn_Receive.induct)
    (subst (asm) (2) Conn_Receive.simps, fastforce dest: read_frame_shorter split: read.splits item.splits if_splits)

text \<open>The messages a handler receives on a connection, and how its loop ends.\<close>

function receive_loop ::
    "(bytes list \<Rightarrow> bytes \<Rightarrow> 'm item) \<Rightarrow> bytes list \<Rightarrow> bytes \<Rightarrow> 'm list \<times> unit read" where
  "receive_loop parse fs bs =
     (case Conn_Receive parse True fs bs of
        Got x rest \<Rightarrow> (case receive_loop parse (snd x) rest of (ms, e) \<Rightarrow> (fst x # ms, e))
      | AtEOF \<Rightarrow> ([], AtEOF) | CutOff \<Rightarrow> ([], CutOff) | Malformed \<Rightarrow> ([], Malformed))"
  by auto
termination
  by (relation "measure (\<lambda>(_, _, bs). length bs)") (auto dest: Conn_Receive_shorter)

declare receive_loop.simps [simp del]

section \<open>Frames are read back\<close>

lemma be_value_append: "be_value (bs @ [b]) = be_value bs * 256 + unat b"
  by (simp add: be_value_def)

lemma unat_of_nat_byte: "unat (of_nat n :: byte) = n mod 256"
  by (simp add: unat_of_nat)

lemma be_value_be_bytes: "be_value (be_bytes n) = n"
proof (induction n rule: be_bytes.induct)
  case (1 n)
  then show ?case
    by (cases "n < 256") (simp_all add: be_bytes.simps [of n] be_value_append unat_of_nat_byte be_value_def)
qed

lemma be_bytes_length: "n < 256 ^ k \<Longrightarrow> 0 < k \<Longrightarrow> length (be_bytes n) \<le> k"
proof (induction k arbitrary: n)
  case (Suc k)
  show ?case
  proof (cases "n < 256")
    case False
    then have "0 < k" using Suc.prems(1) by (cases k) simp_all
    moreover have "n div 256 < 256 ^ k" using Suc.prems(1) by (simp add: less_mult_imp_div_less mult.commute)
    ultimately show ?thesis using Suc.IH [of "n div 256"] False by (simp add: be_bytes.simps [of n])
  qed (simp add: be_bytes.simps)
qed simp

lemma be_bytes_small: "n < tooBig \<Longrightarrow> length (be_bytes n) \<le> 5"
  by (rule be_bytes_length) (simp_all add: tooBig_def)

lemma be_bytes_nonempty: "0 < length (be_bytes n)"
  by (simp add: be_bytes.simps [of n])

lemma gob_uint_cases:
  assumes "n < tooBig"
  obtains (small) "n < 128" "gob_uint n = [of_nat n]" "unat (of_nat n :: byte) = n"
  | (large) b bs where "gob_uint n = b # bs" "\<not> unat b < 128" "256 - unat b = length bs" "length bs \<le> 8" "be_value bs = n"
proof (cases "n < 128")
  case True
  then show thesis using small by (simp add: gob_uint_def unat_of_nat_byte)
next
  case False
  note b = be_bytes_small [OF assms] be_bytes_nonempty [of n]
  then have "unat (of_nat (256 - length (be_bytes n)) :: byte) = 256 - length (be_bytes n)"
    unfolding unat_of_nat_byte by (intro mod_less) simp
  then show thesis
    using False b by (intro large [of "of_nat (256 - length (be_bytes n))" "be_bytes n"])
      (simp_all add: gob_uint_def be_value_be_bytes Let_def del: of_nat_diff)
qed

lemma read_frame_gob: "length f < tooBig \<Longrightarrow> read_frame (gob_frame f @ rest) = Got f rest"
  by (rule gob_uint_cases [of "length f"]) (auto simp: read_frame_def gob_frame_def)

lemma read_frame_cut:
  assumes "length f < tooBig" "strict_prefix bs (gob_frame f)"
  shows "read_frame bs = (if bs = [] then AtEOF else CutOff)"
proof (cases bs)
  case Nil
  then show ?thesis by (simp add: read_frame_def)
next
  case (Cons b q)
  from assms(1) show ?thesis
  proof (cases rule: gob_uint_cases)
    case small
    then have "b = of_nat (length f)" "length q < length f"
      using assms(2) Cons prefix_length_less [OF assms(2)] by (auto simp: gob_frame_def strict_prefix_def)
    then show ?thesis using small Cons assms(1) by (simp add: read_frame_def)
  next
    case (large b' us)
    then have b: "b' = b" and q: "prefix q (us @ f)" "length q < length us + length f"
      using assms(2) Cons prefix_length_less [OF assms(2)] by (auto simp: gob_frame_def strict_prefix_def)
    show ?thesis
    proof (cases "length q < length us")
      case False
      then obtain r where "q = us @ r" using q(1) by (auto simp: prefix_append) (auto simp: prefix_def)
      then show ?thesis using large Cons b q(2) assms(1) by (simp add: read_frame_def)
    qed (use large Cons b in \<open>simp add: read_frame_def\<close>)
  qed
qed

section \<open>What a stream holds\<close>

fun frames_of :: "('m list \<Rightarrow> 'm \<Rightarrow> bytes list) \<Rightarrow> ('m \<Rightarrow> bytes) \<Rightarrow> 'm list \<Rightarrow> 'm list \<Rightarrow> bytes list" where
  "frames_of descs content hist [] = []"
| "frames_of descs content hist (m # ms) = descs hist m @ [content m] @ frames_of descs content (hist @ [m]) ms"

definition on_wire :: "bytes list \<Rightarrow> bytes" where
  "on_wire fs = concat (map gob_frame fs)"

lemma on_wire_simps [simp]:
  "on_wire [] = []" "on_wire (f # fs) = gob_frame f @ on_wire fs" "on_wire (fs @ gs) = on_wire fs @ on_wire gs"
  by (simp_all add: on_wire_def)

lemma gob_frame_nonempty [simp]: "gob_frame f \<noteq> []"
  by (simp add: gob_frame_def gob_uint_def Let_def)

lemma frames_of_append:
  "frames_of descs content hist (ms @ ns) = frames_of descs content hist ms @ frames_of descs content (hist @ ms) ns"
  by (induction ms arbitrary: hist) simp_all

text \<open>
  What the package promises: a decoder that has read what the encoder wrote before takes the type
  definitions for what they are and decodes a value to what gob keeps of it; frames are below the bound.
\<close>

definition gob_ok ::
    "('m list \<Rightarrow> 'm \<Rightarrow> bytes list) \<Rightarrow> ('m \<Rightarrow> bytes) \<Rightarrow> (bytes list \<Rightarrow> bytes \<Rightarrow> 'm item) \<Rightarrow> ('m \<Rightarrow> 'm) \<Rightarrow> bool" where
  "gob_ok descs content parse wire \<longleftrightarrow>
     (\<forall>hist m. (\<forall>i < length (descs hist m).
          parse (frames_of descs content [] hist @ take i (descs hist m)) (descs hist m ! i) = TypeDef) \<and>
        parse (frames_of descs content [] hist @ descs hist m) (content m) = Value (wire m) \<and>
        (\<forall>f \<in> set (descs hist m @ [content m]). length f < tooBig))"

lemma Conn_Receive_whole:
  assumes "\<forall>i < length ds. parse (fs @ take i ds) (ds ! i) = TypeDef" "parse (fs @ ds) v = Value w"
    and "\<forall>f \<in> set (ds @ [v]). length f < tooBig"
  shows "Conn_Receive parse b fs (on_wire (ds @ [v]) @ rest) = Got (w, fs @ ds @ [v]) rest"
  using assms
proof (induction ds arbitrary: fs b)
  case Nil
  then show ?case by (simp add: Conn_Receive.simps read_frame_gob)
next
  case (Cons d ds)
  have "parse fs d = TypeDef" using Cons.prems(1) by force
  moreover have "\<forall>i < length ds. parse ((fs @ [d]) @ take i ds) (ds ! i) = TypeDef" using Cons.prems(1) by force
  ultimately show ?case
    using Cons.IH [of "fs @ [d]" False] Cons.prems(2,3)
    by (subst Conn_Receive.simps) (simp add: read_frame_gob)
qed

lemma strict_prefix_append_cases:
  assumes "strict_prefix xs (ys @ zs)"
  obtains "strict_prefix xs ys" | ws where "xs = ys @ ws" "strict_prefix ws zs"
  using assms by (cases "strict_prefix xs ys") (fastforce simp: strict_prefix_def prefix_append)+

lemma Conn_Receive_cut:
  assumes "\<forall>i < length ds. parse (fs @ take i ds) (ds ! i) = TypeDef"
    and "\<forall>f \<in> set (ds @ [v]). length f < tooBig" "strict_prefix bs (on_wire (ds @ [v]))"
  shows "Conn_Receive parse b fs bs = (if bs = [] \<and> b then AtEOF else CutOff)"
  using assms
proof (induction ds arbitrary: fs b bs)
  case Nil
  then show ?case using read_frame_cut [of v bs] by (subst Conn_Receive.simps) auto
next
  case (Cons d ds)
  have d: "parse fs d = TypeDef" using Cons.prems(1) by force
  have tl: "\<forall>i < length ds. parse ((fs @ [d]) @ take i ds) (ds ! i) = TypeDef" using Cons.prems(1) by force
  from Cons.prems(3) have "strict_prefix bs (gob_frame d @ on_wire (ds @ [v]))" by simp
  then show ?case
  proof (cases rule: strict_prefix_append_cases)
    case 1
    then show ?thesis using read_frame_cut [of d bs] Cons.prems(2) by (subst Conn_Receive.simps) auto
  next
    case (2 ws)
    then show ?thesis
      using Cons.IH [OF tl _ 2(2), of False] Cons.prems(2) d by (subst Conn_Receive.simps) (simp add: read_frame_gob)
  qed
qed

text \<open>A receiver of a prefix of the stream gets the messages that are complete in it, and no others.\<close>

lemma gob_okD:
  assumes "gob_ok descs content parse wire"
  shows "\<forall>i < length (descs hist m).
      parse (frames_of descs content [] hist @ take i (descs hist m)) (descs hist m ! i) = TypeDef"
    "parse (frames_of descs content [] hist @ descs hist m) (content m) = Value (wire m)"
    "\<forall>f \<in> set (descs hist m @ [content m]). length f < tooBig"
  using assms unfolding gob_ok_def by blast+

lemma receive_loop_whole:
  assumes "gob_ok descs content parse wire"
    and "receive_loop parse (frames_of descs content [] (hist @ [m])) r = (ms, e)"
  shows "receive_loop parse (frames_of descs content [] hist) (on_wire (descs hist m @ [content m]) @ r) = (wire m # ms, e)"
  using assms(2)
  by (subst receive_loop.simps) (simp add: Conn_Receive_whole [OF gob_okD [OF assms(1)]] frames_of_append del: on_wire_simps)

lemma receive_loop_cut:
  assumes "gob_ok descs content parse wire" "strict_prefix bs (on_wire (descs hist m @ [content m]))"
  shows "receive_loop parse (frames_of descs content [] hist) bs = ([], if bs = [] then AtEOF else CutOff)"
  by (subst receive_loop.simps) (simp add: Conn_Receive_cut [OF gob_okD(1,3) [OF assms(1)] assms(2)])

lemma receive_loop_prefix:
  assumes gob: "gob_ok descs content parse wire"
    and "prefix bs (on_wire (frames_of descs content hist ms))"
  shows "\<exists>k e. k \<le> length ms \<and> receive_loop parse (frames_of descs content [] hist) bs = (map wire (take k ms), e) \<and>
    e \<noteq> Malformed \<and> prefix (on_wire (frames_of descs content hist (take k ms))) bs \<and>
    (\<forall>j \<le> length ms. prefix (on_wire (frames_of descs content hist (take j ms))) bs \<longrightarrow> j \<le> k)"
  using assms(2)
proof (induction ms arbitrary: hist bs)
  case Nil
  then show ?case by (auto simp: receive_loop.simps Conn_Receive.simps read_frame_def)
next
  case (Cons m ms)
  let ?w = "on_wire (descs hist m @ [content m])" and ?rest = "on_wire (frames_of descs content (hist @ [m]) ms)"
  have stream: "on_wire (frames_of descs content hist (m # ns)) = ?w @ on_wire (frames_of descs content (hist @ [m]) ns)" for ns
    by simp
  show ?case
  proof (cases "prefix ?w bs")
    case False
    then have "strict_prefix bs ?w" using Cons.prems unfolding stream by (auto simp: prefix_append strict_prefix_def)
    note receive_loop_cut [OF gob this]
    moreover have "j = 0" if "prefix (on_wire (frames_of descs content hist (take j (m # ms)))) bs" for j
    proof (cases j)
      case (Suc i)
      then show ?thesis using that False unfolding Suc take_Suc_Cons stream by (metis append_prefixD)
    qed simp
    ultimately show ?thesis by (intro exI [of _ 0] exI [of _ "if bs = [] then AtEOF else CutOff"]) auto
  next
    case True
    then obtain r where r: "bs = ?w @ r" by (auto simp: prefix_def)
    then have "prefix r ?rest" using Cons.prems unfolding stream by simp
    from Cons.IH [OF this] obtain k e where k: "k \<le> length ms"
        "receive_loop parse (frames_of descs content [] (hist @ [m])) r = (map wire (take k ms), e)" "e \<noteq> Malformed"
        "prefix (on_wire (frames_of descs content (hist @ [m]) (take k ms))) r"
        "\<forall>j \<le> length ms. prefix (on_wire (frames_of descs content (hist @ [m]) (take j ms))) r \<longrightarrow> j \<le> k"
      by blast
    note receive_loop_whole [OF gob k(2)]
    moreover have "j \<le> Suc k" if "j \<le> length (m # ms)" "prefix (on_wire (frames_of descs content hist (take j (m # ms)))) bs" for j
      using that k(5) unfolding r by (cases j) auto
    ultimately show ?thesis using k(1,3,4) unfolding r
      by (intro exI [of _ "Suc k"] exI [of _ e]) (auto simp: prefix_def)
  qed
qed

section \<open>What is written\<close>

text \<open>
  The bytes given to the connection so far are \<open>written c @ writerBuf c\<close>. After an error what was
  written lacks at least one byte of them, and nothing is taken back.
\<close>

definition accepted :: "'m Connection \<Rightarrow> bytes \<Rightarrow> 'm Connection \<Rightarrow> bool" where
  "accepted c p c' \<longleftrightarrow> encoded c' = encoded c \<and> prefix (written c) (written c') \<and>
     (if writerErr c' = None then written c' @ writerBuf c' = written c @ writerBuf c @ p
      else strict_prefix (written c') (written c @ writerBuf c @ p))"

lemma accepted_trans:
  assumes "accepted c p c'" "writerErr c' = None" "accepted c' q c''"
  shows "accepted c (p @ q) c''"
proof -
  have "written c' @ writerBuf c' = written c @ writerBuf c @ p" using assms(1,2) by (simp add: accepted_def)
  then have eq: "written c @ writerBuf c @ p @ q = written c' @ writerBuf c' @ q" by (metis append_assoc)
  have "prefix (written c) (written c'')" "encoded c'' = encoded c"
    using assms(1,3) by (auto simp: accepted_def intro: prefix_order.trans)
  then show ?thesis using assms(3) unfolding accepted_def append_assoc eq by simp
qed

lemma accepted_more: "accepted c p c' \<Longrightarrow> writerErr c' \<noteq> None \<Longrightarrow> accepted c (p @ q) c'"
  using prefix_order.less_le_trans [of "written c'" "written c @ writerBuf c @ p" "written c @ writerBuf c @ p @ q"]
  by (auto simp: accepted_def)

lemma conn_Write_cases:
  assumes "conn_Write p c = (n, err, c')" "p \<noteq> []"
  shows "encoded c' = encoded c \<and> writerBuf c' = writerBuf c \<and> writerErr c' = writerErr c \<and>
    written c' = written c @ take n p \<and> (if err = None then n = length p else n < length p)"
proof -
  have "length p - 1 < length p" using assms(2) by simp
  then have "min k (length p - 1) < length p" for k by simp
  with assms(1) show ?thesis by (auto simp: conn_Write_def Let_def split: list.splits option.splits)
qed

lemma strict_take: "n < length p \<Longrightarrow> strict_prefix (xs @ take n p) (xs @ p)"
  by (auto simp: strict_prefix_def take_is_prefix)

lemma bufio_Flush_accepted:
  assumes "writerErr c = None"
  shows "accepted c [] (bufio_Flush c)" "writerErr (bufio_Flush c) = None \<Longrightarrow> writerBuf (bufio_Flush c) = []"
proof -
  obtain n err d where w: "conn_Write (writerBuf c) c = (n, err, d)" using prod_cases3 by blast
  note facts = conn_Write_cases [OF w]
  show "accepted c [] (bufio_Flush c)"
    using assms w facts strict_take [of n "writerBuf c" "written c"]
    by (cases "writerBuf c = []") (auto simp: bufio_Flush_def accepted_def split: if_splits)
  show "writerErr (bufio_Flush c) = None \<Longrightarrow> writerBuf (bufio_Flush c) = []"
    using assms w facts by (cases "writerBuf c = []") (auto simp: bufio_Flush_def)
qed

lemma write_through_accepted:
  assumes "writerErr c = None" "writerBuf c = []"
  shows "accepted c p (write_through p c)"
proof (cases "length p \<le> bufSize")
  case True
  then show ?thesis using assms by (simp add: write_through_def accepted_def)
next
  case False
  obtain n err d where w: "conn_Write p c = (n, err, d)" using prod_cases3 by blast
  have "p \<noteq> []" using False by auto
  from conn_Write_cases [OF w this] show ?thesis
    using assms w False strict_take [of n p "written c"] by (auto simp: write_through_def accepted_def split: if_splits)
qed

lemma bufio_Write_accepted:
  assumes "writerErr c = None"
  shows "accepted c p (bufio_Write p c)"
proof -
  let ?a = "bufSize - length (writerBuf c)"
  let ?d = "c\<lparr>writerBuf := writerBuf c @ take ?a p\<rparr>"
  have fill: "accepted c (take ?a p) ?d" "writerErr ?d = None" using assms by (simp_all add: accepted_def)
  note flush = bufio_Flush_accepted [OF fill(2)]
  have first: "accepted c (take ?a p) (bufio_Flush ?d)" using accepted_trans [OF fill flush(1)] by simp
  have "accepted c p (write_through (drop ?a p) (bufio_Flush ?d))"
  proof (cases "writerErr (bufio_Flush ?d) = None")
    case True
    from accepted_trans [OF first True write_through_accepted [OF True flush(2) [OF True]], of "drop ?a p"]
    show ?thesis by simp
  next
    case False
    then show ?thesis using accepted_more [OF first False, of "drop ?a p"] by (simp add: write_through_def)
  qed
  moreover have "accepted c p (c\<lparr>writerBuf := writerBuf c @ p\<rparr>)" using assms by (simp add: accepted_def)
  ultimately show ?thesis using assms write_through_accepted [of c p] by (auto simp: bufio_Write_def Let_def)
qed

lemma encode_frames_accepted:
  assumes "writerErr c = None" "\<forall>f \<in> set fs. length f < tooBig" "encode_frames fs c = (err, c')"
  shows "accepted c (on_wire fs) c' \<and> writerErr c' = err"
  using assms
proof (induction fs arbitrary: c)
  case Nil
  then show ?case by (simp add: accepted_def)
next
  case (Cons f fs)
  note w = bufio_Write_accepted [OF Cons.prems(1), of "gob_frame f"]
  show ?case
  proof (cases "writerErr (bufio_Write (gob_frame f) c)")
    case None
    then show ?thesis using Cons.IH [OF None] Cons.prems accepted_trans [OF w None] by (auto simp: Let_def)
  next
    case (Some e)
    then have "writerErr (bufio_Write (gob_frame f) c) \<noteq> None" by simp
    from accepted_more [OF w this, of "on_wire fs"] show ?thesis using Cons.prems Some by (simp add: Let_def)
  qed
qed

lemma Conn_Send_accepted:
  assumes "writerErr c = None" "writerBuf c = []" "\<forall>f \<in> set (descs (encoded c) m @ [content m]). length f < tooBig"
    and "Conn_Send descs content m c = (err, c')"
  shows "accepted (c\<lparr>encoded := encoded c @ [m]\<rparr>) (on_wire (descs (encoded c) m @ [content m])) c'"
    "writerErr c' = err" "err = None \<Longrightarrow> writerBuf c' = []"
proof -
  let ?d = "c\<lparr>encoded := encoded c @ [m]\<rparr>" and ?fs = "descs (encoded c) m @ [content m]"
  obtain e d where e: "encode_frames ?fs ?d = (e, d)" by force
  have d: "accepted ?d (on_wire ?fs) d" "writerErr d = e"
    using encode_frames_accepted [OF _ assms(3) e] assms(1) by simp_all
  have "accepted ?d (on_wire ?fs) c' \<and> writerErr c' = err \<and> (err = None \<longrightarrow> writerBuf c' = [])"
  proof (cases e)
    case None
    note f = bufio_Flush_accepted [of d]
    show ?thesis using accepted_trans [OF d(1), of "[]" "bufio_Flush d"] f d(2) None assms(4) e
      by (auto simp: Conn_Send_def Let_def)
  next
    case (Some x)
    then show ?thesis using assms(4) e d by (auto simp: Conn_Send_def)
  qed
  then show "accepted ?d (on_wire ?fs) c'" "writerErr c' = err" "err = None \<Longrightarrow> writerBuf c' = []" by simp_all
qed

lemma send_loop_written:
  assumes "gob_ok descs content parse wire" "writerErr c = None" "writerBuf c = []"
    and "send_loop descs content ms c = (sent, c')"
  shows "prefix sent ms \<and> prefix (written c @ on_wire (frames_of descs content (encoded c) sent)) (written c') \<and>
    (if sent = ms then written c' = written c @ on_wire (frames_of descs content (encoded c) ms)
     else strict_prefix (written c') (written c @ on_wire (frames_of descs content (encoded c) (take (Suc (length sent)) ms))))"
  using assms(2-4)
proof (induction ms arbitrary: c sent)
  case Nil
  then show ?case by simp
next
  case (Cons m ms)
  let ?fs = "descs (encoded c) m @ [content m]"
  have small: "\<forall>f \<in> set ?fs. length f < tooBig" using assms(1) unfolding gob_ok_def by blast
  obtain err d where s: "Conn_Send descs content m c = (err, d)" by force
  note acc = Conn_Send_accepted [OF Cons.prems(1,2) small s]
  show ?case
  proof (cases err)
    case (Some e)
    then have "sent = []" "c' = d" using Cons.prems(3) s by simp_all
    then show ?thesis using acc Some Cons.prems(2) by (simp add: accepted_def)
  next
    case None
    then obtain ns where ns: "send_loop descs content ms d = (ns, c')" "sent = m # ns"
      using Cons.prems(3) s by (auto split: prod.splits)
    have d: "writerErr d = None" "writerBuf d = []" "encoded d = encoded c @ [m]" "written d = written c @ on_wire ?fs"
      using acc None Cons.prems(2) by (simp_all add: accepted_def)
    from Cons.IH [OF d(1,2) ns(1)] show ?thesis unfolding d(3,4) ns(2) by (auto split: if_splits)
  qed
qed

section \<open>Properties\<close>

text \<open>
  C10: a connection delivers what was sent, in order, and nothing else. Whatever writes fail and after
  whatever byte the connection breaks, the receiver gets a prefix of the messages whose \<open>Send\<close>
  returned no error, each as gob keeps it; a message whose \<open>Send\<close> failed never arrives, not even when
  part of it was written; and if all bytes written arrive, so do all these messages. The stream is
  never misread.
\<close>

theorem connection_delivers_sent:
  assumes "gob_ok descs content parse wire"
    and "send_loop descs content ms (NewConnection fs) = (sent, c)" "prefix bs (written c)"
  shows "\<exists>k e. receive_loop parse [] bs = (map wire (take k sent), e) \<and> e \<noteq> Malformed \<and> prefix sent ms \<and>
    (bs = written c \<longrightarrow> length sent \<le> k)"
proof -
  define n where "n = (if sent = ms then ms else take (Suc (length sent)) ms)"
  let ?w = "\<lambda>ns. on_wire (frames_of descs content [] ns)"
  have "prefix sent ms \<and> prefix (?w sent) (written c) \<and>
      (if sent = ms then written c = ?w ms else strict_prefix (written c) (?w (take (Suc (length sent)) ms)))"
    using send_loop_written [OF assms(1) _ _ assms(2)] by (auto split: if_splits)
  then have s: "prefix sent ms" "prefix (?w sent) (written c)" "prefix (written c) (?w n)" "sent \<noteq> ms \<Longrightarrow> written c \<noteq> ?w n"
    by (auto simp: n_def strict_prefix_def split: if_splits)
  have pre: "take (length sent) n = sent" using s(1) by (auto simp: n_def prefix_def)
  have le: "length sent \<le> length n" "length n \<le> Suc (length sent)" using s(1) by (auto simp: n_def dest: prefix_length_le)
  obtain k e where k: "k \<le> length n" "receive_loop parse [] bs = (map wire (take k n), e)" "e \<noteq> Malformed"
      "prefix (?w (take k n)) bs" "\<forall>j \<le> length n. prefix (?w (take j n)) bs \<longrightarrow> j \<le> k"
    using receive_loop_prefix [OF assms(1) prefix_order.trans [OF assms(3) s(3)]] by auto
  have "k \<le> length sent"
  proof (rule ccontr)
    assume "\<not> k \<le> length sent"
    then have "take k n = n" "sent \<noteq> ms" using le k(1) by (auto simp: n_def)
    then have "prefix (?w n) (written c)" using k(4) assms(3) prefix_order.trans by metis
    then show False using s(3,4) \<open>sent \<noteq> ms\<close> prefix_order.antisym by blast
  qed
  then have "take k (take (length sent) n) = take k n" by (simp add: min_def)
  then have "take k n = take k sent" unfolding pre ..
  moreover have "length sent \<le> k" if "bs = written c"
    using k(5) [rule_format, OF le(1)] s(2) that unfolding pre by simp
  ultimately show ?thesis using k(2,3) s(1) by (intro exI [of _ k] exI [of _ e]) simp
qed

text \<open>A codec for single bytes: one type definition, before the first value.\<close>

definition byte_descs :: "byte list \<Rightarrow> byte \<Rightarrow> bytes list" where
  "byte_descs hist m = (if hist = [] then [[255]] else [])"

definition byte_content :: "byte \<Rightarrow> bytes" where
  "byte_content m = [6, m]"

definition byte_parse :: "bytes list \<Rightarrow> bytes \<Rightarrow> byte item" where
  "byte_parse fs f = (case f of [t] \<Rightarrow> TypeDef | [t, m] \<Rightarrow> Value m | _ \<Rightarrow> Garbage)"

lemma byte_codec_ok: "gob_ok byte_descs byte_content byte_parse id"
  by (simp add: gob_ok_def byte_descs_def byte_content_def byte_parse_def tooBig_def)

theorem connection_delivers_sent_witness:
  "fst (receive_loop byte_parse []
     (written (snd (send_loop byte_descs byte_content [5, 7] (NewConnection [None, Some (2, ''broken pipe'')]))))) = [5]"
proof -
  let ?c = "NewConnection [None, Some (2, ''broken pipe'')]"
  have "fst (send_loop byte_descs byte_content [5, 7] ?c) = [5]"
    by (simp add: NewConnection_def Conn_Send_def bufio_Write_def bufio_Flush_def conn_Write_def gob_frame_def
        gob_uint_def byte_descs_def byte_content_def bufSize_def tooBig_def)
  then obtain c where c: "send_loop byte_descs byte_content [5, 7] ?c = ([5], c)" by (metis prod.collapse)
  from connection_delivers_sent [OF byte_codec_ok this prefix_order.refl]
  obtain k e where "receive_loop byte_parse [] (written c) = (map id (take k [5]), e)" "length [5 :: byte] \<le> k" by blast
  then show ?thesis using c by simp
qed

end
