(* ===== verification/Retry.thy ===== *)
theory Retry
  imports GoTime
begin

text \<open>
  \<open>internal/retry\<close>: \<open>Retry\<close> runs a function until it succeeds or the attempts are used up, with
  growing delays; \<open>Jitter\<close> draws a random duration. \<open>fn\<close> acts on a state \<open>'s\<close>; the delays slept
  are part of the result. \<open>platform\<close> is the result of converting a float outside \<open>int64\<close>.
\<close>

record RetryConfig =
  MaxAttempts :: int
  Delay :: Duration
  Backoff :: f64

function retry_loop ::
    "(f64 \<Rightarrow> int) \<Rightarrow> RetryConfig \<Rightarrow> ('s \<Rightarrow> error option \<times> 's) \<Rightarrow> int \<Rightarrow> Duration \<Rightarrow> error option \<Rightarrow>
     Duration list \<Rightarrow> 's \<Rightarrow> error option \<times> Duration list \<times> 's" where
  "retry_loop platform cfg fn attempt delay lastErr slept s =
     (if attempt \<le> MaxAttempts cfg then
        (case fn s of
           (None, s) \<Rightarrow> (None, slept, s)
         | (Some err, s) \<Rightarrow>
             if attempt < MaxAttempts cfg then
               retry_loop platform cfg fn (attempt + 1)
                 (f64_to_int64 platform (f64_mul (f64_of_int delay) (Backoff cfg))) (Some err) (slept @ [delay]) s
             else retry_loop platform cfg fn (attempt + 1) delay (Some err) slept s)
      else (lastErr, slept, s))"
  by pat_completeness auto
termination
  by (relation "measure (\<lambda>(_, cfg, _, attempt, _). nat (MaxAttempts cfg + 1 - attempt))") auto

declare retry_loop.simps [simp del]

definition Retry_run ::
    "(f64 \<Rightarrow> int) \<Rightarrow> RetryConfig \<Rightarrow> ('s \<Rightarrow> error option \<times> 's) \<Rightarrow> 's \<Rightarrow> error option \<times> Duration list \<times> 's" where
  "Retry_run platform cfg fn s = retry_loop platform cfg fn 1 (Delay cfg) None [] s"

text \<open>\<open>rand.Int63n(n)\<close> panics unless \<open>0 < n\<close>; \<open>rnd\<close> gives its result otherwise.\<close>

definition Jitter :: "(int \<Rightarrow> int) \<Rightarrow> Duration \<Rightarrow> go_panic + Duration" where
  "Jitter rnd d =
     (let fifth = sgn d * (\<bar>d\<bar> div 5)
      in if fifth * 2 \<le> 0 then Inl InvalidArgument else Inr (rnd (fifth * 2) - fifth))"

section \<open>What they do\<close>

text \<open>The plain meaning: up to \<open>n\<close> calls, the last error if none succeeds, and the number of calls.\<close>

fun try_times :: "nat \<Rightarrow> ('s \<Rightarrow> error option \<times> 's) \<Rightarrow> error option \<Rightarrow> 's \<Rightarrow> error option \<times> nat \<times> 's" where
  "try_times 0 fn prevErr s = (prevErr, 0, s)"
| "try_times (Suc n) fn prevErr s =
     (case fn s of
        (None, s) \<Rightarrow> (None, 1, s)
      | (Some err, s) \<Rightarrow> (case try_times n fn (Some err) s of (r, k, s) \<Rightarrow> (r, Suc k, s)))"

lemma try_times_calls: "try_times n fn prevErr s = (r, k, s') \<Longrightarrow> k \<le> n \<and> (0 < n \<longrightarrow> 0 < k)"
  by (induction n fn prevErr s arbitrary: r k s' rule: try_times.induct)
    (auto split: prod.splits option.splits)

lemma retry_loop_try:
  "n = nat (MaxAttempts cfg + 1 - attempt) \<Longrightarrow> try_times n fn lastErr s = (r, k, s') \<Longrightarrow>
   \<exists>ds. retry_loop platform cfg fn attempt delay lastErr slept s = (r, slept @ ds, s') \<and> length ds = k - 1"
proof (induction n arbitrary: attempt delay lastErr slept s r k s')
  case 0
  then show ?case by (simp add: retry_loop.simps [of platform cfg fn attempt])
next
  case (Suc n)
  then have le: "attempt \<le> MaxAttempts cfg" and n: "n = nat (MaxAttempts cfg + 1 - (attempt + 1))" by auto
  obtain f t where f: "fn s = (f, t)" by force
  show ?case
  proof (cases f)
    case None
    then show ?thesis using Suc.prems(2) f le by (simp add: retry_loop.simps [of platform cfg fn attempt])
  next
    case (Some err)
    obtain k' where t: "try_times n fn (Some err) t = (r, k', s')" "k = Suc k'"
      using Suc.prems(2) f Some by (auto split: prod.splits)
    show ?thesis
    proof (cases "attempt < MaxAttempts cfg")
      case True
      have "0 < k'" using try_times_calls [OF t(1)] True n by simp
      moreover obtain ds where "retry_loop platform cfg fn (attempt + 1)
          (f64_to_int64 platform (f64_mul (f64_of_int delay) (Backoff cfg))) (Some err) (slept @ [delay]) t =
          (r, (slept @ [delay]) @ ds, s')" "length ds = k' - 1"
        using Suc.IH [OF n t(1)] by blast
      ultimately show ?thesis
        using f Some le True t(2) by (intro exI [of _ "delay # ds"]) (simp add: retry_loop.simps [of platform cfg fn attempt])
    next
      case False
      then have "n = 0" using le n by simp
      then show ?thesis
        using f Some le False t
        by (subst retry_loop.simps) (auto simp: retry_loop.simps [of platform cfg fn "MaxAttempts cfg + 1"])
    qed
  qed
qed

text \<open>
  \<open>Retry\<close> returns after at most \<open>MaxAttempts\<close> calls with the plain result, and sleeps between
  the calls. With no attempts allowed it reports success without a call.
\<close>

lemma Retry_contract:
  assumes "try_times (nat (MaxAttempts cfg)) fn None s = (r, k, s')"
  shows "\<exists>ds. Retry_run platform cfg fn s = (r, ds, s') \<and> length ds = k - 1 \<and> k \<le> nat (MaxAttempts cfg)"
  using retry_loop_try [of "nat (MaxAttempts cfg)" cfg 1 fn None s r k s' platform "Delay cfg" "[]"] assms
    try_times_calls [OF assms] by (auto simp: Retry_run_def)

lemma Retry_without_attempts: "MaxAttempts cfg \<le> 0 \<Longrightarrow> Retry_run platform cfg fn s = (None, [], s)"
  by (simp add: Retry_run_def retry_loop.simps)

lemma Jitter_range:
  assumes "\<And>n. 0 < n \<Longrightarrow> 0 \<le> rnd n \<and> rnd n < n"
  shows "if d < 5 then Jitter rnd d = Inl InvalidArgument
    else \<exists>j. Jitter rnd d = Inr j \<and> - (d div 5) \<le> j \<and> j < d div 5"
proof (cases "d < 5")
  case True
  have "sgn d * (\<bar>d\<bar> div 5) \<le> 0" using True by (cases "0 \<le> d") (auto simp: sgn_if zero_less_mult_iff pos_imp_zdiv_nonneg_iff)
  then show ?thesis using True by (simp add: Jitter_def Let_def)
next
  case False
  then have "0 < d div 5" "sgn d * (\<bar>d\<bar> div 5) = d div 5" by (simp_all add: pos_imp_zdiv_pos_iff)
  then show ?thesis using False assms [of "d div 5 * 2"] by (simp add: Jitter_def Let_def)
qed

end
