(* ===== verification/Cli.thy ===== *)
theory Cli
  imports Startup
begin

text \<open>
  The interactive command of \<open>cmd/suffren/cli.go\<close>. The engine is a parameter: its methods act on a
  state \<open>'e\<close>. The input is the lines the scanner delivers and the error it ends with; the output is
  the list of messages printed.
\<close>

record 'e node_ops =
  op_Start :: "'e \<Rightarrow> 'e \<times> (start_error + unit)"
  op_IncrementKey :: "'e \<Rightarrow> string \<Rightarrow> uint64 \<Rightarrow> 'e \<times> uint64 \<times> bool"
  op_ValueForKey :: "'e \<Rightarrow> string \<Rightarrow> 'e \<times> uint64 \<times> bool"
  op_Stop :: "'e \<Rightarrow> go_panic + 'e"

datatype cli_message =
    MsgInitialized
  | MsgStarting
  | MsgFailedToStart start_error
  | MsgStarted
  | MsgCommands
  | MsgUsageIncrement
  | MsgInvalidIncrement num_error
  | MsgIncremented string uint64
  | MsgIncrementFailed
  | MsgUsageValue
  | MsgValue string uint64
  | MsgValueFailed
  | MsgReadError error

text \<open>One turn of the loop: the new state, the messages and whether the loop goes on.\<close>

definition cli_increment :: "'e node_ops \<Rightarrow> 'e \<Rightarrow> string list \<Rightarrow> 'e \<times> cli_message list" where
  "cli_increment N e parts =
     (if length parts < 2 then (e, [MsgUsageIncrement])
      else let key = parts ! 1
           in case (if length parts > 2 then ParseUint (parts ! 2) else Inr 1) of
                Inl err \<Rightarrow> (e, [MsgInvalidIncrement err])
              | Inr incValue \<Rightarrow>
                  (case op_IncrementKey N e key incValue of
                     (e, value, ok) \<Rightarrow> (e, [if ok then MsgIncremented key value else MsgIncrementFailed])))"

definition cli_value :: "'e node_ops \<Rightarrow> 'e \<Rightarrow> string list \<Rightarrow> 'e \<times> cli_message list" where
  "cli_value N e parts =
     (if length parts < 2 then (e, [MsgUsageValue])
      else let key = parts ! 1
           in case op_ValueForKey N e key of
                (e, value, ok) \<Rightarrow> (e, [if ok then MsgValue key value else MsgValueFailed]))"

definition cli_line :: "'e node_ops \<Rightarrow> 'e \<Rightarrow> string \<Rightarrow> go_panic + 'e \<times> cli_message list \<times> bool" where
  "cli_line N e line =
     (if line = [] then Inr (e, [], True)
      else case Fields line of
             [] \<Rightarrow> Inl IndexOutOfRange
           | cmd # args \<Rightarrow>
               (if cmd = ''s'' then
                  (case op_Start N e of
                     (e, Inl err) \<Rightarrow> Inr (e, [MsgStarting, MsgFailedToStart err], True)
                   | (e, Inr _) \<Rightarrow> Inr (e, [MsgStarting, MsgStarted, MsgCommands], True))
                else if cmd = ''i'' then
                  (case cli_increment N e (cmd # args) of (e, out) \<Rightarrow> Inr (e, out, True))
                else if cmd = ''v'' then
                  (case cli_value N e (cmd # args) of (e, out) \<Rightarrow> Inr (e, out, True))
                else if cmd = ''q'' then
                  (case op_Stop N e of Inl p \<Rightarrow> Inl p | Inr e \<Rightarrow> Inr (e, [], False))
                else Inr (e, [], True)))"

fun cli_loop :: "'e node_ops \<Rightarrow> 'e \<Rightarrow> string list \<Rightarrow> error option \<Rightarrow> go_panic + 'e \<times> cli_message list" where
  "cli_loop N e [] scanErr = Inr (e, case scanErr of None \<Rightarrow> [] | Some err \<Rightarrow> [MsgReadError err])"
| "cli_loop N e (line # input) scanErr =
     (case cli_line N e line of
        Inl p \<Rightarrow> Inl p
      | Inr (e, out, False) \<Rightarrow> Inr (e, out)
      | Inr (e, out, True) \<Rightarrow>
          (case cli_loop N e input scanErr of Inl p \<Rightarrow> Inl p | Inr (e, rest) \<Rightarrow> Inr (e, out @ rest)))"

definition startInteractiveCLI ::
    "'e node_ops \<Rightarrow> 'e \<Rightarrow> string list \<Rightarrow> error option \<Rightarrow> go_panic + 'e \<times> cli_message list" where
  "startInteractiveCLI N e input scanErr =
     (case cli_loop N e input scanErr of Inl p \<Rightarrow> Inl p | Inr (e, out) \<Rightarrow> Inr (e, MsgInitialized # out))"

section \<open>When the command loop panics\<close>

text \<open>A line is blank when it is not empty but has only white space: \<open>parts[0]\<close> is out of range.\<close>

definition blank :: "string \<Rightarrow> bool" where
  "blank line \<longleftrightarrow> line \<noteq> [] \<and> Fields line = []"

definition quits :: "string \<Rightarrow> bool" where
  "quits line \<longleftrightarrow> (case Fields line of [] \<Rightarrow> False | cmd # _ \<Rightarrow> cmd = ''q'')"

lemma Fields_Nil [simp]: "Fields [] = []"
  by (simp add: Fields_def)

lemma cli_line_blank: "blank line \<Longrightarrow> cli_line N e line = Inl IndexOutOfRange"
  by (simp add: cli_line_def blank_def)

lemma cli_line_goes_on:
  "\<not> blank line \<Longrightarrow> \<not> quits line \<Longrightarrow> \<exists>e' out. cli_line N e line = Inr (e', out, True)"
  by (auto simp: cli_line_def blank_def quits_def split: list.splits prod.splits sum.splits)

lemma cli_line_quits:
  "quits line \<Longrightarrow>
   cli_line N e line = (case op_Stop N e of Inl p \<Rightarrow> Inl p | Inr e' \<Rightarrow> Inr (e', [], False))"
  by (auto simp: cli_line_def quits_def split: list.splits)

text \<open>
  When stopping the node cannot panic, the loop panics exactly when a blank line comes before the
  first line that quits.
\<close>

theorem cli_panics_iff:
  assumes "\<And>e. \<exists>e'. op_Stop N e = Inr e'"
  shows "(\<exists>p. startInteractiveCLI N e input scanErr = Inl p) \<longleftrightarrow>
    (\<exists>line \<in> set (takeWhile (\<lambda>t. \<not> quits t) input). blank line)"
proof -
  have "(\<exists>p. cli_loop N e input scanErr = Inl p) \<longleftrightarrow>
      (\<exists>line \<in> set (takeWhile (\<lambda>t. \<not> quits t) input). blank line)"
  proof (induction input arbitrary: e)
    case (Cons line input)
    consider (quit) "quits line" | (blank) "blank line" "\<not> quits line" | (other) "\<not> blank line" "\<not> quits line"
      by blast
    then show ?case
    proof cases
      case quit then show ?thesis using assms [of e] by (auto simp: cli_line_quits)
    next
      case blank then show ?thesis by (simp add: cli_line_blank)
    next
      case other
      obtain e' out where "cli_line N e line = Inr (e', out, True)" using cli_line_goes_on [OF other, of N e] by blast
      then show ?thesis using Cons.IH [of e'] other by (auto split: sum.splits)
    qed
  qed simp
  then show ?thesis by (auto simp: startInteractiveCLI_def split: sum.splits)
qed

text \<open>A malformed amount never reaches the engine.\<close>

lemma cli_bad_amount_is_refused:
  "Fields line = [''i'', key, amount] \<Longrightarrow> ParseUint amount = Inl err \<Longrightarrow>
   cli_line N e line = Inr (e, [MsgInvalidIncrement err], True)"
  by (cases line) (auto simp: cli_line_def cli_increment_def)

end
