(* ===== verification/Spec2Isabelle.thy ===== *)
theory Spec2Isabelle
  imports Boot BenchMain Http Connection Retry Cli
begin

text \<open>
  Suffren is a distributed rate limiter written in Go. Every node keeps a grow-only map of
  counters; the nodes agree on it by generalised lattice agreement, a leaderless quorum protocol
  whose learned values are totally ordered by containment. On top of it an engine batches the
  increments and reads of its callers, and a limiter counts requests per time window behind an
  HTTP API; the state is saved to a file and the nodes talk over TCP. This library models the code
  under \<open>src/internal\<close> and \<open>src/cmd\<close> and proves what makes it correct, and where the
  code departs from what its comments and README promise.

  \<^bold>\<open>The program and the theories.\<close>

  \<^item> \<open>Go_Prelude\<close>: the Go level shared by all: a \<open>map\<close> as an association list in the
    (arbitrary) order of iteration, \<open>uint64\<close> as a 64-bit word, panics as values.
  \<^item> \<open>Lattice\<close>: the interface \<open>crdt.Lattice\<close> as a record of methods, and its contract
    as locales: \<open>join_order\<close> (join, containment, bottom, merge), \<open>exact_lattice\<close>
    (equality and strict containment), \<open>wire_lattice\<close> (crossing the network).
  \<^item> \<open>GCounter\<close>, \<open>CounterMap\<close>: \<open>internal/crdt\<close>, every method with its loops and
    early returns, interpreting those locales.
  \<^item> \<open>Protocol\<close>: \<open>internal/protocol\<close>, and the effects a handler starts.
  \<^item> \<open>Proposer\<close>, \<open>Acceptor\<close>, \<open>Learner\<close>: the three roles of
    \<open>internal/latticeagreement\<close>; a method under the role's mutex is a function from state and
    message to state and effects.
  \<^item> \<open>LatticeAgreement\<close>: the message router (bounded mailboxes, the role goroutines, their
    start and stop) and the facade.
  \<^item> \<open>Quorum\<close>: majorities as a locale and the fact that two of them share a node.
  \<^item> \<open>Cluster\<close>: all nodes and the messages between them as a step function on events
    (propose, deliver, lose, run a role), reachable states, and the invariant, proved once inside
    \<open>wire_lattice\<close>. \<open>Agreement\<close> states the consequences for counter maps, \<open>Restart\<close> adds nodes
    that lose their roles' state and start again.
  \<^item> \<open>Engine\<close>: \<open>internal/engine\<close>, one function per section under the mutex. The pending
    operations alias the live state, so the counter maps live in a store; the channels too.
  \<^item> \<open>Host\<close>: an engine with its concurrent callers, flusher and snapshot loop as interleaved
    sections, with the invariant that ties each caller to what it will be answered.
  \<^item> \<open>Service\<close>: engines over the cluster, wired as \<open>engine.New\<close> does. \<open>Quota\<close>: what the answered
    increments of a key add up to over all callers of all nodes. \<open>Deployment\<close>: the service with a disk
    per node, snapshots on it, crashes and restarts through \<open>engine.New\<close>.
  \<^item> \<open>GoFloat\<close>, \<open>GoText\<close>, \<open>GoTime\<close>, \<open>GoJson\<close>: what the code uses of Go's library:
    \<open>float64\<close> with rounding to nearest even, decimal numbers, splitting, UTF-8, addresses, durations,
    the calendar and RFC 3339, and \<open>encoding/json\<close> as a parser and a printer that are inverse.
    \<open>GoFlag\<close>: the package \<open>flag\<close>, by which both commands read their arguments.
  \<^item> \<open>Limiter\<close>: \<open>internal/limiter\<close> over an interface to engine and clock; \<open>LimiterEngine\<close> is
    the locale of what it needs of them, interpreted on the model of the engine.
  \<^item> \<open>Api\<close>: \<open>internal/api\<close>, the handlers and the logging middleware. \<open>Http\<close>: the multiplexer in front of
    the handlers, with the cleaning and matching of paths.
  \<^item> \<open>Storage\<close>: \<open>internal/storage\<close> over a file system with failing calls, crashes and data
    that was not synced; the contract of the interface as the locales \<open>storage\<close> and
    \<open>durable_storage\<close>, interpreted for both implementations.
  \<^item> \<open>P2pClient\<close>: the connection pool and \<open>Network\<close> of \<open>internal/p2p\<close>, shown to refine the
    lossy network of \<open>Cluster\<close>. \<open>Connection\<close>: a connection down to its bytes, with the frames of a gob
    stream, the buffered writer and writes that fail in the middle. \<open>Lifecycle\<close>: its server and \<open>internal/node\<close>, every goroutine
    as steps, with \<open>Node.Stop\<close>.
  \<^item> \<open>Retry\<close>: \<open>internal/retry\<close>. \<open>Startup\<close>: \<open>internal/config\<close>, the start loop of the engine
    and what \<open>cmd/suffren/main.go\<close> computes from its environment. \<open>Boot\<close>: all of \<open>main\<close>, the assembly
    of a node by \<open>engine.New\<close> and its start; also \<open>internal/testutils\<close>. \<open>Cli\<close>: the interactive command.
  \<^item> \<open>Bench\<close>: the load generator \<open>cmd/bench\<close>: its requests, its worker pool and its report;
    \<open>BenchMain\<close>: its \<open>main\<close> as a whole, from the arguments to the report.

  \<^bold>\<open>What is shown.\<close> The counter maps are a join semilattice on which \<open>IsIn\<close>,
  \<open>Equals\<close> and \<open>StrictlyIsIn\<close> decide order, equality and strict order as long as all
  counters have the cluster's node set; replicas converge whatever the order of merges;
  increments are exact until a count overflows. Under any scheduling, reordering and loss of
  messages the learned values contain only what was proposed, roles do not panic, accepted and
  learned values only grow, and two decisions are comparable if each counted different acceptors.
  A successful \<open>IncrementKey\<close> is contained in a decided value and returns its total; the increments
  of a key answered with at most a limit add up to at most that limit over the whole cluster. A
  client that asks one node again and again is granted at most the limit per window; the estimate
  over two windows stays between their counts although it is computed in floating point; windows of
  at least a second have keys of their own. Only a \<open>POST\<close> to one of the two paths reaches the limiter;
  the API answers every body with one status and the decision as JSON. A connection delivers a prefix
  of the messages whose \<open>Send\<close> succeeded and nothing else, wherever its bytes are cut. A save is atomic under failures and crashes, a saved snapshot is not lost and is
  read back with the same counts; a restarted node recovers a snapshot at or after its last
  undisturbed one. Across restarts learned values stay decided and made of proposals, and decisions
  stay comparable if they share an acceptor that was not restarted. The start of a node ends; with
  its own entry in \<open>PEERS\<close> it brings up the server and every role once. Every run of the load
  generator ends with one result per request and a report that adds up.

  Some theorems state where the code falls short: a proposer counts replies and not acceptors, so
  one acceptor acknowledging the same value twice can break agreement; a restarted acceptor has
  forgotten what it acknowledged, which breaks agreement and exceeds a limit; a late \<open>LEARN\<close> answers
  a quorum read with an old state; a stale \<open>NACK\<close> repeats a proposal without moving up; an
  operation waits for later increments of its node; \<open>sync\<close> can drop a learned value; counts
  wrap around; equality fails between counters with different node sets; a refused or failed
  request stays counted, and the status then reports about \<open>2^64\<close> requests as remaining;
  \<open>Node.Stop\<close> can wait for ever for a handler that is blocked on a full channel; failed sends leak
  connections; a node that is not among its peers serves an API on which every call fails; a blank
  line ends the interactive command with a panic; the load generator panics for no requests and for
  an empty range of keys.

  \<^bold>\<open>Modelling choices.\<close> An event is one section of code under a mutex, so every
  interleaving of goroutines is a sequence of events; \<open>cluster_run\<close> and \<open>system_run\<close> run a
  given sequence. Loops range over finite maps and lists, or end by a measure; only the JSON
  parser has fuel, the length of the text, which its round trip shows to be enough, and Go's limit
  of 10000 nested values. The start loop runs over a given list of clock readings and results of
  \<open>sync\<close>, the connection pool over a list of faults, a save over an outcome for each system call.
  Parameters stand for what the platform decides: \<open>platform\<close> for the conversion of a float that
  does not fit, \<open>zone\<close> for the local time zone, \<open>wire\<close> for what \<open>encoding/gob\<close> keeps of a value,
  \<open>descs\<close>, \<open>content\<close> and \<open>parse\<close> for what it puts into the frames of a stream (\<open>gob_ok\<close> is what it promises of
  them), \<open>moved\<close> for the page of a redirect,
  \<open>getenv\<close> for the environment, \<open>dotenv\<close> for what the package \<open>godotenv\<close> adds to it, \<open>netListen\<close> for the
  errors of \<open>net.Listen\<close>, \<open>rnd\<close> for random numbers. The network may reorder and lose messages, each is dispatched in a goroutine of its own;
  it does not corrupt or invent them. Integers keep their 64 bits; the bounds a property needs
  (an own count or the operation number does not wrap) are in \<open>host_event_ok\<close>. History
  variables (\<open>acked\<close>, \<open>ackers\<close>, \<open>decided\<close>, \<open>proposals\<close>, \<open>snapshotOf\<close>, \<open>recent\<close>, \<open>durable\<close>, and the set of
  restarted nodes) are never read by an event. A restart replaces the roles and the engine of a node at
  once; messages it had sent stay in the network. \<open>float64\<close> operations are rounded one by one, as on
  platforms without fused multiplication and addition. Logging is left out.

  \<^bold>\<open>Not modelled.\<close> What the program leaves to others: the HTTP client of the load generator, whose
  results are part of a schedule; the connections of the server of \<open>net/http\<close> and request targets that
  are not paths; the inside of a gob frame; the memory of the machine, which is unbounded here (a
  channel can be made of any size that is not negative). Of its own code logging and printing; the
  numbers of the load generator's report are fields of a record. Clocks of the nodes are not related
  to each other: properties over several windows are those of one node's clock.
\<close>

end
